(* ===== verification/Net_Prelude.thy ===== *)
theory Net_Prelude
  imports Main "HOL-Library.Word"
begin

text \<open>
  Shared vocabulary of the development: the C integer types of the firmware as words, byte
  memory with \<open>memcpy\<close>, the \<open>u16_t\<close>/\<open>u8_t\<close> truncations used where a component is modelled over
  \<open>nat\<close>, lwIP's \<open>err_t\<close>, and the generic lemmas on words, bits and memory that the component
  theories share.
\<close>

unbundle bit_operations_syntax

named_theorems emac_defs "definitions unfolded when a register or descriptor access is evaluated"
named_theorems ring_simps "rewrite rules for the descriptor rings"
named_theorems mem_simps "rewrite rules for byte memory"

type_synonym u8 = "8 word"
type_synonym u16 = "16 word"
type_synonym u32 = "32 word"
type_synonym u64 = "64 word"

text \<open>Byte-addressed memory: the frame buffers, pbuf payloads and application buffers.\<close>

type_synonym memory = "u32 \<Rightarrow> u8"

section \<open>Single bits of a word\<close>

lemma and_bit_eq [simp]:
  "(w AND (2 ^ n) = 0) = (\<not> bit w n)" for w :: "'a::len word"
  by (rule and_exp_eq_0_iff_not_bit)

lemma and_single_bit_self:
  fixes w :: "'a::len word"
  assumes "n < LENGTH('a)"
  shows "(w AND 2 ^ n = 2 ^ n) = bit w n"
proof
  assume "w AND 2 ^ n = 2 ^ n"
  then have "bit (w AND 2 ^ n) n" using assms by (simp add: bit_exp_iff)
  then show "bit w n" by (simp add: bit_and_iff)
next
  assume "bit w n"
  then show "w AND 2 ^ n = 2 ^ n"
    by (intro bit_word_eqI) (auto simp: bit_and_iff bit_exp_iff)
qed

text \<open>
  The mask idiom \<open>0x1ul << pos\<close> of the register headers and of the driver's bit constants. It is
  kept folded so that tests and updates of one bit reduce to \<open>bit\<close> at that position.
\<close>

definition msk :: "nat \<Rightarrow> u32" where
  "msk p = push_bit p 1"

lemma bit_msk [simp]: "bit (msk p) n \<longleftrightarrow> n = p \<and> p < 32"
  by (auto simp: msk_def bit_exp_iff)

lemma and_msk_eq_0 [simp]: "p < 32 \<Longrightarrow> (w AND msk p = 0) = (\<not> bit w p)"
  by (simp add: msk_def and_exp_eq_0_iff_not_bit)

lemma and_msk_eq_msk [simp]: "p < 32 \<Longrightarrow> (w AND msk p = msk p) = bit w p"
  using and_single_bit_self [of p w] by (simp add: msk_def)

lemma or_msk_idem [simp]: "bit w p \<Longrightarrow> w OR msk p = w"
  by (rule bit_word_eqI) (auto simp: bit_or_iff)

lemma bit_or_word [simp]: "bit (v OR w) n \<longleftrightarrow> bit v n \<or> bit w n" for v w :: u32
  by (rule bit_or_iff)

lemma bit_and_word [simp]: "bit (v AND w) n \<longleftrightarrow> bit v n \<and> bit w n" for v w :: u32
  by (rule bit_and_iff)

lemma bit_not_word [simp]: "bit (NOT w) n \<longleftrightarrow> n < 32 \<and> \<not> bit w n" for w :: u32
  by (simp add: bit_not_iff)

lemma bit_drop_word [simp]: "bit (drop_bit k w) n \<longleftrightarrow> bit w (k + n)" for w :: u32
  by (simp add: bit_drop_bit_eq)

lemma bit_word_lt: "bit w n \<Longrightarrow> n < 32" for w :: u32
  using bit_imp_le_length [of w n] by simp

lemma in_set_tl: "x \<in> set (tl xs) \<Longrightarrow> x \<in> set xs"
  by (cases xs) auto

section \<open>Byte memory\<close>

text \<open>The C library's \<open>memcpy\<close>: \<open>n\<close> bytes from \<open>src\<close> to \<open>dst\<close>, addresses taken modulo \<open>2^32\<close>.\<close>

definition memcpy :: "u32 \<Rightarrow> u32 \<Rightarrow> nat \<Rightarrow> memory \<Rightarrow> memory" where
  "memcpy dst src n m = (\<lambda>a. if unat (a - dst) < n then m (src + (a - dst)) else m a)"

definition read_bytes :: "memory \<Rightarrow> u32 \<Rightarrow> nat \<Rightarrow> u8 list" where
  "read_bytes m a n = map (\<lambda>i. m (a + of_nat i)) [0..<n]"

definition write_bytes :: "u32 \<Rightarrow> u8 list \<Rightarrow> memory \<Rightarrow> memory" where
  "write_bytes dst bs m = (\<lambda>a. if unat (a - dst) < length bs then bs ! unat (a - dst) else m a)"

lemma length_read_bytes [simp]: "length (read_bytes m a n) = n"
  by (simp add: read_bytes_def)

lemma nth_read_bytes [simp]: "i < n \<Longrightarrow> read_bytes m a n ! i = m (a + of_nat i)"
  by (simp add: read_bytes_def)

lemma read_bytes_0 [simp]: "read_bytes m a 0 = []"
  by (simp add: read_bytes_def)

lemma unat_of_nat_u32: "i < 2 ^ 32 \<Longrightarrow> unat (of_nat i :: u32) = i"
  by (simp add: unat_of_nat take_bit_eq_mod)

lemma unat_neg_u32: "w \<noteq> 0 \<Longrightarrow> unat (- w) = 2 ^ 32 - unat w" for w :: u32
  using unat_sub_if_size [of 0 w] by (simp add: word_size unat_eq_zero)

lemma memcpy_dst:
  assumes "n \<le> 2 ^ 32"
  shows "read_bytes (memcpy dst src n m) dst n = read_bytes m src n"
  using assms by (intro nth_equalityI) (auto simp: memcpy_def unat_of_nat_u32)

lemma memcpy_other: "n \<le> unat (a - dst) \<Longrightarrow> memcpy dst src n m a = m a"
  by (simp add: memcpy_def)

lemma write_bytes_dst:
  assumes "length bs \<le> 2 ^ 32"
  shows "read_bytes (write_bytes dst bs m) dst (length bs) = bs"
  using assms by (intro nth_equalityI) (auto simp: write_bytes_def unat_of_nat_u32)

lemma memcpy_write_bytes: "memcpy dst src n m = write_bytes dst (read_bytes m src n) m"
  by (rule ext) (auto simp: memcpy_def write_bytes_def)

end
