(* ===== verification/Emac_Regs.thy ===== *)
theory Emac_Regs
  imports Net_Prelude
begin

text \<open>
  The EMAC peripheral as the driver sees it: the constants of \<open>emac.c\<close> and \<open>emac.h\<close>, the register
  file of \<open>emac_reg.h\<close> indexed by byte offset, the DMA descriptor and the driver's state. The
  registers are a function from offsets to values, because \<open>EMAC_EnableCamEntry\<close> and
  \<open>EMAC_FillCamEntry\<close> compute offsets from \<open>CAM0M\<close>. Writing \<open>INTSTS\<close> clears the bits written as one;
  read-only registers ignore writes.
\<close>

section \<open>Constants of emac.c\<close>

definition PHY_CNTL_REG :: u32 where "PHY_CNTL_REG = 0x00"
definition PHY_STATUS_REG :: u32 where "PHY_STATUS_REG = 0x01"
definition PHY_ANA_REG :: u32 where "PHY_ANA_REG = 0x04"
definition PHY_ANLPA_REG :: u32 where "PHY_ANLPA_REG = 0x05"

lemmas phy_reg_defs = PHY_CNTL_REG_def PHY_STATUS_REG_def PHY_ANA_REG_def PHY_ANLPA_REG_def

abbreviation (input) PHY_CNTL_RESET_PHY :: u32 where "PHY_CNTL_RESET_PHY \<equiv> msk 15"
abbreviation (input) PHY_CNTL_RESTART_AN :: u32 where "PHY_CNTL_RESTART_AN \<equiv> msk 9"
abbreviation (input) PHY_STATUS_AN_COMPLETE :: u32 where "PHY_STATUS_AN_COMPLETE \<equiv> msk 5"
abbreviation (input) PHY_STATUS_LINK_VALID :: u32 where "PHY_STATUS_LINK_VALID \<equiv> msk 2"
abbreviation (input) PHY_ANA_DR100_TX_FULL :: u32 where "PHY_ANA_DR100_TX_FULL \<equiv> msk 8"
abbreviation (input) PHY_ANA_DR100_TX_HALF :: u32 where "PHY_ANA_DR100_TX_HALF \<equiv> msk 7"
abbreviation (input) PHY_ANA_DR10_TX_FULL :: u32 where "PHY_ANA_DR10_TX_FULL \<equiv> msk 6"
abbreviation (input) PHY_ANA_DR10_TX_HALF :: u32 where "PHY_ANA_DR10_TX_HALF \<equiv> msk 5"
abbreviation (input) PHY_ANA_IEEE_802_3_CSMA_CD :: u32 where "PHY_ANA_IEEE_802_3_CSMA_CD \<equiv> msk 0"
abbreviation (input) PHY_ANLPA_DR100_TX_FULL :: u32 where "PHY_ANLPA_DR100_TX_FULL \<equiv> msk 8"
abbreviation (input) PHY_ANLPA_DR100_TX_HALF :: u32 where "PHY_ANLPA_DR100_TX_HALF \<equiv> msk 7"
abbreviation (input) PHY_ANLPA_DR10_TX_FULL :: u32 where "PHY_ANLPA_DR10_TX_FULL \<equiv> msk 6"

definition EMAC_DESC_OWN_EMAC :: u32 where "EMAC_DESC_OWN_EMAC = 0x80000000"
definition EMAC_RXFD_RXGD :: u32 where "EMAC_RXFD_RXGD = 0x0010"
definition EMAC_RXFD_CRCE :: u32 where "EMAC_RXFD_CRCE = 0x0002"
definition EMAC_TXFD_TTSEN :: u32 where "EMAC_TXFD_TTSEN = 0x08"
definition EMAC_TXFD_INTEN :: u32 where "EMAC_TXFD_INTEN = 0x04"
definition EMAC_TXFD_CRCAPP :: u32 where "EMAC_TXFD_CRCAPP = 0x02"
definition EMAC_TXFD_PADEN :: u32 where "EMAC_TXFD_PADEN = 0x01"
definition EMAC_TXFD_TXCP :: u32 where "EMAC_TXFD_TXCP = 0x0008"

section \<open>Constants of emac.h\<close>

definition EMAC_PHY_ADDR :: u32 where "EMAC_PHY_ADDR = 1"
definition EMAC_RX_DESC_SIZE :: nat where "EMAC_RX_DESC_SIZE = 4"
definition EMAC_TX_DESC_SIZE :: nat where "EMAC_TX_DESC_SIZE = 4"
definition EMAC_CAMENTRY_NB :: nat where "EMAC_CAMENTRY_NB = 16"
definition EMAC_MAX_PKT_SIZE :: nat where "EMAC_MAX_PKT_SIZE = 1524"
definition EMAC_LINK_DOWN :: u32 where "EMAC_LINK_DOWN = 0"
definition EMAC_LINK_100F :: u32 where "EMAC_LINK_100F = 1"
definition EMAC_LINK_100H :: u32 where "EMAC_LINK_100H = 2"
definition EMAC_LINK_10F :: u32 where "EMAC_LINK_10F = 3"
definition EMAC_LINK_10H :: u32 where "EMAC_LINK_10H = 4"
definition EMAC_TIMEOUT_ERR :: int where "EMAC_TIMEOUT_ERR = -1"
definition EMAC_BUS_ERR :: int where "EMAC_BUS_ERR = -2"

section \<open>Register offsets and fields of emac\_reg.h\<close>

abbreviation (input) CAMCTL :: u32 where "CAMCTL \<equiv> 0x00"
abbreviation (input) CAMEN :: u32 where "CAMEN \<equiv> 0x04"
abbreviation (input) CAM0M :: u32 where "CAM0M \<equiv> 0x08"
abbreviation (input) CAM0L :: u32 where "CAM0L \<equiv> 0x0c"
abbreviation (input) TXDSA :: u32 where "TXDSA \<equiv> 0x88"
abbreviation (input) RXDSA :: u32 where "RXDSA \<equiv> 0x8c"
abbreviation (input) CTL :: u32 where "CTL \<equiv> 0x90"
abbreviation (input) MIIMDAT :: u32 where "MIIMDAT \<equiv> 0x94"
abbreviation (input) MIIMCTL :: u32 where "MIIMCTL \<equiv> 0x98"
abbreviation (input) TXST :: u32 where "TXST \<equiv> 0xa0"
abbreviation (input) RXST :: u32 where "RXST \<equiv> 0xa4"
abbreviation (input) MRFL :: u32 where "MRFL \<equiv> 0xa8"
abbreviation (input) INTEN :: u32 where "INTEN \<equiv> 0xac"
abbreviation (input) INTSTS :: u32 where "INTSTS \<equiv> 0xb0"
abbreviation (input) CTXDSA :: u32 where "CTXDSA \<equiv> 0xcc"
abbreviation (input) CTXBSA :: u32 where "CTXBSA \<equiv> 0xd0"
abbreviation (input) CRXDSA :: u32 where "CRXDSA \<equiv> 0xd4"
abbreviation (input) CRXBSA :: u32 where "CRXBSA \<equiv> 0xd8"
abbreviation (input) TSCTL :: u32 where "TSCTL \<equiv> 0x100"
abbreviation (input) TSSEC :: u32 where "TSSEC \<equiv> 0x110"
abbreviation (input) TSSUBSEC :: u32 where "TSSUBSEC \<equiv> 0x114"
abbreviation (input) TSINC :: u32 where "TSINC \<equiv> 0x118"
abbreviation (input) TSADDEND :: u32 where "TSADDEND \<equiv> 0x11c"
abbreviation (input) UPDSEC :: u32 where "UPDSEC \<equiv> 0x120"
abbreviation (input) UPDSUBSEC :: u32 where "UPDSUBSEC \<equiv> 0x124"
abbreviation (input) ALMSEC :: u32 where "ALMSEC \<equiv> 0x128"
abbreviation (input) ALMSUBSEC :: u32 where "ALMSUBSEC \<equiv> 0x12c"

abbreviation (input) EMAC_CAMCTL_AMP_Msk :: u32 where "EMAC_CAMCTL_AMP_Msk \<equiv> msk 1"
abbreviation (input) EMAC_CAMCTL_ABP_Msk :: u32 where "EMAC_CAMCTL_ABP_Msk \<equiv> msk 2"
abbreviation (input) EMAC_CAMCTL_CMPEN_Msk :: u32 where "EMAC_CAMCTL_CMPEN_Msk \<equiv> msk 4"
abbreviation (input) EMAC_CTL_RXON_Msk :: u32 where "EMAC_CTL_RXON_Msk \<equiv> msk 0"
abbreviation (input) EMAC_CTL_STRIPCRC_Msk :: u32 where "EMAC_CTL_STRIPCRC_Msk \<equiv> msk 5"
abbreviation (input) EMAC_CTL_WOLEN_Msk :: u32 where "EMAC_CTL_WOLEN_Msk \<equiv> msk 6"
abbreviation (input) EMAC_CTL_TXON_Msk :: u32 where "EMAC_CTL_TXON_Msk \<equiv> msk 8"
abbreviation (input) EMAC_CTL_FUDUP_Msk :: u32 where "EMAC_CTL_FUDUP_Msk \<equiv> msk 18"
abbreviation (input) EMAC_CTL_OPMODE_Msk :: u32 where "EMAC_CTL_OPMODE_Msk \<equiv> msk 20"
abbreviation (input) EMAC_CTL_RMIIEN_Msk :: u32 where "EMAC_CTL_RMIIEN_Msk \<equiv> msk 22"
abbreviation (input) EMAC_CTL_RST_Msk :: u32 where "EMAC_CTL_RST_Msk \<equiv> msk 24"
abbreviation (input) EMAC_MIIMCTL_WRITE_Msk :: u32 where "EMAC_MIIMCTL_WRITE_Msk \<equiv> msk 16"
abbreviation (input) EMAC_MIIMCTL_BUSY_Msk :: u32 where "EMAC_MIIMCTL_BUSY_Msk \<equiv> msk 17"
abbreviation (input) EMAC_MIIMCTL_MDCON_Msk :: u32 where "EMAC_MIIMCTL_MDCON_Msk \<equiv> msk 19"
abbreviation (input) EMAC_INTEN_RXIEN_Msk :: u32 where "EMAC_INTEN_RXIEN_Msk \<equiv> msk 0"
abbreviation (input) EMAC_INTEN_RXGDIEN_Msk :: u32 where "EMAC_INTEN_RXGDIEN_Msk \<equiv> msk 4"
abbreviation (input) EMAC_INTEN_RDUIEN_Msk :: u32 where "EMAC_INTEN_RDUIEN_Msk \<equiv> msk 10"
abbreviation (input) EMAC_INTEN_RXBEIEN_Msk :: u32 where "EMAC_INTEN_RXBEIEN_Msk \<equiv> msk 11"
abbreviation (input) EMAC_INTEN_WOLIEN_Msk :: u32 where "EMAC_INTEN_WOLIEN_Msk \<equiv> msk 15"
abbreviation (input) EMAC_INTEN_TXIEN_Msk :: u32 where "EMAC_INTEN_TXIEN_Msk \<equiv> msk 16"
abbreviation (input) EMAC_INTEN_TXCPIEN_Msk :: u32 where "EMAC_INTEN_TXCPIEN_Msk \<equiv> msk 18"
abbreviation (input) EMAC_INTEN_TXBEIEN_Msk :: u32 where "EMAC_INTEN_TXBEIEN_Msk \<equiv> msk 24"
abbreviation (input) EMAC_INTEN_TSALMIEN_Msk :: u32 where "EMAC_INTEN_TSALMIEN_Msk \<equiv> msk 28"
abbreviation (input) EMAC_INTSTS_RXBEIF_Msk :: u32 where "EMAC_INTSTS_RXBEIF_Msk \<equiv> msk 11"
abbreviation (input) EMAC_INTSTS_TXBEIF_Msk :: u32 where "EMAC_INTSTS_TXBEIF_Msk \<equiv> msk 24"
abbreviation (input) EMAC_INTSTS_TSALMIF_Msk :: u32 where "EMAC_INTSTS_TSALMIF_Msk \<equiv> msk 28"
abbreviation (input) EMAC_TSCTL_TSEN_Msk :: u32 where "EMAC_TSCTL_TSEN_Msk \<equiv> msk 0"
abbreviation (input) EMAC_TSCTL_TSIEN_Msk :: u32 where "EMAC_TSCTL_TSIEN_Msk \<equiv> msk 1"
abbreviation (input) EMAC_TSCTL_TSMODE_Msk :: u32 where "EMAC_TSCTL_TSMODE_Msk \<equiv> msk 2"
abbreviation (input) EMAC_TSCTL_TSUPDATE_Msk :: u32 where "EMAC_TSCTL_TSUPDATE_Msk \<equiv> msk 3"
abbreviation (input) EMAC_TSCTL_TSALMEN_Msk :: u32 where "EMAC_TSCTL_TSALMEN_Msk \<equiv> msk 5"

section \<open>Descriptors and driver state\<close>

record EMAC_DESCRIPTOR_T =
  u32Status1 :: u32
  u32Data :: u32
  u32Status2 :: u32
  u32Next :: u32
  u32Backup1 :: u32
  u32Backup2 :: u32

text \<open>
  Where the linker places the static arrays \<open>tx_desc\<close>, \<open>rx_desc\<close>, \<open>tx_buf\<close> and \<open>rx_buf\<close>: a
  parameter of every operation that takes their address.
\<close>

record emac_layout =
  tx_desc :: u32
  rx_desc :: u32
  tx_buf :: u32
  rx_buf :: u32

text \<open>
  The driver's state: register file, the descriptors by address (a typed store, disjoint from the
  byte memory), the byte memory with the frame buffers, the globals of \<open>emac.c\<close>, and two counters
  with a log that index what the hardware answers: \<open>polls\<close> counts the reads of a self-clearing bit,
  \<open>reads\<close> the MDIO read transfers, \<open>phy_writes\<close> the MDIO write transfers in order.
\<close>

record emac =
  regs :: "u32 \<Rightarrow> u32"
  desc :: "u32 \<Rightarrow> EMAC_DESCRIPTOR_T"
  mem :: memory
  u32CurrentTxDesc :: u32
  u32NextTxDesc :: u32
  u32CurrentRxDesc :: u32
  s_u32EnableTs :: u32
  g_EMAC_i32ErrCode :: int
  SystemCoreClock :: u32
  polls :: nat
  reads :: nat
  phy_writes :: "(u32 \<times> u32 \<times> u32) list"

text \<open>The state the start-up code leaves: zero-initialised globals, and the core clock it configured.\<close>

definition emac_boot :: "u32 \<Rightarrow> emac" where
  "emac_boot clk = \<lparr>regs = (\<lambda>_. 0),
    desc = (\<lambda>_. \<lparr>u32Status1 = 0, u32Data = 0, u32Status2 = 0, u32Next = 0, u32Backup1 = 0,
      u32Backup2 = 0\<rparr>),
    mem = (\<lambda>_. 0), u32CurrentTxDesc = 0, u32NextTxDesc = 0, u32CurrentRxDesc = 0,
    s_u32EnableTs = 0, g_EMAC_i32ErrCode = 0, SystemCoreClock = clk, polls = 0, reads = 0,
    phy_writes = []\<rparr>"

text \<open>Register access: reading has no side effect, \<open>INTSTS\<close> is write-one-to-clear.\<close>

definition emac_ro :: "u32 \<Rightarrow> bool" where
  "emac_ro r \<longleftrightarrow> r \<in> {CTXDSA, CTXBSA, CRXDSA, CRXBSA, TSSEC, TSSUBSEC}"

definition emac_rd :: "u32 \<Rightarrow> emac \<Rightarrow> u32" where
  "emac_rd r s = regs s r"

definition emac_wr :: "u32 \<Rightarrow> u32 \<Rightarrow> emac \<Rightarrow> emac" where
  "emac_wr r v s =
    (if emac_ro r then s
     else if r = INTSTS then s\<lparr>regs := (regs s)(INTSTS := regs s INTSTS AND NOT v)\<rparr>
     else s\<lparr>regs := (regs s)(r := v)\<rparr>)"

text \<open>\<open>EMAC->r |= v\<close> and \<open>EMAC->r &= v\<close>.\<close>

definition emac_or :: "u32 \<Rightarrow> u32 \<Rightarrow> emac \<Rightarrow> emac" where
  "emac_or r v s = emac_wr r (emac_rd r s OR v) s"

definition emac_and :: "u32 \<Rightarrow> u32 \<Rightarrow> emac \<Rightarrow> emac" where
  "emac_and r v s = emac_wr r (emac_rd r s AND v) s"

text \<open>Assignment to one descriptor through its address.\<close>

definition upd_desc :: "u32 \<Rightarrow> (EMAC_DESCRIPTOR_T \<Rightarrow> EMAC_DESCRIPTOR_T) \<Rightarrow> emac \<Rightarrow> emac" where
  "upd_desc a f s = s\<lparr>desc := (desc s)(a := f (desc s a))\<rparr>"

section \<open>Register macros of emac.h\<close>

definition EMAC_ENABLE_TX :: "emac \<Rightarrow> emac" where
  "EMAC_ENABLE_TX = emac_or CTL EMAC_CTL_TXON_Msk"

definition EMAC_ENABLE_RX :: "emac \<Rightarrow> emac" where
  "EMAC_ENABLE_RX s = emac_wr RXST 0 (emac_or CTL EMAC_CTL_RXON_Msk s)"

definition EMAC_DISABLE_TX :: "emac \<Rightarrow> emac" where
  "EMAC_DISABLE_TX = emac_and CTL (NOT EMAC_CTL_TXON_Msk)"

definition EMAC_DISABLE_RX :: "emac \<Rightarrow> emac" where
  "EMAC_DISABLE_RX = emac_and CTL (NOT EMAC_CTL_RXON_Msk)"

definition EMAC_ENABLE_RECV_BCASTPKT :: "emac \<Rightarrow> emac" where
  "EMAC_ENABLE_RECV_BCASTPKT = emac_or CAMCTL EMAC_CAMCTL_ABP_Msk"

definition EMAC_DISABLE_RECV_BCASTPKT :: "emac \<Rightarrow> emac" where
  "EMAC_DISABLE_RECV_BCASTPKT = emac_and CAMCTL (NOT EMAC_CAMCTL_ABP_Msk)"

definition EMAC_ENABLE_RECV_MCASTPKT :: "emac \<Rightarrow> emac" where
  "EMAC_ENABLE_RECV_MCASTPKT = emac_or CAMCTL EMAC_CAMCTL_AMP_Msk"

definition EMAC_DISABLE_RECV_MCASTPKT :: "emac \<Rightarrow> emac" where
  "EMAC_DISABLE_RECV_MCASTPKT = emac_and CAMCTL (NOT EMAC_CAMCTL_AMP_Msk)"

definition EMAC_GET_ALARM_FLAG :: "emac \<Rightarrow> u32" where
  "EMAC_GET_ALARM_FLAG s = (if emac_rd INTSTS s AND EMAC_INTSTS_TSALMIF_Msk \<noteq> 0 then 1 else 0)"

definition EMAC_CLR_ALARM_FLAG :: "emac \<Rightarrow> emac" where
  "EMAC_CLR_ALARM_FLAG = emac_wr INTSTS EMAC_INTSTS_TSALMIF_Msk"

definition EMAC_TRIGGER_RX :: "emac \<Rightarrow> emac" where
  "EMAC_TRIGGER_RX = emac_wr RXST 0"

definition EMAC_TRIGGER_TX :: "emac \<Rightarrow> emac" where
  "EMAC_TRIGGER_TX = emac_wr TXST 0"

definition EMAC_ENABLE_INT :: "u32 \<Rightarrow> emac \<Rightarrow> emac" where
  "EMAC_ENABLE_INT u32eIntSel = emac_or INTEN u32eIntSel"

definition EMAC_DISABLE_INT :: "u32 \<Rightarrow> emac \<Rightarrow> emac" where
  "EMAC_DISABLE_INT u32eIntSel = emac_and INTEN (NOT u32eIntSel)"

definition EMAC_GET_INT_FLAG :: "u32 \<Rightarrow> emac \<Rightarrow> u32" where
  "EMAC_GET_INT_FLAG f s = (if emac_rd INTSTS s AND f \<noteq> 0 then 1 else 0)"

definition EMAC_CLEAR_INT_FLAG :: "u32 \<Rightarrow> emac \<Rightarrow> emac" where
  "EMAC_CLEAR_INT_FLAG f = emac_or INTSTS f"

section \<open>Descriptor and status bits as mask positions\<close>

lemma desc_bit_msk [simp]:
  "EMAC_DESC_OWN_EMAC = msk 31" "EMAC_RXFD_RXGD = msk 4" "EMAC_RXFD_CRCE = msk 1"
  "EMAC_TXFD_TXCP = msk 3" "EMAC_TXFD_TTSEN = msk 3" "EMAC_TXFD_INTEN = msk 2"
  "EMAC_TXFD_CRCAPP = msk 1" "EMAC_TXFD_PADEN = msk 0"
  by (simp_all add: msk_def EMAC_DESC_OWN_EMAC_def EMAC_RXFD_RXGD_def EMAC_RXFD_CRCE_def
      EMAC_TXFD_TXCP_def EMAC_TXFD_TTSEN_def EMAC_TXFD_INTEN_def EMAC_TXFD_CRCAPP_def
      EMAC_TXFD_PADEN_def)

lemmas emac_reg_defs [emac_defs] = emac_rd_def emac_wr_def emac_or_def emac_and_def emac_ro_def

lemmas emac_macro_defs [emac_defs] =
  EMAC_ENABLE_TX_def EMAC_ENABLE_RX_def EMAC_DISABLE_TX_def EMAC_DISABLE_RX_def
  EMAC_TRIGGER_RX_def EMAC_TRIGGER_TX_def

section \<open>Register writes touch registers only\<close>

lemma emac_wr_frame [simp]:
  "desc (emac_wr r v s) = desc s" "mem (emac_wr r v s) = mem s"
  "u32CurrentTxDesc (emac_wr r v s) = u32CurrentTxDesc s"
  "u32NextTxDesc (emac_wr r v s) = u32NextTxDesc s"
  "u32CurrentRxDesc (emac_wr r v s) = u32CurrentRxDesc s"
  "s_u32EnableTs (emac_wr r v s) = s_u32EnableTs s"
  "SystemCoreClock (emac_wr r v s) = SystemCoreClock s"
  "g_EMAC_i32ErrCode (emac_wr r v s) = g_EMAC_i32ErrCode s"
  "polls (emac_wr r v s) = polls s" "reads (emac_wr r v s) = reads s"
  "phy_writes (emac_wr r v s) = phy_writes s"
  by (simp_all add: emac_wr_def)

lemma emac_wr_other [simp]: "r' \<noteq> r \<Longrightarrow> regs (emac_wr r v s) r' = regs s r'"
  by (auto simp: emac_wr_def)

lemma emac_wr_same [simp]:
  "\<not> emac_ro r \<Longrightarrow> r \<noteq> INTSTS \<Longrightarrow> regs (emac_wr r v s) r = v"
  by (simp add: emac_wr_def)

lemma upd_desc_frame [simp]:
  "regs (upd_desc a f s) = regs s" "mem (upd_desc a f s) = mem s"
  "u32CurrentTxDesc (upd_desc a f s) = u32CurrentTxDesc s"
  "u32NextTxDesc (upd_desc a f s) = u32NextTxDesc s"
  "u32CurrentRxDesc (upd_desc a f s) = u32CurrentRxDesc s"
  "s_u32EnableTs (upd_desc a f s) = s_u32EnableTs s"
  by (simp_all add: upd_desc_def)

lemma desc_upd_desc [simp]: "desc (upd_desc a f s) = (desc s)(a := f (desc s a))"
  by (simp add: upd_desc_def)

section \<open>Interrupt flags\<close>

text \<open>
  \<open>EMAC_CLEAR_INT_FLAG\<close> is meant to clear the flags in its argument. \<open>INTSTS\<close> is a write-one-to-clear
  register and the macro uses \<open>|=\<close>, so the write carries every pending flag and clears them all.
\<close>

lemma clear_int_flag_regs:
  "regs (EMAC_CLEAR_INT_FLAG f s) INTSTS = 0"
  by (simp add: EMAC_CLEAR_INT_FLAG_def emac_defs)
     (rule bit_word_eqI, simp)

lemma clr_alarm_flag_regs:
  "bit (regs (EMAC_CLR_ALARM_FLAG s) INTSTS) n = (bit (regs s INTSTS) n \<and> n \<noteq> 28)"
  by (auto simp: EMAC_CLR_ALARM_FLAG_def emac_defs dest: bit_word_lt)

end
