(* ===== verification/Emac_Time.thy ===== *)
theory Emac_Time
  imports Emac_Regs
begin

text \<open>
  The IEEE 1588 time-stamp unit of \<open>emac.c\<close>: the conversions between the counter's sub-seconds
  (\<open>2^31\<close> per second) and nanoseconds, and the operations that read, set, adjust and compare the
  time.
\<close>

definition EMAC_Subsec2Nsec :: "u32 \<Rightarrow> u32" where
  "EMAC_Subsec2Nsec subsec =
    (let i = (1000000000 :: u64) * ucast subsec; i = drop_bit 31 i in ucast i)"

definition EMAC_Nsec2Subsec :: "u32 \<Rightarrow> u32" where
  "EMAC_Nsec2Subsec nsec =
    (let i = push_bit 31 (1 :: u64) * ucast nsec; i = i div 1000000000 in ucast i)"

definition EMAC_DisableTS :: "emac \<Rightarrow> emac" where
  "EMAC_DisableTS = emac_wr TSCTL 0"

definition EMAC_GetTime :: "emac \<Rightarrow> u32 \<times> u32" where
  "EMAC_GetTime s =
    (let pu32Nsec = EMAC_Subsec2Nsec (emac_rd TSSUBSEC s); pu32Sec = emac_rd TSSEC s
     in (pu32Sec, pu32Nsec))"

definition EMAC_SetTime :: "u32 \<Rightarrow> u32 \<Rightarrow> emac \<Rightarrow> emac" where
  "EMAC_SetTime u32Sec u32Nsec s =
    (let s = emac_wr TSCTL EMAC_TSCTL_TSEN_Msk s;
         s = emac_wr UPDSEC u32Sec s;
         s = emac_wr UPDSUBSEC (EMAC_Nsec2Subsec u32Nsec) s
     in emac_or TSCTL (EMAC_TSCTL_TSIEN_Msk OR EMAC_TSCTL_TSMODE_Msk) s)"

definition EMAC_EnableAlarm :: "u32 \<Rightarrow> u32 \<Rightarrow> emac \<Rightarrow> emac" where
  "EMAC_EnableAlarm u32Sec u32Nsec s =
    (let s = emac_wr ALMSEC u32Sec s;
         s = emac_wr ALMSUBSEC (EMAC_Nsec2Subsec u32Nsec) s
     in emac_or TSCTL EMAC_TSCTL_TSALMEN_Msk s)"

definition EMAC_DisableAlarm :: "emac \<Rightarrow> emac" where
  "EMAC_DisableAlarm = emac_and TSCTL (NOT EMAC_TSCTL_TSALMEN_Msk)"

definition EMAC_UpdateTime :: "u32 \<Rightarrow> u32 \<Rightarrow> u32 \<Rightarrow> emac \<Rightarrow> emac" where
  "EMAC_UpdateTime u32Neg u32Sec u32Nsec s =
    (let s = emac_wr UPDSEC u32Sec s;
         s = emac_wr UPDSUBSEC (EMAC_Nsec2Subsec u32Nsec) s;
         s = (if u32Neg \<noteq> 0 then emac_or UPDSUBSEC (msk 31) s else s)
     in emac_or TSCTL EMAC_TSCTL_TSUPDATE_Msk s)"

section \<open>The conversions over the integers\<close>

lemma unat_u32_bound: "unat (x :: u32) < 4294967296"
  using unsigned_less [of x] by simp

lemma unat_ucast_u64 [simp]: "unat (ucast (x :: u32) :: u64) = unat x"
  using unat_u32_bound [of x] by (simp add: unsigned_ucast_eq take_bit_eq_mod)

lemma unat_ucast_u32: "unat (x :: u64) < 4294967296 \<Longrightarrow> unat (ucast x :: u32) = unat x"
  by (simp add: unsigned_ucast_eq take_bit_eq_mod)

lemma unat_Subsec2Nsec: "unat (EMAC_Subsec2Nsec x) = unat x * 1000000000 div 2147483648"
proof -
  have b: "unat x < 4294967296" by (rule unat_u32_bound)
  have m: "unat (1000000000 * (ucast x :: u64)) = 1000000000 * unat x"
    using b by (simp add: unat_word_ariths)
  have "unat (drop_bit 31 (1000000000 * (ucast x :: u64))) = 1000000000 * unat x div 2147483648"
    by (simp only: drop_bit_eq_div unat_div m) simp
  then show ?thesis
    using b by (simp add: EMAC_Subsec2Nsec_def unat_ucast_u32 mult.commute)
qed

lemma unat_Nsec2Subsec:
  assumes "unat x < 2000000000"
  shows "unat (EMAC_Nsec2Subsec x) = unat x * 2147483648 div 1000000000"
proof -
  have p: "push_bit 31 (1 :: u64) = 2147483648" by simp
  have m: "unat (2147483648 * (ucast x :: u64)) = 2147483648 * unat x"
    using assms by (simp add: unat_word_ariths)
  then have d: "unat (2147483648 * (ucast x :: u64) div 1000000000)
      = 2147483648 * unat x div 1000000000"
    by (simp add: unat_div)
  moreover have "2147483648 * unat x div 1000000000 < 4294967296"
    using assms by simp
  ultimately show ?thesis
    by (simp only: EMAC_Nsec2Subsec_def Let_def p unat_ucast_u32 mult.commute)
qed

text \<open>
  For a nanosecond field (below \<open>10^9\<close>) the conversion to sub-seconds stays within the 31-bit
  sub-second counter, so that bit 31 is free for the sign \<open>EMAC_UpdateTime\<close> puts there, and
  converting there and back loses less than two nanoseconds and never gains any.
\<close>

theorem nsec_subsec_round_trip:
  assumes "unat n < 1000000000"
  shows "unat (EMAC_Nsec2Subsec n) < 2 ^ 31 \<and>
    unat n - 1 \<le> unat (EMAC_Subsec2Nsec (EMAC_Nsec2Subsec n)) \<and>
    unat (EMAC_Subsec2Nsec (EMAC_Nsec2Subsec n)) \<le> unat n"
proof -
  define q where "q = unat n * 2147483648 div 1000000000"
  have q: "unat (EMAC_Nsec2Subsec n) = q"
    using unat_Nsec2Subsec [of n] assms by (simp add: q_def)
  have qb: "q * 1000000000 \<le> unat n * 2147483648" "unat n * 2147483648 < (q + 1) * 1000000000"
    using div_mult_mod_eq [of "unat n * 2147483648" 1000000000]
      mod_less_divisor [of 1000000000 "unat n * 2147483648"] by (simp_all add: q_def)
  have "q < 2147483648" using qb(1) assms by linarith
  moreover have "unat n - 1 \<le> q * 1000000000 div 2147483648"
    using qb(2) by (simp add: less_eq_div_iff_mult_less_eq)
  moreover have "q * 1000000000 div 2147483648 \<le> unat n"
    using qb(1) div_le_mono [OF qb(1), of 2147483648] by simp
  ultimately show ?thesis
    by (simp add: q unat_Subsec2Nsec)
qed

theorem nsec_subsec_round_trip_witness:
  "unat (EMAC_Nsec2Subsec 999999999) < 2 ^ 31 \<and>
   999999998 \<le> unat (EMAC_Subsec2Nsec (EMAC_Nsec2Subsec 999999999))"
  using nsec_subsec_round_trip [of 999999999] by simp

lemma not_bit_31: "unat x < 2147483648 \<Longrightarrow> \<not> bit x 31" for x :: u32
  using bit_unsigned_iff [of x 31, where ?'a = nat] by (simp add: bit_iff_odd)

text \<open>
  \<open>EMAC_UpdateTime\<close> writes the offset as sign and magnitude: for a nanosecond field below \<open>10^9\<close>
  bit 31 of \<open>UPDSUBSEC\<close> is set exactly when the offset is negative, the other bits hold the
  sub-second magnitude, the update bit is set and no other register changes.
\<close>

theorem update_time_sign_magnitude:
  assumes "unat nsec < 1000000000"
  shows "let s' = EMAC_UpdateTime neg sec nsec s in
    regs s' UPDSEC = sec \<and>
    bit (regs s' UPDSUBSEC) 31 = (neg \<noteq> 0) \<and>
    (\<forall>k < 31. bit (regs s' UPDSUBSEC) k = bit (EMAC_Nsec2Subsec nsec) k) \<and>
    regs s' TSCTL = regs s TSCTL OR EMAC_TSCTL_TSUPDATE_Msk \<and>
    (\<forall>r. r \<notin> {UPDSEC, UPDSUBSEC, TSCTL} \<longrightarrow> regs s' r = regs s r)"
proof -
  have "unat (EMAC_Nsec2Subsec nsec) < 2147483648"
    using assms unat_Nsec2Subsec [of nsec] by simp
  from not_bit_31 [OF this] show ?thesis
    by (simp add: EMAC_UpdateTime_def Let_def emac_defs)
qed

theorem update_time_sign_magnitude_witness:
  "bit (regs (EMAC_UpdateTime 1 2 500000000 (emac_boot 192000000)) UPDSUBSEC) 31"
  using update_time_sign_magnitude [of 500000000 1 2 "emac_boot 192000000"]
  by (simp add: Let_def)

end
