(* ===== verification/Emac_Cam.thy ===== *)
theory Emac_Cam
  imports Emac_Regs
begin

text \<open>
  The CAM of \<open>emac.c\<close>, the sixteen MAC addresses received frames are compared with. An entry is two
  registers at a stride of eight bytes from \<open>CAM0M\<close> and \<open>CAM0L\<close>, and one enable bit in \<open>CAMEN\<close>. A MAC
  address argument is a pointer to six bytes of memory.
\<close>

definition pu8 :: "emac \<Rightarrow> u32 \<Rightarrow> nat \<Rightarrow> u8" where
  "pu8 s p i = mem s (p + of_nat i)"

definition mac_lsw :: "(nat \<Rightarrow> u8) \<Rightarrow> u32" where
  "mac_lsw m = push_bit 24 (ucast (m 4)) OR push_bit 16 (ucast (m 5))"

definition mac_msw :: "(nat \<Rightarrow> u8) \<Rightarrow> u32" where
  "mac_msw m = push_bit 24 (ucast (m 0)) OR push_bit 16 (ucast (m 1))
    OR push_bit 8 (ucast (m 2)) OR ucast (m 3)"

definition EMAC_EnableCamEntry :: "u32 \<Rightarrow> u32 \<Rightarrow> emac \<Rightarrow> emac" where
  "EMAC_EnableCamEntry u32Entry pu8MacAddr s =
    (let u32Lsw = mac_lsw (pu8 s pu8MacAddr);
         u32Msw = mac_msw (pu8 s pu8MacAddr);
         reg = CAM0M + u32Entry * 2 * 4;
         s = emac_wr reg u32Msw s;
         reg = CAM0L + u32Entry * 2 * 4;
         s = emac_wr reg u32Lsw s
     in emac_or CAMEN (push_bit (unat u32Entry) 1) s)"

definition EMAC_SetMacAddr :: "u32 \<Rightarrow> emac \<Rightarrow> emac" where
  "EMAC_SetMacAddr pu8MacAddr = EMAC_EnableCamEntry 0 pu8MacAddr"

definition EMAC_DisableCamEntry :: "u32 \<Rightarrow> emac \<Rightarrow> emac" where
  "EMAC_DisableCamEntry u32Entry = emac_and CAMEN (NOT (push_bit (unat u32Entry) 1))"

text \<open>The bytes \<open>mac[0..5]\<close> that \<open>EMAC_FillCamEntry\<close> reads back from entry \<open>index\<close>.\<close>

definition cam_m :: "nat \<Rightarrow> emac \<Rightarrow> u32" where
  "cam_m index s = emac_rd (CAM0M + of_nat (index * 8)) s"

definition cam_l :: "nat \<Rightarrow> emac \<Rightarrow> u32" where
  "cam_l index s = emac_rd (CAM0L + of_nat (index * 8)) s"

definition cam_mac :: "nat \<Rightarrow> emac \<Rightarrow> u8 list" where
  "cam_mac index s =
    [ucast (drop_bit 24 (cam_m index s) AND 0xff), ucast (drop_bit 16 (cam_m index s) AND 0xff),
     ucast (drop_bit 8 (cam_m index s) AND 0xff), ucast (cam_m index s AND 0xff),
     ucast (drop_bit 24 (cam_l index s) AND 0xff), ucast (drop_bit 16 (cam_l index s) AND 0xff)]"

text \<open>
  The loop over the entries: \<open>(True, i)\<close> when it leaves by \<open>goto exit_emac_fillcamentry\<close> at \<open>i\<close>,
  \<open>(False, i)\<close> when it breaks at an empty entry \<open>i\<close> or runs to the end.
\<close>

function fill_cam_scan :: "u32 \<Rightarrow> emac \<Rightarrow> nat \<Rightarrow> bool \<times> nat" where
  "fill_cam_scan pu8MacAddr s index =
    (if index < EMAC_CAMENTRY_NB then
       if cam_mac index s = map (pu8 s pu8MacAddr) [0..<6] then (True, index)
       else if cam_m index s = 0 \<and> cam_l index s = 0 then (False, index)
       else fill_cam_scan pu8MacAddr s (index + 1)
     else (False, index))"
  by pat_completeness auto

termination
  by (relation "measure (\<lambda>(p, s, i). EMAC_CAMENTRY_NB - i)") auto

declare fill_cam_scan.simps [simp del]

definition EMAC_FillCamEntry :: "u32 \<Rightarrow> emac \<Rightarrow> int \<times> emac" where
  "EMAC_FillCamEntry pu8MacAddr s =
    (let (found, index) = fill_cam_scan pu8MacAddr s 0 in
     if found then (int index, s)
     else if index < EMAC_CAMENTRY_NB then
       (int index, EMAC_EnableCamEntry (of_nat index) pu8MacAddr s)
     else (-1, s))"

section \<open>An entry holds the address it was given\<close>

lemma nth_upt_6: "map f [0..<6] = [f 0, f 1, f 2, f 3, f 4, f 5]" for f :: "nat \<Rightarrow> 'a"
  by (simp add: upt_rec numeral_eq_Suc)

lemma ucast_and_ff: "ucast (w AND 0xff) = (ucast w :: u8)" for w :: u32
proof -
  have "w AND 0xff = take_bit 8 w" by (simp add: take_bit_eq_mask mask_eq_exp_minus_1)
  then show ?thesis
    by (auto intro!: bit_word_eqI simp: bit_ucast_iff bit_take_bit_iff)
qed

lemmas mac_word_bits = bit_push_bit_iff bit_ucast_iff bit_or_iff bit_drop_bit_eq

lemma bit_u8_lt: "bit w n \<Longrightarrow> n < 8" for w :: u8
  using bit_imp_le_length [of w n] by simp

lemma mac_msw_bytes:
  "(ucast (drop_bit 24 (mac_msw m)) :: u8) = m 0" "(ucast (drop_bit 16 (mac_msw m)) :: u8) = m 1"
  "(ucast (drop_bit 8 (mac_msw m)) :: u8) = m 2" "(ucast (mac_msw m) :: u8) = m 3"
  by (intro bit_word_eqI; auto simp: mac_msw_def mac_word_bits dest: bit_u8_lt)+

lemma mac_lsw_bytes:
  "(ucast (drop_bit 24 (mac_lsw m)) :: u8) = m 4" "(ucast (drop_bit 16 (mac_lsw m)) :: u8) = m 5"
  by (intro bit_word_eqI; auto simp: mac_lsw_def mac_word_bits dest: bit_u8_lt)+

text \<open>Entry registers lie between \<open>CAMEN\<close> and \<open>TXDSA\<close>, and those of different entries differ.\<close>

lemma cam_addr:
  assumes "i < 16"
  shows "unat (CAM0M + of_nat (i * 8) :: u32) = 8 + i * 8"
    "unat (CAM0L + of_nat (i * 8) :: u32) = 12 + i * 8"
  using assms by (simp_all add: unat_word_ariths unat_of_nat take_bit_eq_mod)

lemma cam_addr_neq:
  assumes "i < 16" "j < 16"
  shows "(CAM0M + of_nat (i * 8) = (CAM0M + of_nat (j * 8) :: u32)) = (i = j)"
    "(CAM0L + of_nat (i * 8) = (CAM0L + of_nat (j * 8) :: u32)) = (i = j)"
    "CAM0M + of_nat (i * 8) \<noteq> (CAM0L + of_nat (j * 8) :: u32)"
proof -
  have ne: "8 + i * 8 \<noteq> 12 + j * 8" and inj: "a + i * 8 = a + j * 8 \<longleftrightarrow> i = j" for a
    by presburger simp
  show "CAM0M + of_nat (i * 8) \<noteq> (CAM0L + of_nat (j * 8) :: u32)"
    using cam_addr(1) [OF assms(1)] cam_addr(2) [OF assms(2)] ne by metis
  show "(CAM0M + of_nat (i * 8) = (CAM0M + of_nat (j * 8) :: u32)) = (i = j)"
    using cam_addr(1) [OF assms(1)] cam_addr(1) [OF assms(2)] inj by metis
  show "(CAM0L + of_nat (i * 8) = (CAM0L + of_nat (j * 8) :: u32)) = (i = j)"
    using cam_addr(2) [OF assms(1)] cam_addr(2) [OF assms(2)] inj by metis
qed

lemma cam_addr_range:
  assumes "i < 16" "unat r < 8 \<or> unat r > 132"
  shows "CAM0M + of_nat (i * 8) \<noteq> r" "CAM0L + of_nat (i * 8) \<noteq> r"
  using assms cam_addr [OF assms(1)] by auto

lemma enable_cam_regs:
  assumes "i < 16"
  shows "regs (EMAC_EnableCamEntry (of_nat i) p s) r =
    (if r = CAM0M + of_nat (i * 8) then mac_msw (pu8 s p)
     else if r = CAM0L + of_nat (i * 8) then mac_lsw (pu8 s p)
     else if r = CAMEN then regs s CAMEN OR push_bit i 1 else regs s r)"
proof -
  have e: "of_nat i * 2 * 4 = (of_nat (i * 8) :: u32)" by simp
  have u: "unat (of_nat i :: u32) = i" using assms by (simp add: unat_of_nat take_bit_eq_mod)
  note ne = cam_addr_range [OF assms]
  have plain: "\<not> emac_ro (CAM0M + of_nat (i * 8))" "CAM0M + of_nat (i * 8) \<noteq> INTSTS"
    "CAM0M + of_nat (i * 8) \<noteq> CAMEN" "\<not> emac_ro (CAM0L + of_nat (i * 8))"
    "CAM0L + of_nat (i * 8) \<noteq> INTSTS" "CAM0L + of_nat (i * 8) \<noteq> CAMEN"
    unfolding emac_ro_def by (auto simp del: of_nat_mult simp: ne)
  show ?thesis
    unfolding EMAC_EnableCamEntry_def Let_def e u
    using plain cam_addr_neq(3) [OF assms assms]
    by (auto simp: emac_or_def emac_wr_def emac_rd_def emac_ro_def simp del: of_nat_mult)
qed

lemma enable_cam_mac:
  assumes "i < 16"
  shows "cam_mac i (EMAC_EnableCamEntry (of_nat i) p s) = map (pu8 s p) [0..<6]"
  using cam_addr_neq(3) [OF assms assms]
  by (auto simp: cam_mac_def cam_m_def cam_l_def emac_rd_def enable_cam_regs [OF assms] nth_upt_6
      ucast_and_ff mac_msw_bytes mac_lsw_bytes simp del: of_nat_mult)

lemma enable_cam_other:
  assumes "i < 16" "j < 16" "j \<noteq> i"
  shows "cam_m j (EMAC_EnableCamEntry (of_nat i) p s) = cam_m j s"
    "cam_l j (EMAC_EnableCamEntry (of_nat i) p s) = cam_l j s"
  using assms cam_addr_neq [OF assms(2,1)] cam_addr_neq(3) [OF assms(1,2)]
    cam_addr_range [OF assms(2), of CAMEN]
  by (auto simp: cam_m_def cam_l_def emac_rd_def enable_cam_regs simp del: of_nat_mult)

lemma enable_cam_enabled:
  assumes "i < 16"
  shows "bit (regs (EMAC_EnableCamEntry (of_nat i) p s) CAMEN) n = (n = i \<or> bit (regs s CAMEN) n)"
  using assms cam_addr_range [OF assms, of CAMEN]
  by (auto simp: enable_cam_regs bit_exp_iff simp del: of_nat_mult)

section \<open>The scan for a free entry\<close>

lemma fill_cam_scan_spec:
  "fill_cam_scan p s i = (f, k) \<Longrightarrow> i \<le> 16 \<Longrightarrow>
    i \<le> k \<and> k \<le> 16 \<and>
    (f \<longrightarrow> k < 16 \<and> cam_mac k s = map (pu8 s p) [0..<6]) \<and>
    (\<not> f \<longrightarrow> k < 16 \<longrightarrow> cam_m k s = 0 \<and> cam_l k s = 0) \<and>
    (\<forall>j. i \<le> j \<and> (if f then j < k else j \<le> k \<and> j < 16) \<longrightarrow> cam_mac j s \<noteq> map (pu8 s p) [0..<6]) \<and>
    (\<forall>j. i \<le> j \<and> j < k \<longrightarrow> cam_m j s \<noteq> 0 \<or> cam_l j s \<noteq> 0)"
proof (induction p s i rule: fill_cam_scan.induct)
  case (1 p s i)
  show ?case
  proof (cases "i < 16 \<and> cam_mac i s \<noteq> map (pu8 s p) [0..<6] \<and> (cam_m i s \<noteq> 0 \<or> cam_l i s \<noteq> 0)")
    case True
    then have "fill_cam_scan p s (i + 1) = (f, k)"
      using 1(2) unfolding fill_cam_scan.simps [of p s i]
      by (auto simp: EMAC_CAMENTRY_NB_def)
    note ih = 1(1) [OF _ _ _ this]
    have split: "i \<le> j \<longleftrightarrow> j = i \<or> i + 1 \<le> j" for j by auto
    show ?thesis
      using ih True unfolding split by (auto simp: EMAC_CAMENTRY_NB_def)
  next
    case False
    then show ?thesis
      using 1(2,3) unfolding fill_cam_scan.simps [of p s i]
      by (auto simp: EMAC_CAMENTRY_NB_def split: if_splits)
  qed
qed

text \<open>
  C39. \<open>EMAC_FillCamEntry\<close> either fails with \<open>-1\<close>, leaving the state alone, because all sixteen
  entries are in use by other addresses, or returns an index below sixteen whose entry holds the
  given address afterwards, with every other entry unchanged. Two cases lead there: the address
  was already in that entry and nothing changes, or it was in no entry up to it and the first
  empty entry was filled and enabled.
\<close>

theorem fill_cam_entry_correct:
  "case EMAC_FillCamEntry p s of (ret, s') \<Rightarrow>
    let mac = map (pu8 s p) [0..<6]; used = (\<lambda>j. cam_m j s \<noteq> 0 \<or> cam_l j s \<noteq> 0) in
    if ret = -1 then s' = s \<and> (\<forall>j < 16. used j \<and> cam_mac j s \<noteq> mac)
    else \<exists>i < 16. ret = int i \<and> cam_mac i s' = mac \<and>
      (\<forall>j < 16. j \<noteq> i \<longrightarrow> cam_m j s' = cam_m j s \<and> cam_l j s' = cam_l j s) \<and>
      (cam_mac i s = mac \<and> s' = s \<or>
       \<not> used i \<and> (\<forall>j \<le> i. cam_mac j s \<noteq> mac) \<and> (\<forall>j < i. used j) \<and>
       (\<forall>n. bit (regs s' CAMEN) n = (n = i \<or> bit (regs s CAMEN) n)))"
proof -
  obtain f k where scan: "fill_cam_scan p s 0 = (f, k)" by force
  note spec = fill_cam_scan_spec [OF scan, simplified]
  show ?thesis
  proof (cases "\<not> f \<and> k < 16")
    case True
    then show ?thesis
      using spec enable_cam_mac [of k p s] enable_cam_other [of k _ p s]
        enable_cam_enabled [of k p s]
      by (auto simp: EMAC_FillCamEntry_def scan EMAC_CAMENTRY_NB_def Let_def)
  next
    case False
    then show ?thesis
      using spec by (auto simp: EMAC_FillCamEntry_def scan EMAC_CAMENTRY_NB_def Let_def)
  qed
qed

theorem fill_cam_entry_correct_witness:
  "let s = (emac_boot 192000000)\<lparr>mem := (\<lambda>_. 0x5a)\<rparr> in
    fst (EMAC_FillCamEntry 0x20000000 s) \<noteq> -1 \<and>
    cam_mac (nat (fst (EMAC_FillCamEntry 0x20000000 s))) (snd (EMAC_FillCamEntry 0x20000000 s))
      = replicate 6 0x5a"
proof -
  define s where "s = (emac_boot 192000000)\<lparr>mem := (\<lambda>_. 0x5a)\<rparr>"
  have "cam_m 0 s = 0" "cam_l 0 s = 0" and mac: "map (pu8 s 0x20000000) [0..<6] = replicate 6 0x5a"
    by (simp_all add: s_def emac_boot_def cam_m_def cam_l_def emac_rd_def pu8_def nth_upt_6
        numeral_eq_Suc)
  then show ?thesis
    using fill_cam_entry_correct [of s "0x20000000"] unfolding s_def [symmetric]
    by (auto simp: Let_def split: prod.splits if_splits)
qed

text \<open>
  An address whose entry was disabled is not enabled again: when an entry holds the address,
  \<open>EMAC_FillCamEntry\<close> reports success and leaves every enable bit as it was.
\<close>

theorem fill_cam_entry_keeps_disabled:
  assumes "i < 16" "cam_mac i s = map (pu8 s p) [0..<6]"
    and "\<And>j. j < i \<Longrightarrow> cam_m j s \<noteq> 0 \<or> cam_l j s \<noteq> 0"
    and "\<not> bit (regs s CAMEN) i"
    and "\<And>j. j < i \<Longrightarrow> cam_mac j s \<noteq> map (pu8 s p) [0..<6]"
  shows "EMAC_FillCamEntry p s = (int i, s) \<and>
    \<not> bit (regs (snd (EMAC_FillCamEntry p s)) CAMEN) i"
proof -
  obtain f k where scan: "fill_cam_scan p s 0 = (f, k)" by force
  note spec = fill_cam_scan_spec [OF scan, simplified]
  have "f \<and> k = i"
    using spec assms by (metis (full_types) linorder_neqE_nat order_less_imp_le le_eq_less_or_eq)
  then show ?thesis
    using assms(4) by (simp add: EMAC_FillCamEntry_def scan)
qed

definition cam_example :: emac where
  "cam_example = EMAC_DisableCamEntry 0
    (EMAC_SetMacAddr 0x20000000 ((emac_boot 192000000)\<lparr>mem := (\<lambda>_. 0x5a)\<rparr>))"

theorem fill_cam_entry_keeps_disabled_witness:
  "EMAC_FillCamEntry 0x20000000 cam_example = (0, cam_example)"
proof -
  have e: "EMAC_SetMacAddr p s = EMAC_EnableCamEntry (of_nat 0) p s" for p s
    by (simp add: EMAC_SetMacAddr_def)
  have "cam_mac 0 cam_example = map (pu8 cam_example 0x20000000) [0..<6]"
    "\<not> bit (regs cam_example CAMEN) 0"
    by (simp_all add: cam_example_def EMAC_DisableCamEntry_def e cam_mac_def cam_m_def cam_l_def
        emac_defs enable_cam_regs emac_boot_def nth_upt_6 ucast_and_ff mac_msw_bytes mac_lsw_bytes
        pu8_def EMAC_EnableCamEntry_def bit_1_iff)
  then show ?thesis
    using fill_cam_entry_keeps_disabled [of 0 cam_example "0x20000000"] by simp
qed

end
