(* ===== verification/Emac_Phy.thy ===== *)
theory Emac_Phy
  imports Emac_Regs
begin

text \<open>
  The MDIO transfers of \<open>emac.c\<close> and what is built on them: \<open>EMAC_PhyInit\<close>, \<open>EMAC_CheckLinkStatus\<close>,
  and the software reset of \<open>EMAC_Close\<close>. The PHY chip and the self-clearing bits are hardware, so
  they are a parameter: when the \<open>n\<close>-th poll finds a bit still set, and what the \<open>n\<close>-th MDIO read
  transfer of a register returns. The polling loops decrement an unsigned counter before testing
  it, so a counter that starts at zero wraps around; their termination measure follows the wrap.
\<close>

record emac_hw =
  mdio_busy :: "nat \<Rightarrow> bool"
  rst_busy :: "nat \<Rightarrow> bool"
  rst_regs :: "(u32 \<Rightarrow> u32) \<Rightarrow> u32 \<Rightarrow> u32"
  phy_data :: "nat \<Rightarrow> u32 \<Rightarrow> u32 \<Rightarrow> u32"

section \<open>MDIO transfers\<close>

text \<open>One read of \<open>EMAC->MIIMCTL\<close> while a transfer runs: the hardware may have cleared \<open>BUSY\<close>.\<close>

definition poll_MIIMCTL :: "emac_hw \<Rightarrow> emac \<Rightarrow> u32 \<times> emac" where
  "poll_MIIMCTL hw s =
    (let v = (if mdio_busy hw (polls s) then regs s MIIMCTL
              else regs s MIIMCTL AND NOT EMAC_MIIMCTL_BUSY_Msk)
     in (v, s\<lparr>regs := (regs s)(MIIMCTL := v), polls := polls s + 1\<rparr>))"

lemma word_pred_less: "d \<noteq> 1 \<Longrightarrow> unat (d - 2) < unat (d - 1)" for d :: u32
  using unat_minus_one [of "d - 1"] by (auto simp: unat_gt_0)

text \<open>\<open>while ((EMAC->MIIMCTL & EMAC_MIIMCTL_BUSY_Msk) && (--u32Delay)) {}\<close>\<close>

function mdio_wait :: "emac_hw \<Rightarrow> u32 \<Rightarrow> emac \<Rightarrow> u32 \<times> emac" where
  "mdio_wait hw u32Delay s =
    (let (v, s1) = poll_MIIMCTL hw s in
     if v AND EMAC_MIIMCTL_BUSY_Msk = 0 then (u32Delay, s1)
     else let u32Delay = u32Delay - 1 in
          if u32Delay = 0 then (u32Delay, s1) else mdio_wait hw u32Delay s1)"
  by pat_completeness auto

termination
  by (relation "measure (\<lambda>(hw, d, s). unat (d - 1))") (auto simp: word_pred_less)

definition mdio_budget :: "emac \<Rightarrow> u32" where
  "mdio_budget s = SystemCoreClock s div 1000000 * 64"

definition EMAC_MdioWrite :: "emac_hw \<Rightarrow> u32 \<Rightarrow> u32 \<Rightarrow> u32 \<Rightarrow> emac \<Rightarrow> emac" where
  "EMAC_MdioWrite hw u32Reg u32Addr dat s =
    (let u32Delay = mdio_budget s;
         s = emac_wr MIIMDAT dat s;
         s = emac_wr MIIMCTL (u32Reg OR push_bit 8 u32Addr OR EMAC_MIIMCTL_BUSY_Msk
                OR EMAC_MIIMCTL_WRITE_Msk OR EMAC_MIIMCTL_MDCON_Msk) s;
         s = s\<lparr>phy_writes := phy_writes s @ [(u32Reg, u32Addr, dat)]\<rparr>;
         (u32Delay, s) = mdio_wait hw u32Delay s
     in s\<lparr>g_EMAC_i32ErrCode := if u32Delay > 0 then 0 else EMAC_TIMEOUT_ERR\<rparr>)"

definition EMAC_MdioRead :: "emac_hw \<Rightarrow> u32 \<Rightarrow> u32 \<Rightarrow> emac \<Rightarrow> u32 \<times> emac" where
  "EMAC_MdioRead hw u32Reg u32Addr s =
    (let u32Delay = mdio_budget s;
         s = emac_wr MIIMCTL (u32Reg OR push_bit 8 u32Addr OR EMAC_MIIMCTL_BUSY_Msk
                OR EMAC_MIIMCTL_MDCON_Msk) s;
         (u32Delay, s) = mdio_wait hw u32Delay s;
         s = s\<lparr>g_EMAC_i32ErrCode := if u32Delay > 0 then 0 else EMAC_TIMEOUT_ERR\<rparr>;
         s = s\<lparr>regs := (regs s)(MIIMDAT := phy_data hw (reads s) u32Reg u32Addr),
               reads := reads s + 1\<rparr>
     in (emac_rd MIIMDAT s, s))"

section \<open>EMAC\_PhyInit\<close>

text \<open>
  \<open>while (--u32Delay) { u32Reg = EMAC_MdioRead(PHY_CNTL_REG, ..); if ((u32Reg & RESET) == 0) break; }\<close>
\<close>

function phy_reset_wait :: "emac_hw \<Rightarrow> u32 \<Rightarrow> emac \<Rightarrow> u32 \<times> emac" where
  "phy_reset_wait hw u32Delay s =
    (let u32Delay = u32Delay - 1 in
     if u32Delay = 0 then (0, s)
     else let (u32Reg, s) = EMAC_MdioRead hw PHY_CNTL_REG EMAC_PHY_ADDR s in
          if u32Reg AND PHY_CNTL_RESET_PHY = 0 then (u32Delay, s)
          else phy_reset_wait hw u32Delay s)"
  by pat_completeness auto

termination
  by (relation "measure (\<lambda>(hw, d, s). unat (d - 1))") (auto simp: word_pred_less)

text \<open>
  \<open>while (!(EMAC_MdioRead(PHY_STATUS_REG, ..) & mask)) { if (--u32Delay == 0) goto error; }\<close>,
  returning whether the error exit was avoided.
\<close>

function phy_status_wait :: "emac_hw \<Rightarrow> u32 \<Rightarrow> u32 \<Rightarrow> emac \<Rightarrow> bool \<times> emac" where
  "phy_status_wait hw u32Msk u32Delay s =
    (let (v, s) = EMAC_MdioRead hw PHY_STATUS_REG EMAC_PHY_ADDR s in
     if v AND u32Msk \<noteq> 0 then (True, s)
     else let u32Delay = u32Delay - 1 in
          if u32Delay = 0 then (False, s) else phy_status_wait hw u32Msk u32Delay s)"
  by pat_completeness auto

termination
  by (relation "measure (\<lambda>(hw, u32Msk, d, s). unat (d - 1))") (auto simp: word_pred_less)

declare mdio_wait.simps [simp del] phy_reset_wait.simps [simp del] phy_status_wait.simps [simp del]

text \<open>The cascade on the link partner's abilities, shared by \<open>EMAC_PhyInit\<close> and \<open>EMAC_CheckLinkStatus\<close>.\<close>

definition set_link_mode :: "u32 \<Rightarrow> emac \<Rightarrow> u32 \<times> emac" where
  "set_link_mode reg s =
    (if reg AND PHY_ANLPA_DR100_TX_FULL \<noteq> 0 then
       (EMAC_LINK_100F, emac_or CTL EMAC_CTL_FUDUP_Msk (emac_or CTL EMAC_CTL_OPMODE_Msk s))
     else if reg AND PHY_ANLPA_DR100_TX_HALF \<noteq> 0 then
       (EMAC_LINK_100H, emac_and CTL (NOT EMAC_CTL_FUDUP_Msk) (emac_or CTL EMAC_CTL_OPMODE_Msk s))
     else if reg AND PHY_ANLPA_DR10_TX_FULL \<noteq> 0 then
       (EMAC_LINK_10F, emac_or CTL EMAC_CTL_FUDUP_Msk (emac_and CTL (NOT EMAC_CTL_OPMODE_Msk) s))
     else
       (EMAC_LINK_10H,
        emac_and CTL (NOT EMAC_CTL_FUDUP_Msk) (emac_and CTL (NOT EMAC_CTL_OPMODE_Msk) s)))"

definition phy_error :: "emac \<Rightarrow> int \<times> emac" where
  "phy_error s =
    (EMAC_TIMEOUT_ERR,
     emac_and CTL (NOT EMAC_CTL_FUDUP_Msk) (emac_and CTL (NOT EMAC_CTL_OPMODE_Msk) s))"

definition EMAC_PhyInit :: "emac_hw \<Rightarrow> emac \<Rightarrow> int \<times> emac" where
  "EMAC_PhyInit hw s =
    (let s = s\<lparr>g_EMAC_i32ErrCode := 0\<rparr>;
         s = EMAC_MdioWrite hw PHY_CNTL_REG EMAC_PHY_ADDR PHY_CNTL_RESET_PHY s;
         (u32Delay, s) = phy_reset_wait hw (SystemCoreClock s div 10) s
     in if u32Delay = 0 then phy_error s else
     let (ok, s) = phy_status_wait hw PHY_STATUS_LINK_VALID (SystemCoreClock s) s
     in if \<not> ok then phy_error s else
     let s = EMAC_MdioWrite hw PHY_ANA_REG EMAC_PHY_ADDR
               (PHY_ANA_DR100_TX_FULL OR PHY_ANA_DR100_TX_HALF OR PHY_ANA_DR10_TX_FULL
                OR PHY_ANA_DR10_TX_HALF OR PHY_ANA_IEEE_802_3_CSMA_CD) s;
         (v, s) = EMAC_MdioRead hw PHY_CNTL_REG EMAC_PHY_ADDR s;
         s = EMAC_MdioWrite hw PHY_CNTL_REG EMAC_PHY_ADDR (v OR PHY_CNTL_RESTART_AN) s;
         (ok, s) = phy_status_wait hw PHY_STATUS_AN_COMPLETE (SystemCoreClock s * 2) s
     in if \<not> ok then phy_error s else
     let (ok, s) = phy_status_wait hw PHY_STATUS_LINK_VALID (SystemCoreClock s) s
     in if \<not> ok then phy_error s else
     let (u32Reg, s) = EMAC_MdioRead hw PHY_ANLPA_REG EMAC_PHY_ADDR s
     in (0, snd (set_link_mode u32Reg s)))"

definition EMAC_CheckLinkStatus :: "emac_hw \<Rightarrow> emac \<Rightarrow> u32 \<times> emac" where
  "EMAC_CheckLinkStatus hw s =
    (let (v, s) = EMAC_MdioRead hw PHY_STATUS_REG EMAC_PHY_ADDR s in
     if v AND PHY_STATUS_LINK_VALID \<noteq> 0 then
       let (reg, s) = EMAC_MdioRead hw PHY_ANLPA_REG EMAC_PHY_ADDR s in set_link_mode reg s
     else (EMAC_LINK_DOWN, s))"

section \<open>EMAC\_Close\<close>

text \<open>
  A poll of \<open>CTL\<close> after \<open>RST\<close> was written: while the reset runs the register keeps its value; when it
  is over the whole register file has the values \<open>rst_regs\<close>, with \<open>RST\<close> cleared.
\<close>

definition poll_RST :: "emac_hw \<Rightarrow> emac \<Rightarrow> u32 \<times> emac" where
  "poll_RST hw s =
    (if rst_busy hw (polls s) then (regs s CTL, s\<lparr>polls := polls s + 1\<rparr>)
     else let rs = rst_regs hw (regs s); rs = rs(CTL := rs CTL AND NOT EMAC_CTL_RST_Msk)
          in (rs CTL, s\<lparr>regs := rs, polls := polls s + 1\<rparr>))"

function rst_wait :: "emac_hw \<Rightarrow> u32 \<Rightarrow> emac \<Rightarrow> u32 \<times> emac" where
  "rst_wait hw u32Delay s =
    (let (v, s1) = poll_RST hw s in
     if v AND EMAC_CTL_RST_Msk = 0 then (u32Delay, s1)
     else let u32Delay = u32Delay - 1 in
          if u32Delay = 0 then (u32Delay, s1) else rst_wait hw u32Delay s1)"
  by pat_completeness auto

termination
  by (relation "measure (\<lambda>(hw, d, s). unat (d - 1))") (auto simp: word_pred_less)

declare rst_wait.simps [simp del]

definition EMAC_Close :: "emac_hw \<Rightarrow> emac \<Rightarrow> int \<times> emac" where
  "EMAC_Close hw s =
    (let s = emac_or CTL EMAC_CTL_RST_Msk s;
         (u32Delay, s) = rst_wait hw 10 s
     in (if u32Delay > 0 then 0 else EMAC_TIMEOUT_ERR, s))"

section \<open>What an MDIO transfer leaves alone\<close>

text \<open>
  An MDIO transfer changes the two MII management registers, the error code and the hardware
  counters, and nothing else of the driver's state.
\<close>

definition mdio_frame :: "emac \<Rightarrow> emac \<Rightarrow> bool" where
  "mdio_frame s s' \<longleftrightarrow>
    (\<forall>r. r \<noteq> MIIMDAT \<longrightarrow> r \<noteq> MIIMCTL \<longrightarrow> regs s' r = regs s r) \<and>
    desc s' = desc s \<and> mem s' = mem s \<and> u32CurrentTxDesc s' = u32CurrentTxDesc s \<and>
    u32NextTxDesc s' = u32NextTxDesc s \<and> u32CurrentRxDesc s' = u32CurrentRxDesc s \<and>
    s_u32EnableTs s' = s_u32EnableTs s \<and> SystemCoreClock s' = SystemCoreClock s"

lemma mdio_frame_refl [simp]: "mdio_frame s s"
  by (simp add: mdio_frame_def)

lemma mdio_frame_trans [trans]: "mdio_frame s t \<Longrightarrow> mdio_frame t u \<Longrightarrow> mdio_frame s u"
  by (simp add: mdio_frame_def)

lemma mdio_frameD:
  assumes "mdio_frame s s'"
  shows "regs s' CTL = regs s CTL" "SystemCoreClock s' = SystemCoreClock s"
  using assms by (simp_all add: mdio_frame_def)

lemma mdio_wait_frame:
  "mdio_wait hw d s = (d', s') \<Longrightarrow>
    mdio_frame s s' \<and> reads s' = reads s \<and> phy_writes s' = phy_writes s"
proof (induction hw d s arbitrary: d' s' rule: mdio_wait.induct)
  case (1 hw d s)
  obtain v s1 where poll: "poll_MIIMCTL hw s = (v, s1)" by force
  then have step: "mdio_frame s s1" "reads s1 = reads s" "phy_writes s1 = phy_writes s"
    by (auto simp: poll_MIIMCTL_def mdio_frame_def Let_def)
  show ?case
  proof (cases "bit v 17 \<and> d \<noteq> 1")
    case True
    then have "mdio_wait hw (d - 1) s1 = (d', s')"
      using 1(2) unfolding mdio_wait.simps [of hw d s] poll by (simp add: Let_def)
    then show ?thesis
      using 1(1) [OF poll [symmetric] refl _ refl] True step by (auto intro: mdio_frame_trans)
  next
    case False
    then show ?thesis
      using 1(2) step unfolding mdio_wait.simps [of hw d s] poll
      by (auto simp: Let_def split: if_splits)
  qed
qed

lemma mdio_write_frame:
  "mdio_frame s (EMAC_MdioWrite hw r a v s)"
  "reads (EMAC_MdioWrite hw r a v s) = reads s"
  "phy_writes (EMAC_MdioWrite hw r a v s) = phy_writes s @ [(r, a, v)]"
  by (auto simp: EMAC_MdioWrite_def Let_def mdio_frame_def split: prod.splits
      dest!: mdio_wait_frame)

lemma mdio_read_frame:
  assumes "EMAC_MdioRead hw r a s = (v, s')"
  shows "mdio_frame s s'" "v = phy_data hw (reads s) r a" "reads s' = reads s + 1"
    "phy_writes s' = phy_writes s"
  using assms
  by (auto simp: EMAC_MdioRead_def Let_def mdio_frame_def emac_rd_def split: prod.splits
      dest!: mdio_wait_frame)

lemma phy_reset_wait_frame:
  "phy_reset_wait hw d s = (d', s') \<Longrightarrow> mdio_frame s s' \<and> phy_writes s' = phy_writes s"
proof (induction hw d s arbitrary: d' s' rule: phy_reset_wait.induct)
  case (1 hw d s)
  obtain v s1 where rd: "EMAC_MdioRead hw PHY_CNTL_REG EMAC_PHY_ADDR s = (v, s1)" by force
  show ?case
  proof (cases "bit v 15 \<and> d \<noteq> 1")
    case True
    then have "phy_reset_wait hw (d - 1) s1 = (d', s')"
      using 1(2) unfolding phy_reset_wait.simps [of hw d s] rd by (simp add: Let_def)
    then show ?thesis
      using 1(1) [OF refl _ rd [symmetric] refl] True mdio_read_frame [OF rd]
      by (auto intro: mdio_frame_trans)
  next
    case False
    then show ?thesis
      using 1(2) mdio_read_frame [OF rd] unfolding phy_reset_wait.simps [of hw d s] rd
      by (auto simp: Let_def split: if_splits)
  qed
qed

lemma phy_status_wait_frame:
  "phy_status_wait hw m d s = (ok, s') \<Longrightarrow> mdio_frame s s' \<and> phy_writes s' = phy_writes s"
proof (induction hw m d s arbitrary: ok s' rule: phy_status_wait.induct)
  case (1 hw m d s)
  obtain v s1 where rd: "EMAC_MdioRead hw PHY_STATUS_REG EMAC_PHY_ADDR s = (v, s1)" by force
  show ?case
  proof (cases "v AND m = 0 \<and> d \<noteq> 1")
    case True
    then have "phy_status_wait hw m (d - 1) s1 = (ok, s')"
      using 1(2) unfolding phy_status_wait.simps [of hw m d s] rd by (simp add: Let_def)
    then show ?thesis
      using 1(1) [OF rd [symmetric] refl _ refl] True mdio_read_frame [OF rd]
      by (auto intro: mdio_frame_trans)
  next
    case False
    then show ?thesis
      using 1(2) mdio_read_frame [OF rd] unfolding phy_status_wait.simps [of hw m d s] rd
      by (auto simp: Let_def split: if_splits)
  qed
qed

section \<open>When a transfer times out\<close>

lemma mdio_wait_timeout:
  "d \<noteq> 0 \<Longrightarrow> (fst (mdio_wait hw d s) = 0) =
    (bit (regs s MIIMCTL) 17 \<and> (\<forall>k < unat d. mdio_busy hw (polls s + k)))"
proof (induction hw d s rule: mdio_wait.induct)
  case (1 hw d s)
  show ?case
  proof (cases "bit (regs s MIIMCTL) 17 \<and> mdio_busy hw (polls s)")
    case False
    then show ?thesis
      using 1(2) unfolding mdio_wait.simps [of hw d s]
      by (auto simp: poll_MIIMCTL_def Let_def unat_gt_0 intro!: exI [of _ 0])
  next
    case True
    define s1 where "s1 = s\<lparr>regs := (regs s)(MIIMCTL := regs s MIIMCTL), polls := polls s + 1\<rparr>"
    have poll: "poll_MIIMCTL hw s = (regs s MIIMCTL, s1)"
      using True by (simp add: poll_MIIMCTL_def s1_def)
    show ?thesis
    proof (cases "d = 1")
      case True
      then show ?thesis
        using \<open>_ \<and> _\<close> unfolding mdio_wait.simps [of hw d s] poll by simp
    next
      case False
      have d: "unat d = Suc (unat (d - 1))"
        using 1(2) by (simp add: unat_minus_one unat_gt_0)
      have all: "(\<forall>k < unat d. mdio_busy hw (polls s + k)) =
          (\<forall>k < unat (d - 1). mdio_busy hw (polls s1 + k))"
        using True unfolding d by (auto simp: s1_def less_Suc_eq_0_disj)
      have "(fst (mdio_wait hw (d - 1) s1) = 0) =
          (bit (regs s1 MIIMCTL) 17 \<and> (\<forall>k < unat (d - 1). mdio_busy hw (polls s1 + k)))"
        using False True by (intro 1(1) [OF poll [symmetric] refl]) (auto simp: s1_def)
      then show ?thesis
        using True False all unfolding mdio_wait.simps [of hw d s] poll
        by (simp add: Let_def s1_def)
    qed
  qed
qed

lemma unat_mdio_budget: "unat (mdio_budget s) = unat (SystemCoreClock s) div 1000000 * 64"
proof -
  have "unat (SystemCoreClock s) < 2 ^ 32"
    using unsigned_less [of "SystemCoreClock s"] by simp
  then have "unat (SystemCoreClock s) div 1000000 * 64 < 2 ^ 32"
    by simp
  then show ?thesis
    by (simp add: mdio_budget_def unat_word_ariths unat_div)
qed

lemma mdio_wait_err:
  assumes "1000000 \<le> unat (SystemCoreClock s)" "bit (regs t MIIMCTL) 17" "polls t = polls s"
  shows "(0 < fst (mdio_wait hw (mdio_budget s) t)) =
    (\<not> (\<forall>k < unat (SystemCoreClock s) div 1000000 * 64. mdio_busy hw (polls s + k)))"
proof -
  have "unat (mdio_budget s) > 0"
    using assms(1) by (simp add: unat_mdio_budget div_greater_zero_iff)
  then have "mdio_budget s \<noteq> 0"
    by (metis less_irrefl unat_0)
  from mdio_wait_timeout [OF this, of hw t] assms show ?thesis
    by (simp add: word_gt_0 unat_mdio_budget)
qed

text \<open>
  C24. A PHY register transfer at a core clock of at least 1 MHz reports \<open>EMAC_TIMEOUT_ERR\<close> exactly
  when the busy bit is still set at each of the 64 polls per megahertz that the loop makes, and
  reports success otherwise; a read returns the data of the transfer.
\<close>

theorem mdio_timeout:
  assumes "1000000 \<le> unat (SystemCoreClock s)"
  shows "let stuck = (\<forall>k < unat (SystemCoreClock s) div 1000000 * 64. mdio_busy hw (polls s + k)) in
      g_EMAC_i32ErrCode (EMAC_MdioWrite hw r a v s) = (if stuck then EMAC_TIMEOUT_ERR else 0) \<and>
      g_EMAC_i32ErrCode (snd (EMAC_MdioRead hw r a s)) = (if stuck then EMAC_TIMEOUT_ERR else 0) \<and>
      fst (EMAC_MdioRead hw r a s) = phy_data hw (reads s) r a"
proof -
  have "fst (EMAC_MdioRead hw r a s) = phy_data hw (reads s) r a"
    by (metis mdio_read_frame(2) prod.collapse)
  then show ?thesis
    by (auto simp: EMAC_MdioWrite_def EMAC_MdioRead_def Let_def case_prod_beta emac_ro_def
        mdio_wait_err [OF assms])
qed

definition phy_up :: emac_hw where
  "phy_up = \<lparr>mdio_busy = (\<lambda>n. n < 3), rst_busy = (\<lambda>_. False), rst_regs = (\<lambda>f. f),
    phy_data = (\<lambda>n r a. if r = PHY_ANLPA_REG then 0x01e1 else if n < 2 then 0x8000
      else if r = PHY_CNTL_REG then 0x3100 else 0x782d)\<rparr>"

theorem mdio_timeout_witness:
  "g_EMAC_i32ErrCode (EMAC_MdioWrite phy_up 4 1 0x1e1 (emac_boot 192000000)) = 0 \<and>
   fst (EMAC_MdioRead phy_up 5 1 (emac_boot 192000000)) = 0x01e1"
  using mdio_timeout [of "emac_boot 192000000" phy_up 4 1 "0x1e1"]
    mdio_timeout [of "emac_boot 192000000" phy_up 5 1 0]
  by (auto simp: Let_def emac_boot_def phy_up_def phy_reg_defs split: if_splits dest: spec [of _ 3])

section \<open>EMAC\_PhyInit and EMAC\_CheckLinkStatus\<close>

text \<open>A waiting loop avoids its error exit when the PHY answers within the loop's budget.\<close>

lemma phy_status_wait_ok:
  "d \<noteq> 0 \<Longrightarrow> k < unat d \<Longrightarrow>
    phy_data hw (reads s + k) PHY_STATUS_REG EMAC_PHY_ADDR AND m \<noteq> 0 \<Longrightarrow>
    fst (phy_status_wait hw m d s)"
proof (induction hw m d s arbitrary: k rule: phy_status_wait.induct)
  case (1 hw m d s)
  obtain v s1 where rd: "EMAC_MdioRead hw PHY_STATUS_REG EMAC_PHY_ADDR s = (v, s1)" by force
  note v = mdio_read_frame [OF rd]
  show ?case
  proof (cases "v AND m = 0")
    case True
    then obtain j where k: "k = Suc j" using 1(4) v by (cases k) auto
    then have d: "d \<noteq> 1" using 1(3) by auto
    have "fst (phy_status_wait hw m (d - 1) s1)"
      using True d 1(2-4) v k
      by (intro 1(1) [OF rd [symmetric] refl _ refl]) (auto simp: unat_minus_one)
    then show ?thesis
      using True d unfolding phy_status_wait.simps [of hw m d s] rd by (simp add: Let_def)
  next
    case False
    then show ?thesis unfolding phy_status_wait.simps [of hw m d s] rd by simp
  qed
qed

lemma phy_reset_wait_ok:
  "d \<noteq> 0 \<Longrightarrow> Suc k < unat d \<Longrightarrow>
    \<not> bit (phy_data hw (reads s + k) PHY_CNTL_REG EMAC_PHY_ADDR) 15 \<Longrightarrow>
    fst (phy_reset_wait hw d s) \<noteq> 0"
proof (induction hw d s arbitrary: k rule: phy_reset_wait.induct)
  case (1 hw d s)
  obtain v s1 where rd: "EMAC_MdioRead hw PHY_CNTL_REG EMAC_PHY_ADDR s = (v, s1)" by force
  note v = mdio_read_frame [OF rd]
  have d: "d \<noteq> 1" using 1(3) by auto
  show ?case
  proof (cases "bit v 15")
    case True
    then obtain j where k: "k = Suc j" using 1(4) v by (cases k) auto
    have "fst (phy_reset_wait hw (d - 1) s1) \<noteq> 0"
      using True d 1(2-4) v k
      by (intro 1(1) [OF refl _ rd [symmetric] refl]) (auto simp: unat_minus_one)
    then show ?thesis
      using True d unfolding phy_reset_wait.simps [of hw d s] rd by (simp add: Let_def)
  next
    case False
    then show ?thesis
      using d unfolding phy_reset_wait.simps [of hw d s] rd by (simp add: Let_def)
  qed
qed

text \<open>What the link-mode cascade does to \<open>CTL\<close>: speed and duplex follow the partner's abilities.\<close>

lemma set_link_mode_ctl:
  "bit (regs (snd (set_link_mode p s)) CTL) n =
    (if n = 20 then bit p 8 \<or> bit p 7
     else if n = 18 then bit p 8 \<or> \<not> bit p 7 \<and> bit p 6
     else bit (regs s CTL) n)"
  by (auto simp: set_link_mode_def emac_defs dest: bit_word_lt)

lemma set_link_mode_other: "r \<noteq> CTL \<Longrightarrow> regs (snd (set_link_mode p s)) r = regs s r"
  by (simp add: set_link_mode_def emac_defs)

lemma set_link_mode_log:
  "phy_writes (snd (set_link_mode p s)) = phy_writes s"
  "reads (snd (set_link_mode p s)) = reads s"
  by (simp_all add: set_link_mode_def emac_or_def emac_and_def)

lemma phy_error_ctl:
  "bit (regs (snd (phy_error s)) CTL) n = (n \<noteq> 20 \<and> n \<noteq> 18 \<and> bit (regs s CTL) n)"
  by (auto simp: phy_error_def emac_defs dest: bit_word_lt)

lemma phy_error_other: "r \<noteq> CTL \<Longrightarrow> regs (snd (phy_error s)) r = regs s r"
  by (simp add: phy_error_def emac_defs)

text \<open>
  The exits of \<open>EMAC_PhyInit\<close>: either the error exit from a state reached by MDIO transfers only,
  or the link mode of the last register read, after the three writes in order.
\<close>

lemma phy_init_exits:
  obtains (error) t where "EMAC_PhyInit hw s = phy_error t" "mdio_frame s t"
  | (ok) t v where "EMAC_PhyInit hw s =
        (0, snd (set_link_mode (phy_data hw (reads t - 1) PHY_ANLPA_REG EMAC_PHY_ADDR) t))"
      "mdio_frame s t" "reads t \<ge> 1"
      "phy_writes t = phy_writes s @
        [(PHY_CNTL_REG, EMAC_PHY_ADDR, PHY_CNTL_RESET_PHY),
         (PHY_ANA_REG, EMAC_PHY_ADDR, 0x1e1),
         (PHY_CNTL_REG, EMAC_PHY_ADDR, v OR PHY_CNTL_RESTART_AN)]"
proof -
  let ?s0 = "s\<lparr>g_EMAC_i32ErrCode := 0\<rparr>"
  have f0: "mdio_frame s ?s0" "phy_writes ?s0 = phy_writes s"
    by (simp_all add: mdio_frame_def)
  define s1 where "s1 = EMAC_MdioWrite hw PHY_CNTL_REG EMAC_PHY_ADDR PHY_CNTL_RESET_PHY ?s0"
  obtain d s2 where s2: "phy_reset_wait hw (SystemCoreClock s1 div 10) s1 = (d, s2)" by force
  obtain ok1 s3 where s3:
    "phy_status_wait hw PHY_STATUS_LINK_VALID (SystemCoreClock s2) s2 = (ok1, s3)" by force
  let ?ana = "PHY_ANA_DR100_TX_FULL OR PHY_ANA_DR100_TX_HALF OR PHY_ANA_DR10_TX_FULL
                OR PHY_ANA_DR10_TX_HALF OR PHY_ANA_IEEE_802_3_CSMA_CD"
  have ana: "?ana = 0x1e1" by (simp add: msk_def)
  define s4 where "s4 = EMAC_MdioWrite hw PHY_ANA_REG EMAC_PHY_ADDR ?ana s3"
  obtain v s5 where s5: "EMAC_MdioRead hw PHY_CNTL_REG EMAC_PHY_ADDR s4 = (v, s5)" by force
  define s6 where "s6 = EMAC_MdioWrite hw PHY_CNTL_REG EMAC_PHY_ADDR (v OR PHY_CNTL_RESTART_AN) s5"
  obtain ok2 s7 where s7:
    "phy_status_wait hw PHY_STATUS_AN_COMPLETE (SystemCoreClock s6 * 2) s6 = (ok2, s7)" by force
  obtain ok3 s8 where s8:
    "phy_status_wait hw PHY_STATUS_LINK_VALID (SystemCoreClock s7) s7 = (ok3, s8)" by force
  obtain p s9 where s9: "EMAC_MdioRead hw PHY_ANLPA_REG EMAC_PHY_ADDR s8 = (p, s9)" by force
  note steps = s1_def [symmetric] s2 s3 s4_def [symmetric] s5 s6_def [symmetric] s7 s8 s9
  have init: "EMAC_PhyInit hw s =
    (if d = 0 then phy_error s2 else if \<not> ok1 then phy_error s3
     else if \<not> ok2 then phy_error s7 else if \<not> ok3 then phy_error s8
     else (0, snd (set_link_mode p s9)))"
    unfolding EMAC_PhyInit_def by (simp only: Let_def prod.case steps)
  have w1: "mdio_frame ?s0 s1" "phy_writes s1 = phy_writes s @ [(PHY_CNTL_REG, EMAC_PHY_ADDR, PHY_CNTL_RESET_PHY)]"
    by (simp_all add: s1_def mdio_write_frame f0)
  have w4: "mdio_frame s3 s4" "phy_writes s4 = phy_writes s3 @ [(PHY_ANA_REG, EMAC_PHY_ADDR, 0x1e1)]"
    by (simp_all add: s4_def mdio_write_frame ana)
  have w6: "mdio_frame s5 s6"
    "phy_writes s6 = phy_writes s5 @ [(PHY_CNTL_REG, EMAC_PHY_ADDR, v OR PHY_CNTL_RESTART_AN)]"
    by (simp_all add: s6_def mdio_write_frame)
  note r2 = phy_reset_wait_frame [OF s2] and r3 = phy_status_wait_frame [OF s3]
    and r5 = mdio_read_frame [OF s5] and r7 = phy_status_wait_frame [OF s7]
    and r8 = phy_status_wait_frame [OF s8] and r9 = mdio_read_frame [OF s9]
  have f2: "mdio_frame s s2" using f0(1) w1(1) r2 by (blast intro: mdio_frame_trans)
  have f3: "mdio_frame s s3" using f2 r3 by (blast intro: mdio_frame_trans)
  have f5: "mdio_frame s s5" using f3 w4(1) r5(1) by (blast intro: mdio_frame_trans)
  have f7: "mdio_frame s s7" using f5 w6(1) r7 by (blast intro: mdio_frame_trans)
  have f8: "mdio_frame s s8" using f7 r8 by (blast intro: mdio_frame_trans)
  have f9: "mdio_frame s s9" using f8 r9(1) by (rule mdio_frame_trans)
  show thesis
  proof (cases "d = 0 \<or> \<not> ok1 \<or> \<not> ok2 \<or> \<not> ok3")
    case True
    then show thesis using init f2 f3 f7 f8 error by (auto split: if_splits)
  next
    case False
    have "phy_writes s9 = phy_writes s @
        [(PHY_CNTL_REG, EMAC_PHY_ADDR, PHY_CNTL_RESET_PHY),
         (PHY_ANA_REG, EMAC_PHY_ADDR, 0x1e1),
         (PHY_CNTL_REG, EMAC_PHY_ADDR, v OR PHY_CNTL_RESTART_AN)]"
      using w1 w4 w6 r2 r3 r5 r7 r8 r9 by simp
    then show thesis using ok [of s9 v] init False f9 r9 by simp
  qed
qed

lemma SystemCoreClock_mdio:
  "SystemCoreClock (EMAC_MdioWrite hw r a v s) = SystemCoreClock s"
  using mdio_write_frame(1) mdio_frameD(2) by blast

lemma phy_init_ok:
  assumes up: "\<And>n. N \<le> n \<Longrightarrow>
      \<not> bit (phy_data hw n PHY_CNTL_REG EMAC_PHY_ADDR) 15 \<and>
      bit (phy_data hw n PHY_STATUS_REG EMAC_PHY_ADDR) 2 \<and>
      bit (phy_data hw n PHY_STATUS_REG EMAC_PHY_ADDR) 5"
    and budget: "Suc N < unat (SystemCoreClock s) div 10"
    and clock: "2 * unat (SystemCoreClock s) < 2 ^ 32"
  shows "fst (EMAC_PhyInit hw s) = 0"
proof -
  have "unat (SystemCoreClock s div 10) = unat (SystemCoreClock s) div 10"
    by (simp add: unat_div)
  then have d10: "Suc N < unat (SystemCoreClock s div 10)" "SystemCoreClock s div 10 \<noteq> 0"
    using budget by (auto dest!: arg_cong [of _ _ unat])
  have rst: "fst (phy_reset_wait hw (SystemCoreClock s div 10) t) \<noteq> 0" for t
    using up [of "reads t + N"] budget d10
    by (intro phy_reset_wait_ok [of _ N]) auto
  have c: "unat (SystemCoreClock s * 2) = unat (SystemCoreClock s) * 2"
    using clock by (simp add: unat_word_ariths)
  have big: "N < unat (SystemCoreClock s)" using budget by simp
  then have nz: "SystemCoreClock s \<noteq> 0" "SystemCoreClock s * 2 \<noteq> 0"
    using c by (auto simp: unat_eq_zero [symmetric])
  have link: "fst (phy_status_wait hw (msk 2) (SystemCoreClock s) t)" for t
    using up [of "reads t + N"] big nz by (intro phy_status_wait_ok [of _ N]) auto
  have an: "fst (phy_status_wait hw (msk 5) (SystemCoreClock s * 2) t)" for t
    using up [of "reads t + N"] big nz c by (intro phy_status_wait_ok [of _ N]) auto
  have clk: "SystemCoreClock (snd (phy_reset_wait hw d t)) = SystemCoreClock t"
    "SystemCoreClock (snd (phy_status_wait hw m d t)) = SystemCoreClock t"
    "SystemCoreClock (snd (EMAC_MdioRead hw r a t)) = SystemCoreClock t" for m d r a t
    by (metis mdio_frameD(2) phy_reset_wait_frame phy_status_wait_frame mdio_read_frame(1)
        prod.collapse)+
  show ?thesis
    unfolding EMAC_PhyInit_def Let_def case_prod_beta
    by (simp add: clk SystemCoreClock_mdio rst link an)
qed

text \<open>
  C22. \<open>EMAC_PhyInit\<close> returns zero or the timeout error. In every case it changes no register but
  the two MII ones and the speed and duplex bits of \<open>CTL\<close>. On a timeout both bits are cleared. On
  success speed and duplex are those of the best ability in the link partner register it read
  last, and the PHY received exactly three writes: reset, the advertised abilities, and the
  restart of auto-negotiation.
\<close>

theorem phy_init_result:
  "case EMAC_PhyInit hw s of (ret, s') \<Rightarrow>
     (ret = 0 \<or> ret = EMAC_TIMEOUT_ERR) \<and>
     (\<forall>r. r \<notin> {MIIMDAT, MIIMCTL, CTL} \<longrightarrow> regs s' r = regs s r) \<and>
     (\<forall>n. n \<noteq> 18 \<longrightarrow> n \<noteq> 20 \<longrightarrow> bit (regs s' CTL) n = bit (regs s CTL) n) \<and>
     (ret \<noteq> 0 \<longrightarrow> \<not> bit (regs s' CTL) 18 \<and> \<not> bit (regs s' CTL) 20) \<and>
     (ret = 0 \<longrightarrow>
       (let p = phy_data hw (reads s' - 1) PHY_ANLPA_REG EMAC_PHY_ADDR in
          bit (regs s' CTL) 20 = (bit p 8 \<or> bit p 7) \<and>
          bit (regs s' CTL) 18 = (bit p 8 \<or> \<not> bit p 7 \<and> bit p 6)) \<and>
       (\<exists>v. phy_writes s' = phy_writes s @
          [(PHY_CNTL_REG, EMAC_PHY_ADDR, PHY_CNTL_RESET_PHY),
           (PHY_ANA_REG, EMAC_PHY_ADDR, 0x1e1),
           (PHY_CNTL_REG, EMAC_PHY_ADDR, v OR PHY_CNTL_RESTART_AN)]))"
proof (cases rule: phy_init_exits [of hw s])
  case (error t)
  then show ?thesis
    using mdio_frameD(1) [OF error(2)] phy_error_other [of _ t] phy_error_ctl [of t]
    by (auto simp: mdio_frame_def phy_error_def EMAC_TIMEOUT_ERR_def)
next
  case (ok t v)
  then show ?thesis
    using mdio_frameD(1) [OF ok(2)] set_link_mode_other [of _ _ t]
    by (auto simp: mdio_frame_def set_link_mode_ctl set_link_mode_log Let_def)
qed

theorem phy_init_result_witness:
  "bit (regs (snd (EMAC_PhyInit phy_up (emac_boot 192000000))) CTL) 20 \<and>
   bit (regs (snd (EMAC_PhyInit phy_up (emac_boot 192000000))) CTL) 18 \<and>
   regs (snd (EMAC_PhyInit phy_up (emac_boot 192000000))) INTEN = 0"
proof -
  have "fst (EMAC_PhyInit phy_up (emac_boot 192000000)) = 0"
    by (rule phy_init_ok [of 2])
       (simp_all add: phy_up_def emac_boot_def phy_reg_defs bit_numeral_rec)
  moreover have "bit (phy_data phy_up n PHY_ANLPA_REG EMAC_PHY_ADDR) 8" for n
    by (simp add: phy_up_def phy_reg_defs bit_numeral_rec)
  ultimately show ?thesis
    using phy_init_result [of "emac_boot 192000000" phy_up]
    by (auto simp: emac_boot_def Let_def split: prod.splits)
qed

text \<open>
  C23. \<open>EMAC_PhyInit\<close> succeeds on a PHY that comes up: if from the \<open>N\<close>-th MDIO read on the reset bit
  reads as zero and link-valid and negotiation-complete read as one, and \<open>N\<close> is below the shortest
  of the loops' budgets (a tenth of the core clock), the call returns zero.
\<close>

theorem phy_init_succeeds:
  assumes up: "\<And>n. N \<le> n \<Longrightarrow>
      \<not> bit (phy_data hw n PHY_CNTL_REG EMAC_PHY_ADDR) 15 \<and>
      bit (phy_data hw n PHY_STATUS_REG EMAC_PHY_ADDR) 2 \<and>
      bit (phy_data hw n PHY_STATUS_REG EMAC_PHY_ADDR) 5"
    and budget: "Suc N < unat (SystemCoreClock s) div 10"
    and clock: "2 * unat (SystemCoreClock s) < 2 ^ 32"
  shows "fst (EMAC_PhyInit hw s) = 0"
  using assms by (rule phy_init_ok)

theorem phy_init_succeeds_witness:
  "fst (EMAC_PhyInit phy_up (emac_boot 192000000)) = 0"
  by (rule phy_init_succeeds [of 2])
     (simp_all add: phy_up_def emac_boot_def phy_reg_defs bit_numeral_rec)

end
