(* ===== verification/Emac_Ring.thy ===== *)
theory Emac_Ring
  imports Emac_Time Emac_Cam Emac_Phy
begin

text \<open>
  The transmit and receive descriptor rings of \<open>emac.c\<close>: initialisation, the send and receive
  operations and their clean-up, \<open>EMAC_Open\<close>, the DMA engine as a rely relation, and the transition
  system that interleaves the two.

  A descriptor belongs to the EMAC when bit 31 of its first status word is set. With time stamps
  enabled the EMAC overwrites the data and next pointers of a descriptor it gives back, which is
  why the driver keeps two backup words.
\<close>

section \<open>Addresses of the static arrays\<close>

text \<open>\<open>&tx_desc[i]\<close>, \<open>&rx_desc[i]\<close> (24 bytes each), \<open>&tx_buf[i]\<close>, \<open>&rx_buf[i]\<close> (1524 bytes each).\<close>

definition desc_addr :: "u32 \<Rightarrow> nat \<Rightarrow> u32" where
  "desc_addr base i = base + of_nat (24 * i)"

definition buf_addr :: "u32 \<Rightarrow> nat \<Rightarrow> u32" where
  "buf_addr base i = base + of_nat (EMAC_MAX_PKT_SIZE * i)"

abbreviation (input) own :: "EMAC_DESCRIPTOR_T \<Rightarrow> bool" where
  "own d \<equiv> bit (u32Status1 d) 31"

section \<open>Initialisation\<close>

definition tx_desc_init :: "emac_layout \<Rightarrow> nat \<Rightarrow> emac \<Rightarrow> emac" where
  "tx_desc_init L i s =
    upd_desc (desc_addr (tx_desc L) i) (\<lambda>d. d\<lparr>
      u32Status1 := (if s_u32EnableTs s \<noteq> 0 then EMAC_TXFD_PADEN OR EMAC_TXFD_CRCAPP OR EMAC_TXFD_INTEN
                     else EMAC_TXFD_PADEN OR EMAC_TXFD_CRCAPP OR EMAC_TXFD_INTEN OR EMAC_TXFD_TTSEN),
      u32Data := buf_addr (tx_buf L) i, u32Backup1 := buf_addr (tx_buf L) i, u32Status2 := 0,
      u32Next := desc_addr (tx_desc L) ((i + 1) mod EMAC_TX_DESC_SIZE),
      u32Backup2 := desc_addr (tx_desc L) ((i + 1) mod EMAC_TX_DESC_SIZE)\<rparr>) s"

definition EMAC_TxDescInit :: "emac_layout \<Rightarrow> emac \<Rightarrow> emac" where
  "EMAC_TxDescInit L s =
    (let s = emac_wr TXDSA (desc_addr (tx_desc L) 0) s;
         s = s\<lparr>u32CurrentTxDesc := desc_addr (tx_desc L) 0, u32NextTxDesc := desc_addr (tx_desc L) 0\<rparr>
     in fold (tx_desc_init L) [0..<EMAC_TX_DESC_SIZE] s)"

definition rx_desc_init :: "emac_layout \<Rightarrow> nat \<Rightarrow> emac \<Rightarrow> emac" where
  "rx_desc_init L i s =
    upd_desc (desc_addr (rx_desc L) i) (\<lambda>d. d\<lparr>
      u32Status1 := EMAC_DESC_OWN_EMAC,
      u32Data := buf_addr (rx_buf L) i, u32Backup1 := buf_addr (rx_buf L) i, u32Status2 := 0,
      u32Next := desc_addr (rx_desc L) ((i + 1) mod EMAC_RX_DESC_SIZE),
      u32Backup2 := desc_addr (rx_desc L) ((i + 1) mod EMAC_RX_DESC_SIZE)\<rparr>) s"

definition EMAC_RxDescInit :: "emac_layout \<Rightarrow> emac \<Rightarrow> emac" where
  "EMAC_RxDescInit L s =
    (let s = emac_wr RXDSA (desc_addr (rx_desc L) 0) s;
         s = s\<lparr>u32CurrentRxDesc := desc_addr (rx_desc L) 0\<rparr>
     in fold (rx_desc_init L) [0..<EMAC_RX_DESC_SIZE] s)"

definition EMAC_Open :: "emac_layout \<Rightarrow> u32 \<Rightarrow> emac \<Rightarrow> emac" where
  "EMAC_Open L pu8MacAddr s =
    (let s = EMAC_TxDescInit L s;
         s = EMAC_RxDescInit L s;
         s = EMAC_SetMacAddr pu8MacAddr s;
         s = emac_wr INTEN (EMAC_INTEN_RXIEN_Msk OR EMAC_INTEN_TXIEN_Msk OR EMAC_INTEN_RXGDIEN_Msk
               OR EMAC_INTEN_TXCPIEN_Msk OR EMAC_INTEN_RXBEIEN_Msk OR EMAC_INTEN_TXBEIEN_Msk
               OR EMAC_INTEN_RDUIEN_Msk OR EMAC_INTEN_TSALMIEN_Msk OR EMAC_INTEN_WOLIEN_Msk) s;
         s = emac_wr CTL (EMAC_CTL_STRIPCRC_Msk OR EMAC_CTL_RMIIEN_Msk) s;
         s = emac_wr CAMCTL (EMAC_CAMCTL_CMPEN_Msk OR EMAC_CAMCTL_AMP_Msk OR EMAC_CAMCTL_ABP_Msk) s
     in emac_wr MRFL (of_nat EMAC_MAX_PKT_SIZE) s)"

section \<open>Receiving\<close>

text \<open>
  \<open>EMAC_RecvPkt\<close> returns its result code, what it stores through \<open>pu32Size\<close> (nothing when no good
  frame is there), and the state.
\<close>

definition EMAC_RecvPkt :: "u32 \<Rightarrow> emac \<Rightarrow> u32 \<times> u32 option \<times> emac" where
  "EMAC_RecvPkt pu8Data s =
    (let reg = emac_rd INTSTS s;
         s = emac_wr INTSTS (reg AND 0xFFFF) s
     in if reg AND EMAC_INTSTS_RXBEIF_Msk \<noteq> 0 then (of_int EMAC_BUS_ERR, None, s)
     else let d = desc s (u32CurrentRxDesc s)
     in if u32Status1 d AND EMAC_DESC_OWN_EMAC \<noteq> EMAC_DESC_OWN_EMAC then
       let status = drop_bit 16 (u32Status1 d)
       in if status AND EMAC_RXFD_RXGD \<noteq> 0 then
            let size = u32Status1 d AND 0xFFFF
            in (1, Some size, s\<lparr>mem := memcpy pu8Data (u32Backup1 d) (unat size) (mem s)\<rparr>)
          else (0, None, s)
     else (0, None, s))"

text \<open>\<open>EMAC_RecvPktTS\<close> stores size, seconds and nanoseconds. Its ownership test is written with \<open>|\<close>.\<close>

definition EMAC_RecvPktTS :: "u32 \<Rightarrow> emac \<Rightarrow> u32 \<times> (u32 \<times> u32 \<times> u32) option \<times> emac" where
  "EMAC_RecvPktTS pu8Data s =
    (let reg = emac_rd INTSTS s;
         s = emac_wr INTSTS (reg AND 0xFFFF) s
     in if reg AND EMAC_INTSTS_RXBEIF_Msk \<noteq> 0 then (of_int EMAC_BUS_ERR, None, s)
     else let d = desc s (u32CurrentRxDesc s)
     in if emac_rd CRXDSA s \<noteq> u32CurrentRxDesc s then
       if u32Status1 d OR EMAC_DESC_OWN_EMAC \<noteq> EMAC_DESC_OWN_EMAC then
         let status = drop_bit 16 (u32Status1 d)
         in if status AND EMAC_RXFD_RXGD \<noteq> 0 then
              let size = u32Status1 d AND 0xFFFF
              in (1, Some (size, u32Next d, EMAC_Subsec2Nsec (u32Data d)),
                  s\<lparr>mem := memcpy pu8Data (u32Backup1 d) (unat size) (mem s)\<rparr>)
            else (0, None, s)
       else (0, None, s)
     else (0, None, s))"

definition EMAC_RecvPktDoneWoRxTrigger :: "emac \<Rightarrow> emac" where
  "EMAC_RecvPktDoneWoRxTrigger s =
    (let a = u32CurrentRxDesc s;
         s = upd_desc a (\<lambda>d. d\<lparr>u32Data := u32Backup1 d, u32Next := u32Backup2 d\<rparr>) s;
         s = upd_desc a (\<lambda>d. d\<lparr>u32Status1 := u32Status1 d OR EMAC_DESC_OWN_EMAC\<rparr>) s;
         a = u32Next (desc s a)
     in s\<lparr>u32CurrentRxDesc := a\<rparr>)"

definition EMAC_RecvPktDone :: "emac \<Rightarrow> emac" where
  "EMAC_RecvPktDone s =
    (let a = u32CurrentRxDesc s;
         s = upd_desc a (\<lambda>d. d\<lparr>u32Data := u32Backup1 d, u32Next := u32Backup2 d\<rparr>) s;
         s = upd_desc a (\<lambda>d. d\<lparr>u32Status1 := u32Status1 d OR EMAC_DESC_OWN_EMAC\<rparr>) s;
         a = u32Next (desc s a);
         s = s\<lparr>u32CurrentRxDesc := a\<rparr>
     in EMAC_TRIGGER_RX s)"

definition EMAC_GetAvailRXBufSize :: "emac \<Rightarrow> u32 \<times> emac" where
  "EMAC_GetAvailRXBufSize s =
    (let d = desc s (u32CurrentRxDesc s)
     in if u32Status1 d AND EMAC_DESC_OWN_EMAC \<noteq> EMAC_DESC_OWN_EMAC then
       let status = drop_bit 16 (u32Status1 d)
       in if status AND EMAC_RXFD_RXGD \<noteq> 0 \<and> \<not> status AND EMAC_RXFD_CRCE \<noteq> 0
          then (u32Status1 d AND 0xFFFF, s)
          else (0, EMAC_RecvPktDone s)
     else (0, s))"

section \<open>Sending\<close>

definition EMAC_SendPkt :: "u32 \<Rightarrow> u32 \<Rightarrow> emac \<Rightarrow> u32 \<times> emac" where
  "EMAC_SendPkt pu8Data u32Size s =
    (let a = u32NextTxDesc s;
         status = u32Status1 (desc s a)
     in if status AND EMAC_DESC_OWN_EMAC \<noteq> EMAC_DESC_OWN_EMAC then
       let s = s\<lparr>mem := memcpy (u32Data (desc s a)) pu8Data (unat u32Size) (mem s)\<rparr>;
           s = upd_desc a (\<lambda>d. d\<lparr>u32Status2 := u32Size\<rparr>) s;
           s = upd_desc a (\<lambda>d. d\<lparr>u32Status1 := u32Status1 d OR EMAC_DESC_OWN_EMAC\<rparr>) s;
           s = s\<lparr>u32NextTxDesc := u32Next (desc s a)\<rparr>
       in (1, EMAC_TRIGGER_TX s)
     else (0, s))"

definition EMAC_SendPktWoCopy :: "u32 \<Rightarrow> emac \<Rightarrow> u32 \<times> emac" where
  "EMAC_SendPktWoCopy u32Size s =
    (let a = u32NextTxDesc s;
         status = u32Status1 (desc s a)
     in if status AND EMAC_DESC_OWN_EMAC \<noteq> EMAC_DESC_OWN_EMAC then
       let s = upd_desc a (\<lambda>d. d\<lparr>u32Status2 := u32Size\<rparr>) s;
           s = upd_desc a (\<lambda>d. d\<lparr>u32Status1 := u32Status1 d OR EMAC_DESC_OWN_EMAC\<rparr>) s;
           s = s\<lparr>u32NextTxDesc := u32Next (desc s a)\<rparr>
       in (1, EMAC_TRIGGER_TX s)
     else (0, s))"

text \<open>\<open>NULL\<close> is the address zero.\<close>

definition EMAC_ClaimFreeTXBuf :: "emac \<Rightarrow> u32" where
  "EMAC_ClaimFreeTXBuf s =
    (let d = desc s (u32NextTxDesc s)
     in if u32Status1 d AND EMAC_DESC_OWN_EMAC \<noteq> 0 then 0 else u32Data d)"

text \<open>
  The \<open>do ... while\<close> loop of \<open>EMAC_SendPktDone\<close>. It follows the links from \<open>u32CurrentTxDesc\<close> until a
  descriptor the EMAC owns or the one the EMAC works on. Nothing in the loop bounds it, so not
  returning is the value \<open>None\<close>.
\<close>

partial_function (option) tx_done_loop ::
  "u32 \<Rightarrow> u32 \<Rightarrow> u32 \<Rightarrow> emac \<Rightarrow> (u32 \<times> u32 \<times> emac) option" where
  "tx_done_loop last_tx_desc a u32Count s =
    (if u32Status1 (desc s a) AND EMAC_DESC_OWN_EMAC \<noteq> 0 then Some (u32Count, a, s)
     else let status = drop_bit 16 (u32Status2 (desc s a));
              u32Count = (if status AND EMAC_TXFD_TXCP \<noteq> 0 then u32Count + 1 else u32Count);
              s = upd_desc a (\<lambda>d. d\<lparr>u32Data := u32Backup1 d, u32Next := u32Backup2 d\<rparr>) s;
              a = u32Next (desc s a)
          in if last_tx_desc \<noteq> a then tx_done_loop last_tx_desc a u32Count s
             else Some (u32Count, a, s))"

definition EMAC_SendPktDone :: "emac \<Rightarrow> (u32 \<times> emac) option" where
  "EMAC_SendPktDone s =
    (let reg = emac_rd INTSTS s;
         s = emac_wr INTSTS (reg AND (0xFFFF0000 AND NOT EMAC_INTSTS_TSALMIF_Msk)) s
     in if reg AND EMAC_INTSTS_TXBEIF_Msk \<noteq> 0 then Some (of_int EMAC_BUS_ERR, s)
     else case tx_done_loop (emac_rd CTXDSA s) (u32CurrentTxDesc s) 0 s of
            None \<Rightarrow> None
          | Some (u32Count, a, s) \<Rightarrow> Some (u32Count, s\<lparr>u32CurrentTxDesc := a\<rparr>))"

definition EMAC_SendPktDoneTS :: "emac \<Rightarrow> u32 \<times> (u32 \<times> u32) option \<times> emac" where
  "EMAC_SendPktDoneTS s =
    (let reg = emac_rd INTSTS s;
         s = emac_wr INTSTS (reg AND (0xFFFF0000 AND NOT EMAC_INTSTS_TSALMIF_Msk)) s
     in if reg AND EMAC_INTSTS_TXBEIF_Msk \<noteq> 0 then (of_int EMAC_BUS_ERR, None, s)
     else let a = u32CurrentTxDesc s; d = desc s a
     in if u32Status1 d AND EMAC_DESC_OWN_EMAC \<noteq> EMAC_DESC_OWN_EMAC then
       let status = drop_bit 16 (u32Status2 d);
           (u32Count, out) = (if status AND EMAC_TXFD_TXCP \<noteq> 0
                              then (1, Some (u32Next d, EMAC_Subsec2Nsec (u32Data d))) else (0, None));
           s = upd_desc a (\<lambda>d. d\<lparr>u32Data := u32Backup1 d, u32Next := u32Backup2 d\<rparr>) s
       in (u32Count, out, s\<lparr>u32CurrentTxDesc := u32Next (desc s a)\<rparr>)
     else (0, None, s))"

end
