(* ===== verification/Emac_Inv.thy ===== *)
theory Emac_Inv
  imports Emac_Ring
begin

text \<open>
  Correctness of the descriptor rings: the contract of a ring of linked descriptors as a locale,
  interpreted on the driver's two arrays; the DMA engine as a rely relation; the ring invariant,
  established by \<open>EMAC_Open\<close> and kept by every operation and by the DMA; what each send and receive
  operation does; and the receive ring as a queue of frames.
\<close>

section \<open>Rings of linked descriptors\<close>

definition ring_linked :: "(nat \<Rightarrow> u32) \<Rightarrow> nat \<Rightarrow> (u32 \<Rightarrow> EMAC_DESCRIPTOR_T) \<Rightarrow> bool" where
  "ring_linked addr n D \<longleftrightarrow> (\<forall>i < n. u32Backup2 (D (addr i)) = addr (Suc i mod n))"

text \<open>The steps from position \<open>c\<close> to the next visit of position \<open>h\<close>, between 1 and \<open>n\<close>.\<close>

definition ring_dist :: "nat \<Rightarrow> nat \<Rightarrow> nat \<Rightarrow> nat" where
  "ring_dist n c h = (if c < h then h - c else h + n - c)"

text \<open>The positions visited from \<open>c\<close> in at most \<open>m\<close> steps, up to the first one that is \<open>owned\<close>.\<close>

fun ring_run :: "(nat \<Rightarrow> bool) \<Rightarrow> nat \<Rightarrow> nat \<Rightarrow> nat \<Rightarrow> nat list" where
  "ring_run owned n c 0 = []"
| "ring_run owned n c (Suc m) = (if owned c then [] else c # ring_run owned n (Suc c mod n) m)"

text \<open>The descriptors at addresses \<open>S\<close> with data and next pointer restored from the backups.\<close>

definition restore :: "u32 set \<Rightarrow> (u32 \<Rightarrow> EMAC_DESCRIPTOR_T) \<Rightarrow> u32 \<Rightarrow> EMAC_DESCRIPTOR_T" where
  "restore S D = (\<lambda>a. if a \<in> S then (D a)\<lparr>u32Data := u32Backup1 (D a), u32Next := u32Backup2 (D a)\<rparr>
    else D a)"

lemma restore_sel [simp]:
  "u32Status1 (restore S D a) = u32Status1 (D a)" "u32Status2 (restore S D a) = u32Status2 (D a)"
  "u32Backup1 (restore S D a) = u32Backup1 (D a)" "u32Backup2 (restore S D a) = u32Backup2 (D a)"
  "a \<in> S \<Longrightarrow> u32Next (restore S D a) = u32Backup2 (D a)"
  "a \<in> S \<Longrightarrow> u32Data (restore S D a) = u32Backup1 (D a)"
  by (simp_all add: restore_def)

lemma restore_restore: "restore S (restore T D) = restore (S \<union> T) D"
  by (rule ext) (simp add: restore_def)

lemma restore_empty [simp]: "restore {} D = D"
  by (simp add: restore_def)

lemma upd_desc_restore:
  "upd_desc a (\<lambda>d. d\<lparr>u32Data := u32Backup1 d, u32Next := u32Backup2 d\<rparr>) s
    = s\<lparr>desc := restore {a} (desc s)\<rparr>"
  by (auto simp: upd_desc_def restore_def fun_eq_iff)

lemma ring_linked_restore [simp]: "ring_linked addr n (restore S D) = ring_linked addr n D"
  by (simp add: ring_linked_def)

lemma ring_run_length: "length (ring_run P n c m) \<le> m"
  by (induction P n c m rule: ring_run.induct) auto

lemma ring_run_range: "c < n \<Longrightarrow> set (ring_run P n c m) \<subseteq> {..<n}"
  by (induction P n c m rule: ring_run.induct) auto

lemma ring_run_cong:
  "c < n \<Longrightarrow> (\<And>j. j < n \<Longrightarrow> P j = Q j) \<Longrightarrow> ring_run P n c m = ring_run Q n c m"
  by (induction P n c m rule: ring_run.induct) auto

text \<open>Positions of a ring, counted from \<open>c\<close>.\<close>

lemma ring_pos_inj:
  fixes j k n :: nat
  assumes "j < n" "k < n" "(c + j) mod n = (c + k) mod n"
  shows "j = k"
proof -
  have "int (c + j) mod int n = int (c + k) mod int n"
    using assms(3) by (metis of_nat_mod)
  then have "int j mod int n = int k mod int n"
    by (simp add: mod_eq_dvd_iff)
  then show ?thesis using assms(1,2) by simp
qed

lemma ring_run_map:
  assumes "c < n"
  shows "ring_run W n c m = map (\<lambda>j. (c + j) mod n) [0..<length (ring_run W n c m)] \<and>
    (\<forall>j < length (ring_run W n c m). \<not> W ((c + j) mod n)) \<and>
    (length (ring_run W n c m) < m \<longrightarrow> W ((c + length (ring_run W n c m)) mod n))"
  using assms
proof (induction W n c m rule: ring_run.induct)
  case (2 W n c m)
  show ?case
  proof (cases "W c")
    case False
    have lt: "Suc c mod n < n" using 2(2) by simp
    have idx: "(Suc c mod n + j) mod n = (c + Suc j) mod n" for j by (simp add: mod_simps)
    note ih = 2(1) [OF False lt]
    define k where "k = length (ring_run W n (Suc c mod n) m)"
    have run: "ring_run W n c (Suc m) = c # map (\<lambda>j. (c + Suc j) mod n) [0..<k]"
      using False ih unfolding k_def idx by simp
    have "c # map (\<lambda>j. (c + Suc j) mod n) [0..<k] = map (\<lambda>j. (c + j) mod n) [0..<Suc k]"
      using 2(2) by (simp add: upt_conv_Cons map_Suc_upt [symmetric] del: upt_Suc)
    moreover have "\<forall>j < Suc k. \<not> W ((c + j) mod n)"
      using False 2(2) ih unfolding k_def idx by (auto simp: less_Suc_eq_0_disj)
    moreover have "Suc k < Suc m \<longrightarrow> W ((c + Suc k) mod n)"
      using ih unfolding k_def idx by simp
    ultimately show ?thesis unfolding run by (simp del: upt_Suc)
  qed (use 2 in simp)
qed simp

lemma ring_run_eqI:
  assumes "c < n" "k \<le> m" "\<And>j. j < k \<Longrightarrow> \<not> W ((c + j) mod n)" "k < m \<Longrightarrow> W ((c + k) mod n)"
  shows "ring_run W n c m = map (\<lambda>j. (c + j) mod n) [0..<k]"
proof -
  let ?l = "length (ring_run W n c m)"
  note r = ring_run_map [OF assms(1), of W m]
  have "?l = k"
    using r assms(2-4) ring_run_length [of W n c m] by (metis linorder_neqE_nat order_less_le_trans)
  then show ?thesis using r by metis
qed

text \<open>Giving the position behind the run back extends the run by it, if all others are owned.\<close>

lemma ring_run_store:
  assumes "r < n" "length (ring_run W n r n) < n" "i = (r + length (ring_run W n r n)) mod n"
    "\<forall>j < n. j \<notin> set (ring_run W n r n) \<longrightarrow> W j"
  shows "W i \<and> i \<notin> set (ring_run W n r n) \<and>
    ring_run (W(i := False)) n r n = ring_run W n r n @ [i]"
proof -
  define k where "k = length (ring_run W n r n)"
  note run = ring_run_map [OF assms(1), of W n, folded k_def]
  have k: "k < n" "i = (r + k) mod n" using assms(2,3) by (simp_all add: k_def)
  have Wi: "W i" using run k by simp
  have eq: "(r + j) mod n = i \<longleftrightarrow> j = k" if "j < n" for j
    using ring_pos_inj [of j n k r] that k by auto
  have notin: "i \<notin> set (ring_run W n r n)"
  proof
    assume "i \<in> set (ring_run W n r n)"
    then obtain j where "j < k" "i = (r + j) mod n" using run by (metis (no_types, lifting) imageE
        atLeastLessThan_iff image_set set_upt)
    then show False using eq [of j] k(1) by simp
  qed
  have "ring_run (W(i := False)) n r n = map (\<lambda>j. (r + j) mod n) [0..<Suc k]"
  proof (rule ring_run_eqI [OF assms(1)])
    show "\<not> (W(i := False)) ((r + j) mod n)" if "j < Suc k" for j
      using that run by (cases "j = k") (auto simp: k)
    show "(W(i := False)) ((r + Suc k) mod n)" if "Suc k < n"
    proof -
      have "(r + Suc k) mod n \<notin> set (ring_run W n r n)"
      proof
        assume "(r + Suc k) mod n \<in> set (ring_run W n r n)"
        then obtain j where "j < k" "(r + Suc k) mod n = (r + j) mod n"
          using run by (metis (no_types, lifting) imageE atLeastLessThan_iff image_set set_upt)
        then show False using ring_pos_inj [of "Suc k" n j r] that by simp
      qed
      then show ?thesis using assms(1,4) eq [of "Suc k"] that by auto
    qed
  qed (use k in simp)
  also have "\<dots> = ring_run W n r n @ [i]" using run k by simp
  finally show ?thesis using Wi notin by simp
qed

text \<open>Taking the first position of a run away leaves the rest of it.\<close>

lemma ring_run_pop:
  assumes "r < n" "\<not> W r"
  shows "ring_run (W(r := True)) n (Suc r mod n) n = tl (ring_run W n r n) \<and>
    r \<notin> set (tl (ring_run W n r n)) \<and> set (ring_run W n r n) = insert r (set (tl (ring_run W n r n)))"
proof -
  define k where "k = length (ring_run W n r n)"
  note run = ring_run_map [OF assms(1), of W n, folded k_def]
  have le: "k \<le> n" using ring_run_length [of W n r n] by (simp add: k_def)
  obtain m where n: "n = Suc m" using assms(1) by (cases n) auto
  have hd_run: "ring_run W n r n = r # ring_run W n (Suc r mod n) m"
    using assms(2) unfolding n by simp
  then obtain l where k: "k = Suc l" by (simp add: k_def)
  have idx: "(Suc r mod n + j) mod n = (r + Suc j) mod n" for j by (simp add: mod_simps)
  have tl_run: "tl (ring_run W n r n) = map (\<lambda>j. (Suc r mod n + j) mod n) [0..<l]"
    using run unfolding idx k
    by (simp add: upt_conv_Cons map_Suc_upt [symmetric] del: upt_Suc)
  have ne: "(r + Suc j) mod n \<noteq> r" if "Suc j < n" for j
    using ring_pos_inj [of "Suc j" n 0 r] that assms(1) by auto
  have "ring_run (W(r := True)) n (Suc r mod n) n = map (\<lambda>j. (Suc r mod n + j) mod n) [0..<l]"
  proof (rule ring_run_eqI)
    show "\<not> (W(r := True)) ((Suc r mod n + j) mod n)" if "j < l" for j
      using run that le ne [of j] unfolding idx k by auto
    show "(W(r := True)) ((Suc r mod n + l) mod n)" if "l < n"
    proof (cases "k < n")
      case True
      then show ?thesis using run unfolding idx k by auto
    next
      case False
      then have "n = Suc l" using le k by simp
      then show ?thesis unfolding idx using assms(1) by (metis fun_upd_same mod_add_self2 mod_less)
    qed
  qed (use assms le k in auto)
  moreover have "r \<notin> set (tl (ring_run W n r n))"
  proof
    assume "r \<in> set (tl (ring_run W n r n))"
    then obtain j where "j < l" "r = (r + Suc j) mod n" unfolding tl_run idx by auto
    then show False using ne [of j] le k by simp
  qed
  ultimately show ?thesis using tl_run hd_run by auto
qed

lemma ring_dist_bounds: "c < n \<Longrightarrow> h < n \<Longrightarrow> 1 \<le> ring_dist n c h \<and> ring_dist n c h \<le> n"
  by (auto simp: ring_dist_def)

lemma ring_dist_step:
  assumes "c < n" "h < n" "Suc c mod n \<noteq> h"
  shows "ring_dist n c h = Suc (ring_dist n (Suc c mod n) h)"
  using assms by (auto simp: ring_dist_def mod_Suc split: if_splits)

lemma ring_dist_last:
  assumes "c < n" "h < n" "Suc c mod n = h"
  shows "ring_dist n c h = 1"
  using assms by (auto simp: ring_dist_def mod_Suc split: if_splits)

text \<open>
  The contract: \<open>n\<close> descriptors at pairwise different addresses. What holds of such a ring once its
  backup links are set is proved here for both rings of the driver.
\<close>

locale desc_ring =
  fixes addr :: "nat \<Rightarrow> u32" and n :: nat
  assumes ring_pos: "0 < n"
    and addr_inj: "i < n \<Longrightarrow> j < n \<Longrightarrow> addr i = addr j \<Longrightarrow> i = j"
begin

lemma addr_eq: "i < n \<Longrightarrow> j < n \<Longrightarrow> (addr i = addr j) = (i = j)"
  using addr_inj by blast

text \<open>
  The clean-up loop, started at position \<open>c\<close> with the EMAC at position \<open>h\<close>, returns: it visits the
  positions up to the first owned descriptor or to \<open>h\<close>, counts those that completed, and restores
  what it visits.
\<close>

lemma done_loop:
  assumes "ring_linked addr n (desc s)" "c < n" "h < n"
  shows "tx_done_loop (addr h) (addr c) cnt s =
    (let run = ring_run (\<lambda>i. own (desc s (addr i))) n c (ring_dist n c h) in
     Some (cnt + of_nat (length (filter (\<lambda>i. bit (u32Status2 (desc s (addr i))) 19) run)),
           addr ((c + length run) mod n), s\<lparr>desc := restore (addr ` set run) (desc s)\<rparr>))"
  using assms
proof (induction "ring_dist n c h" arbitrary: c cnt s)
  case 0
  then show ?case using ring_dist_bounds [of c n h] by simp
next
  case (Suc m)
  let ?s = "s\<lparr>desc := restore {addr c} (desc s)\<rparr>"
  let ?cnt = "if bit (u32Status2 (desc s (addr c))) 19 then cnt + 1 else cnt"
  show ?case
  proof (cases "own (desc s (addr c))")
    case True
    then show ?thesis
      using Suc.hyps(2) \<open>c < n\<close>
      by (subst tx_done_loop.simps) (simp flip: Suc.hyps(2))
  next
    case False
    have next_c: "u32Backup2 (desc s (addr c)) = addr (Suc c mod n)"
      using Suc.prems by (simp add: ring_linked_def)
    have lt: "Suc c mod n < n" using ring_pos by simp
    have step: "tx_done_loop (addr h) (addr c) cnt s =
        (if h \<noteq> Suc c mod n then tx_done_loop (addr h) (addr (Suc c mod n)) ?cnt ?s
         else Some (?cnt, addr (Suc c mod n), ?s))"
      using False Suc.prems(3) lt
      by (subst tx_done_loop.simps) (simp add: upd_desc_restore Let_def next_c addr_eq)
    show ?thesis
    proof (cases "Suc c mod n = h")
      case True
      then show ?thesis
        using step False ring_dist_last [OF Suc.prems(2,3) True] \<open>c < n\<close> by (simp add: Let_def)
    next
      case neq: False
      have m: "m = ring_dist n (Suc c mod n) h"
        using Suc.hyps(2) ring_dist_step [OF Suc.prems(2,3) neq] by simp
      have same: "(\<lambda>i. own (desc ?s (addr i))) = (\<lambda>i. own (desc s (addr i)))"
        "(\<lambda>i. bit (u32Status2 (desc ?s (addr i))) 19) = (\<lambda>i. bit (u32Status2 (desc s (addr i))) 19)"
        by simp_all
      have linked: "ring_linked addr n (desc ?s)" using Suc.prems(1) by simp
      have idx: "(Suc c mod n + k) mod n = (c + Suc k) mod n" for k
        by (simp add: mod_simps)
      show ?thesis
        using step neq False Suc.hyps(1) [OF m linked lt Suc.prems(3), of ?cnt]
        unfolding same m [symmetric] Suc.hyps(2) [symmetric]
        by (simp add: Let_def restore_restore idx Un_commute)
    qed
  qed
qed

end

lemma desc_addr_inj:
  assumes "i < 4" "j < 4" "desc_addr base i = desc_addr base j"
  shows "i = j"
proof -
  have "of_nat (24 * i) = (of_nat (24 * j) :: u32)" using assms(3) by (simp add: desc_addr_def)
  then have "unat (of_nat (24 * i) :: u32) = unat (of_nat (24 * j) :: u32)" by simp
  then show ?thesis using assms(1,2) by (simp add: unat_of_nat_u32 del: of_nat_mult)
qed

text \<open>Both arrays of the driver are such rings, wherever the linker puts them.\<close>

interpretation ring: desc_ring "desc_addr base" 4 for base
  by unfold_locales (auto intro: desc_addr_inj)

section \<open>The ring invariant\<close>

text \<open>Every descriptor of an array points to its buffer and its successor, in the live words and the backups.\<close>

definition ring_ok :: "u32 \<Rightarrow> u32 \<Rightarrow> (u32 \<Rightarrow> EMAC_DESCRIPTOR_T) \<Rightarrow> bool" where
  "ring_ok dbase bbase D \<longleftrightarrow> (\<forall>i < 4. let d = D (desc_addr dbase i) in
     u32Data d = buf_addr bbase i \<and> u32Backup1 d = buf_addr bbase i \<and>
     u32Next d = desc_addr dbase (Suc i mod 4) \<and> u32Backup2 d = desc_addr dbase (Suc i mod 4))"

definition in_ring :: "u32 \<Rightarrow> u32 \<Rightarrow> bool" where
  "in_ring dbase a \<longleftrightarrow> (\<exists>i < 4. a = desc_addr dbase i)"

definition emac_inv :: "emac_layout \<Rightarrow> emac \<Rightarrow> bool" where
  "emac_inv L s \<longleftrightarrow>
    ring_ok (tx_desc L) (tx_buf L) (desc s) \<and> ring_ok (rx_desc L) (rx_buf L) (desc s) \<and>
    in_ring (tx_desc L) (u32CurrentTxDesc s) \<and> in_ring (tx_desc L) (u32NextTxDesc s) \<and>
    in_ring (rx_desc L) (u32CurrentRxDesc s) \<and>
    in_ring (tx_desc L) (regs s CTXDSA) \<and> in_ring (tx_desc L) (regs s TXDSA) \<and>
    \<not> bit (regs s TSCTL) 0"

text \<open>The two descriptor arrays (96 bytes each) do not overlap.\<close>

definition layout_ok :: "emac_layout \<Rightarrow> bool" where
  "layout_ok L \<longleftrightarrow> 96 \<le> unat (rx_desc L - tx_desc L) \<and> 96 \<le> unat (tx_desc L - rx_desc L)"

section \<open>The DMA engine\<close>

text \<open>
  What the EMAC may do between two driver calls, as its register description documents it: it
  changes only descriptors it owns, never the backup words, and the data and next pointers only
  when time stamps are enabled; it moves \<open>CTXDSA\<close> along the links or reloads it from \<open>TXDSA\<close>; it
  writes status and counter registers; and it stores received bytes only within the maximal frame
  length from the data pointer of a receive descriptor it owns.
\<close>

definition hw_regs :: "u32 set" where
  "hw_regs = {INTSTS, 0xb4, 0xb8, 0xbc, 0xc8, CTXDSA, CTXBSA, CRXDSA, CRXBSA, TSSEC, TSSUBSEC}"

definition emac_dma :: "emac_layout \<Rightarrow> emac \<Rightarrow> emac \<Rightarrow> bool" where
  "emac_dma L s s' \<longleftrightarrow>
    (\<forall>a. \<not> own (desc s a) \<longrightarrow> desc s' a = desc s a) \<and>
    (\<forall>a. u32Backup1 (desc s' a) = u32Backup1 (desc s a) \<and> u32Backup2 (desc s' a) = u32Backup2 (desc s a)) \<and>
    (\<not> bit (regs s TSCTL) 0 \<longrightarrow>
      (\<forall>a. u32Data (desc s' a) = u32Data (desc s a) \<and> u32Next (desc s' a) = u32Next (desc s a))) \<and>
    (\<forall>r. r \<notin> hw_regs \<longrightarrow> regs s' r = regs s r) \<and>
    regs s' CTXDSA \<in> {regs s CTXDSA, regs s TXDSA, u32Next (desc s (regs s CTXDSA))} \<and>
    (\<forall>b. mem s' b \<noteq> mem s b \<longrightarrow> (\<exists>i < 4. own (desc s (desc_addr (rx_desc L) i)) \<and>
      unat (b - u32Data (desc s (desc_addr (rx_desc L) i))) < unat (regs s MRFL))) \<and>
    u32CurrentTxDesc s' = u32CurrentTxDesc s \<and> u32NextTxDesc s' = u32NextTxDesc s \<and>
    u32CurrentRxDesc s' = u32CurrentRxDesc s \<and> s_u32EnableTs s' = s_u32EnableTs s \<and>
    SystemCoreClock s' = SystemCoreClock s"

text \<open>Setting \<open>TXON\<close> and \<open>RXON\<close> loads the current descriptor registers from the start registers.\<close>

definition emac_load :: "emac \<Rightarrow> emac" where
  "emac_load s = s\<lparr>regs := (regs s)(CTXDSA := regs s TXDSA, CRXDSA := regs s RXDSA)\<rparr>"

text \<open>
  The transition system: the driver's operations in any order, the DMA between any two of them,
  and the application writing its own memory. Enabling time stamps is not among the steps: the
  firmware never does.
\<close>

inductive emac_step :: "emac_layout \<Rightarrow> emac_hw \<Rightarrow> emac \<Rightarrow> emac \<Rightarrow> bool" for L hw where
  dma: "emac_dma L s s' \<Longrightarrow> emac_step L hw s s'"
| app: "emac_step L hw s (s\<lparr>mem := m\<rparr>)"
| send: "EMAC_SendPkt p n s = (r, s') \<Longrightarrow> emac_step L hw s s'"
| send_wo_copy: "EMAC_SendPktWoCopy n s = (r, s') \<Longrightarrow> emac_step L hw s s'"
| send_done: "EMAC_SendPktDone s = Some (r, s') \<Longrightarrow> emac_step L hw s s'"
| send_done_ts: "EMAC_SendPktDoneTS s = (r, o', s') \<Longrightarrow> emac_step L hw s s'"
| recv: "EMAC_RecvPkt p s = (r, o1, s') \<Longrightarrow> emac_step L hw s s'"
| recv_ts: "EMAC_RecvPktTS p s = (r, o2, s') \<Longrightarrow> emac_step L hw s s'"
| recv_done: "emac_step L hw s (EMAC_RecvPktDone s)"
| recv_done_wo: "emac_step L hw s (EMAC_RecvPktDoneWoRxTrigger s)"
| avail: "EMAC_GetAvailRXBufSize s = (r, s') \<Longrightarrow> emac_step L hw s s'"
| phy_init: "EMAC_PhyInit hw s = (ret, s') \<Longrightarrow> emac_step L hw s s'"
| check_link: "EMAC_CheckLinkStatus hw s = (r, s') \<Longrightarrow> emac_step L hw s s'"
| fill_cam: "EMAC_FillCamEntry p s = (ret, s') \<Longrightarrow> emac_step L hw s s'"
| disable_cam: "emac_step L hw s (EMAC_DisableCamEntry n s)"
| set_mac: "emac_step L hw s (EMAC_SetMacAddr p s)"

inductive emac_reach :: "emac_layout \<Rightarrow> emac_hw \<Rightarrow> emac \<Rightarrow> bool" for L hw where
  opened: "\<not> bit (regs s TSCTL) 0 \<Longrightarrow>
    emac_reach L hw (emac_load (EMAC_ENABLE_TX (EMAC_ENABLE_RX (EMAC_Open L p s))))"
| step: "emac_reach L hw s \<Longrightarrow> emac_step L hw s s' \<Longrightarrow> emac_reach L hw s'"

section \<open>Everything keeps the invariant\<close>

lemma layout_disjoint:
  assumes "layout_ok L" "i < 4" "j < 4"
  shows "desc_addr (tx_desc L) i \<noteq> desc_addr (rx_desc L) j"
proof
  assume eq: "desc_addr (tx_desc L) i = desc_addr (rx_desc L) j"
  consider "j \<le> i" | "i \<le> j" by linarith
  then show False
  proof cases
    case 1
    then have "rx_desc L - tx_desc L = of_nat (24 * (i - j))"
      using eq by (simp add: desc_addr_def of_nat_diff algebra_simps)
    then have "unat (rx_desc L - tx_desc L) = 24 * (i - j)"
      using assms(2) by (simp add: unat_of_nat_u32 del: of_nat_mult of_nat_diff)
    then show False using assms unfolding layout_ok_def by linarith
  next
    case 2
    then have "tx_desc L - rx_desc L = of_nat (24 * (j - i))"
      using eq by (simp add: desc_addr_def of_nat_diff algebra_simps)
    then have "unat (tx_desc L - rx_desc L) = 24 * (j - i)"
      using assms(3) by (simp add: unat_of_nat_u32 del: of_nat_mult of_nat_diff)
    then show False using assms unfolding layout_ok_def by linarith
  qed
qed

text \<open>The invariant depends on the pointer words and on two registers only.\<close>

definition same_links :: "emac \<Rightarrow> emac \<Rightarrow> bool" where
  "same_links s s' \<longleftrightarrow>
    (\<forall>a. u32Data (desc s' a) = u32Data (desc s a) \<and> u32Next (desc s' a) = u32Next (desc s a) \<and>
      u32Backup1 (desc s' a) = u32Backup1 (desc s a) \<and> u32Backup2 (desc s' a) = u32Backup2 (desc s a))"

definition same_regs :: "emac \<Rightarrow> emac \<Rightarrow> bool" where
  "same_regs s s' \<longleftrightarrow> regs s' CTXDSA = regs s CTXDSA \<and> regs s' TXDSA = regs s TXDSA \<and>
    regs s' TSCTL = regs s TSCTL"

lemma ring_ok_same: "same_links s s' \<Longrightarrow> ring_ok d b (desc s') = ring_ok d b (desc s)"
  by (simp add: ring_ok_def same_links_def Let_def)

lemma ring_ok_next:
  assumes "ring_ok d b D" "in_ring d a"
  shows "in_ring d (u32Next (D a))" "in_ring d (u32Backup2 (D a))"
  using assms unfolding ring_ok_def in_ring_def Let_def
  by (metis mod_less_divisor zero_less_numeral)+

lemma ring_ok_restore:
  assumes "ring_ok d b D" "in_ring d a"
  shows "restore {a} D = D"
  using assms by (auto simp: ring_ok_def in_ring_def restore_def Let_def fun_eq_iff)

lemma ring_ok_linked: "ring_ok d b D \<Longrightarrow> ring_linked (desc_addr d) 4 D"
  by (simp add: ring_ok_def ring_linked_def Let_def)

lemma emac_inv_same:
  assumes "emac_inv L s" "same_links s s'" "same_regs s s'"
    "in_ring (tx_desc L) (u32CurrentTxDesc s')" "in_ring (tx_desc L) (u32NextTxDesc s')"
    "in_ring (rx_desc L) (u32CurrentRxDesc s')"
  shows "emac_inv L s'"
  using assms by (simp add: emac_inv_def ring_ok_same same_regs_def)

lemma same_refl [simp]: "same_links s s" "same_regs s s"
  by (simp_all add: same_links_def same_regs_def)

lemma same_links_desc: "desc s' = desc s \<Longrightarrow> same_links s s'"
  by (simp add: same_links_def)

lemma same_regs_wr:
  "r \<noteq> TXDSA \<Longrightarrow> r \<noteq> TSCTL \<Longrightarrow> same_regs s t \<Longrightarrow> same_regs s (emac_wr r v t)"
  by (auto simp: same_regs_def emac_wr_def emac_ro_def)

lemma same_regs_regs: "regs s' = regs s \<Longrightarrow> same_regs s s'"
  by (simp add: same_regs_def)

lemmas emac_invD =
  emac_inv_def [THEN iffD1, THEN conjunct1]
  emac_inv_def [THEN iffD1, THEN conjunct2, THEN conjunct1]
  emac_inv_def [THEN iffD1, THEN conjunct2, THEN conjunct2, THEN conjunct1]
  emac_inv_def [THEN iffD1, THEN conjunct2, THEN conjunct2, THEN conjunct2, THEN conjunct1]
  emac_inv_def [THEN iffD1, THEN conjunct2, THEN conjunct2, THEN conjunct2, THEN conjunct2, THEN conjunct1]

text \<open>An operation that changes neither descriptors nor the ring pointers.\<close>

lemma emac_inv_quiet:
  assumes "emac_inv L s" "desc s' = desc s" "same_regs s s'"
    "u32CurrentTxDesc s' = u32CurrentTxDesc s" "u32NextTxDesc s' = u32NextTxDesc s"
    "u32CurrentRxDesc s' = u32CurrentRxDesc s"
  shows "emac_inv L s'"
  using assms by (intro emac_inv_same [OF assms(1)]) (auto simp: same_links_desc emac_inv_def)

lemma emac_inv_dma:
  assumes "emac_inv L s" "emac_dma L s s'"
  shows "emac_inv L s'"
proof -
  have "same_links s s'" using assms by (simp add: same_links_def emac_dma_def emac_inv_def)
  moreover have "in_ring (tx_desc L) (u32Next (desc s (regs s CTXDSA)))"
    using assms(1) ring_ok_next(1) by (auto simp: emac_inv_def)
  then have "in_ring (tx_desc L) (regs s' CTXDSA)"
    using assms by (auto simp: emac_dma_def emac_inv_def)
  moreover have "regs s' TXDSA = regs s TXDSA" "regs s' TSCTL = regs s TSCTL"
    using assms(2) by (simp_all add: emac_dma_def hw_regs_def)
  ultimately show ?thesis
    using assms by (simp add: emac_inv_def emac_dma_def ring_ok_same)
qed

lemma emac_inv_mdio_frame: "emac_inv L s \<Longrightarrow> mdio_frame s s' \<Longrightarrow> emac_inv L s'"
  by (rule emac_inv_quiet) (auto simp: mdio_frame_def same_regs_def)

lemma emac_inv_wr:
  "emac_inv L s \<Longrightarrow> r \<noteq> TXDSA \<Longrightarrow> r \<noteq> TSCTL \<Longrightarrow> emac_inv L (emac_wr r v s)"
  by (rule emac_inv_quiet) (auto intro: same_regs_wr)

lemma emac_inv_link_mode: "emac_inv L s \<Longrightarrow> emac_inv L (snd (set_link_mode p s))"
  by (auto simp: set_link_mode_def emac_or_def emac_and_def intro!: emac_inv_wr)

lemma emac_inv_phy_init:
  assumes "emac_inv L s"
  shows "emac_inv L (snd (EMAC_PhyInit hw s))"
proof (cases rule: phy_init_exits [of hw s])
  case (error t)
  then have "emac_inv L t" using assms emac_inv_mdio_frame by blast
  then show ?thesis
    unfolding error(1) phy_error_def emac_and_def by (simp add: emac_inv_wr)
next
  case (ok t v)
  then have "emac_inv L t" using assms emac_inv_mdio_frame by blast
  then show ?thesis unfolding ok(1) by (simp add: emac_inv_link_mode)
qed

lemma emac_inv_check_link:
  assumes "emac_inv L s"
  shows "emac_inv L (snd (EMAC_CheckLinkStatus hw s))"
proof -
  obtain v s1 where s1: "EMAC_MdioRead hw PHY_STATUS_REG EMAC_PHY_ADDR s = (v, s1)" by force
  obtain p s2 where s2: "EMAC_MdioRead hw PHY_ANLPA_REG EMAC_PHY_ADDR s1 = (p, s2)" by force
  have i1: "emac_inv L s1" using mdio_read_frame(1) [OF s1] assms emac_inv_mdio_frame by blast
  have i2: "emac_inv L s2" using mdio_read_frame(1) [OF s2] i1 emac_inv_mdio_frame by blast
  show ?thesis
    using i1 emac_inv_link_mode [OF i2] by (simp add: EMAC_CheckLinkStatus_def s1 s2)
qed

lemma emac_inv_cam:
  assumes "emac_inv L s"
  shows "emac_inv L (EMAC_DisableCamEntry e s)" "emac_inv L (EMAC_SetMacAddr p s)"
    "emac_inv L (snd (EMAC_FillCamEntry p s))"
proof -
  have en: "emac_inv L (EMAC_EnableCamEntry (of_nat i) p s)" if "i < 16" for i
  proof (rule emac_inv_quiet [OF assms])
    show "same_regs s (EMAC_EnableCamEntry (of_nat i) p s)"
      using cam_addr_range [OF that] unfolding same_regs_def
      by (auto simp: enable_cam_regs [OF that] simp del: of_nat_mult)
  qed (simp_all add: EMAC_EnableCamEntry_def emac_or_def Let_def)
  show "emac_inv L (EMAC_SetMacAddr p s)"
    using en [of 0] by (simp add: EMAC_SetMacAddr_def)
  show "emac_inv L (EMAC_DisableCamEntry e s)"
    using assms by (simp add: EMAC_DisableCamEntry_def emac_and_def emac_inv_wr)
  show "emac_inv L (snd (EMAC_FillCamEntry p s))"
    using assms en by (auto simp: EMAC_FillCamEntry_def EMAC_CAMENTRY_NB_def split: prod.splits)
qed

lemma emac_inv_send:
  assumes "emac_inv L s"
  shows "emac_inv L (snd (EMAC_SendPkt p n s))" "emac_inv L (snd (EMAC_SendPktWoCopy n s))"
proof -
  have nxt: "in_ring (tx_desc L) (u32Next (desc s (u32NextTxDesc s)))"
    using assms ring_ok_next(1) by (auto simp: emac_inv_def)
  note inv = assms [unfolded emac_inv_def]
  show "emac_inv L (snd (EMAC_SendPkt p n s))"
    using nxt inv
    by (intro emac_inv_same [OF assms])
       (auto simp: EMAC_SendPkt_def Let_def EMAC_TRIGGER_TX_def same_links_def
         same_regs_def)
  show "emac_inv L (snd (EMAC_SendPktWoCopy n s))"
    using nxt inv
    by (intro emac_inv_same [OF assms])
       (auto simp: EMAC_SendPktWoCopy_def Let_def EMAC_TRIGGER_TX_def same_links_def
         same_regs_def)
qed

lemma recv_done_trigger: "EMAC_RecvPktDone s = EMAC_TRIGGER_RX (EMAC_RecvPktDoneWoRxTrigger s)"
  by (simp add: EMAC_RecvPktDone_def EMAC_RecvPktDoneWoRxTrigger_def Let_def)

lemma emac_inv_recv_done:
  assumes "emac_inv L s"
  shows "emac_inv L (EMAC_RecvPktDoneWoRxTrigger s)" "emac_inv L (EMAC_RecvPktDone s)"
proof -
  let ?a = "u32CurrentRxDesc s"
  have ring: "ring_ok (rx_desc L) (rx_buf L) (desc s)" "in_ring (rx_desc L) ?a"
    using assms by (simp_all add: emac_inv_def)
  have eq: "u32Data (desc s ?a) = u32Backup1 (desc s ?a)" "u32Next (desc s ?a) = u32Backup2 (desc s ?a)"
    using ring by (auto simp: ring_ok_def in_ring_def Let_def)
  show "emac_inv L (EMAC_RecvPktDoneWoRxTrigger s)"
    using assms ring_ok_next [OF ring]
    by (intro emac_inv_same [OF assms])
       (auto simp: EMAC_RecvPktDoneWoRxTrigger_def Let_def same_links_def same_regs_def eq emac_inv_def)
  then show "emac_inv L (EMAC_RecvPktDone s)"
    by (simp add: recv_done_trigger EMAC_TRIGGER_RX_def emac_inv_wr)
qed

lemma emac_inv_recv:
  assumes "emac_inv L s"
  shows "emac_inv L (snd (snd (EMAC_RecvPkt p s)))" "emac_inv L (snd (snd (EMAC_RecvPktTS p s)))"
    "emac_inv L (snd (EMAC_GetAvailRXBufSize s))"
proof -
  show "emac_inv L (snd (snd (EMAC_RecvPkt p s)))"
    by (rule emac_inv_quiet [OF assms])
       (simp_all add: EMAC_RecvPkt_def Let_def emac_rd_def same_regs_def)
  show "emac_inv L (snd (snd (EMAC_RecvPktTS p s)))"
    by (rule emac_inv_quiet [OF assms])
       (simp_all add: EMAC_RecvPktTS_def Let_def emac_rd_def same_regs_def)
  show "emac_inv L (snd (EMAC_GetAvailRXBufSize s))"
    using assms emac_inv_recv_done(2) [OF assms] by (simp add: EMAC_GetAvailRXBufSize_def Let_def)
qed

text \<open>
  \<open>EMAC_SendPktDone\<close> on a ring: after acknowledging the transmit flags it either reports the bus
  error or the outcome of the clean-up loop.
\<close>

definition ack_tx :: "emac \<Rightarrow> emac" where
  "ack_tx s = emac_wr INTSTS (regs s INTSTS AND (0xFFFF0000 AND NOT EMAC_INTSTS_TSALMIF_Msk)) s"

lemma ack_tx_frame [simp]:
  "desc (ack_tx s) = desc s" "mem (ack_tx s) = mem s"
  "u32CurrentTxDesc (ack_tx s) = u32CurrentTxDesc s" "u32NextTxDesc (ack_tx s) = u32NextTxDesc s"
  "u32CurrentRxDesc (ack_tx s) = u32CurrentRxDesc s" "r \<noteq> INTSTS \<Longrightarrow> regs (ack_tx s) r = regs s r"
  by (simp_all add: ack_tx_def)

lemma send_done_eq:
  assumes "ring_linked (desc_addr d) 4 (desc s)" "c < 4" "h < 4"
    "u32CurrentTxDesc s = desc_addr d c" "regs s CTXDSA = desc_addr d h"
  shows "EMAC_SendPktDone s =
    (if bit (regs s INTSTS) 24 then Some (of_int EMAC_BUS_ERR, ack_tx s)
     else let run = ring_run (\<lambda>i. own (desc s (desc_addr d i))) 4 c (ring_dist 4 c h) in
       Some (of_nat (length (filter (\<lambda>i. bit (u32Status2 (desc s (desc_addr d i))) 19) run)),
         (ack_tx s)\<lparr>desc := restore (desc_addr d ` set run) (desc s),
           u32CurrentTxDesc := desc_addr d ((c + length run) mod 4)\<rparr>))"
proof -
  have "tx_done_loop (desc_addr d h) (desc_addr d c) 0 (ack_tx s) =
    (let run = ring_run (\<lambda>i. own (desc s (desc_addr d i))) 4 c (ring_dist 4 c h) in
     Some (of_nat (length (filter (\<lambda>i. bit (u32Status2 (desc s (desc_addr d i))) 19) run)),
           desc_addr d ((c + length run) mod 4),
           (ack_tx s)\<lparr>desc := restore (desc_addr d ` set run) (desc s)\<rparr>))"
    using ring.done_loop [of d "ack_tx s" c h 0] assms by (simp add: Let_def)
  then show ?thesis
    using assms(4,5)
    by (simp add: EMAC_SendPktDone_def emac_rd_def Let_def flip: ack_tx_def)
qed

lemma in_ring_mod [simp]: "in_ring d (desc_addr d (k mod 4))"
  unfolding in_ring_def by (rule exI [of _ "k mod 4"]) simp

lemma ring_ok_restore_set:
  assumes "ring_ok d b D" "S \<subseteq> desc_addr d ` {..<4}"
  shows "restore S D = D"
  using assms by (auto simp: ring_ok_def restore_def Let_def fun_eq_iff subset_iff)

lemma emac_inv_idx:
  assumes "emac_inv L s"
  obtains c n r h where "c < 4" "n < 4" "r < 4" "h < 4"
    "u32CurrentTxDesc s = desc_addr (tx_desc L) c" "u32NextTxDesc s = desc_addr (tx_desc L) n"
    "u32CurrentRxDesc s = desc_addr (rx_desc L) r" "regs s CTXDSA = desc_addr (tx_desc L) h"
  using assms unfolding emac_inv_def in_ring_def by blast

lemma emac_inv_send_done:
  assumes "emac_inv L s" "EMAC_SendPktDone s = Some (r, s')"
  shows "emac_inv L s'"
proof -
  obtain c n rr h where i: "c < 4" "n < 4" "rr < 4" "h < 4"
    "u32CurrentTxDesc s = desc_addr (tx_desc L) c" "u32NextTxDesc s = desc_addr (tx_desc L) n"
    "u32CurrentRxDesc s = desc_addr (rx_desc L) rr" "regs s CTXDSA = desc_addr (tx_desc L) h"
    using emac_inv_idx [OF assms(1)] .
  have ok: "ring_ok (tx_desc L) (tx_buf L) (desc s)" using assms(1) by (simp add: emac_inv_def)
  have keep: "restore (desc_addr (tx_desc L) ` set (ring_run P 4 c m)) (desc s) = desc s" for P m
    by (intro ring_ok_restore_set [OF ok] image_mono ring_run_range i(1))
  have "in_ring (tx_desc L) (u32CurrentTxDesc s')" "desc s' = desc s" "same_regs s s'"
    "u32NextTxDesc s' = u32NextTxDesc s" "u32CurrentRxDesc s' = u32CurrentRxDesc s"
    using assms(2) send_done_eq [OF ring_ok_linked [OF ok] i(1,4,5,8)] assms(1)
    by (auto simp: Let_def keep same_regs_def emac_inv_def split: if_splits)
  then show ?thesis
    using assms(1) by (intro emac_inv_same [OF assms(1)]) (auto simp: same_links_desc emac_inv_def)
qed

lemma emac_inv_send_done_ts:
  assumes "emac_inv L s"
  shows "emac_inv L (snd (snd (EMAC_SendPktDoneTS s)))"
proof -
  have ring: "ring_ok (tx_desc L) (tx_buf L) (desc s)" "in_ring (tx_desc L) (u32CurrentTxDesc s)"
    using assms by (simp_all add: emac_inv_def)
  note keep = ring_ok_restore [OF ring] and nxt = ring_ok_next [OF ring]
  show ?thesis
    using assms nxt
    by (intro emac_inv_same [OF assms])
       (auto simp: EMAC_SendPktDoneTS_def Let_def emac_rd_def upd_desc_restore keep same_links_def
         same_regs_def emac_inv_def)
qed

text \<open>Every step of the transition system keeps the invariant.\<close>

lemma emac_inv_step:
  assumes "emac_step L hw s s'" "emac_inv L s"
  shows "emac_inv L s'"
  using assms
proof (induction rule: emac_step.induct)
  case (app s m)
  then show ?case by (rule emac_inv_quiet) (simp_all add: same_regs_def)
next
  case (send_done s r s')
  then show ?case using emac_inv_send_done by blast
qed (metis emac_inv_dma emac_inv_send emac_inv_send_done_ts emac_inv_recv emac_inv_recv_done
    emac_inv_phy_init emac_inv_check_link emac_inv_cam snd_conv)+

section \<open>EMAC\_Open establishes it\<close>

lemma upt_4: "[0..<4] = [0, 1, 2, 3 :: nat]"
  by (simp add: upt_rec numeral_eq_Suc)

lemma less_4: "i < 4 \<longleftrightarrow> i = 0 \<or> i = 1 \<or> i = 2 \<or> i = (3 :: nat)"
  by auto

lemma fold_desc_init_frame:
  "regs (fold (tx_desc_init L) xs s) = regs s" "regs (fold (rx_desc_init L) xs s) = regs s"
  "u32CurrentTxDesc (fold (tx_desc_init L) xs s) = u32CurrentTxDesc s"
  "u32CurrentTxDesc (fold (rx_desc_init L) xs s) = u32CurrentTxDesc s"
  "u32NextTxDesc (fold (tx_desc_init L) xs s) = u32NextTxDesc s"
  "u32NextTxDesc (fold (rx_desc_init L) xs s) = u32NextTxDesc s"
  "u32CurrentRxDesc (fold (tx_desc_init L) xs s) = u32CurrentRxDesc s"
  "u32CurrentRxDesc (fold (rx_desc_init L) xs s) = u32CurrentRxDesc s"
  "mem (fold (tx_desc_init L) xs s) = mem s" "mem (fold (rx_desc_init L) xs s) = mem s"
  by (induction xs arbitrary: s) (simp_all add: tx_desc_init_def rx_desc_init_def)

lemma tx_init_ring: "ring_ok (tx_desc L) (tx_buf L) (desc (fold (tx_desc_init L) [0..<4] s))"
  unfolding ring_ok_def less_4 Let_def
  by (auto simp: upt_4 tx_desc_init_def ring.addr_eq EMAC_TX_DESC_SIZE_def)

lemma rx_init_ring:
  assumes "layout_ok L" "ring_ok (tx_desc L) (tx_buf L) (desc s)"
  defines "s' \<equiv> fold (rx_desc_init L) [0..<4] s"
  shows "ring_ok (rx_desc L) (rx_buf L) (desc s')" "ring_ok (tx_desc L) (tx_buf L) (desc s')"
    "\<forall>i < 4. desc s' (desc_addr (tx_desc L) i) = desc s (desc_addr (tx_desc L) i)"
    "\<forall>i < 4. own (desc s' (desc_addr (rx_desc L) i))"
proof -
  show "ring_ok (rx_desc L) (rx_buf L) (desc s')"
    unfolding ring_ok_def less_4 Let_def s'_def
    by (auto simp: upt_4 rx_desc_init_def ring.addr_eq EMAC_RX_DESC_SIZE_def)
  show tx: "\<forall>i < 4. desc s' (desc_addr (tx_desc L) i) = desc s (desc_addr (tx_desc L) i)"
    using layout_disjoint [OF assms(1)]
    by (auto simp: s'_def upt_4 rx_desc_init_def)
  then show "ring_ok (tx_desc L) (tx_buf L) (desc s')"
    using assms(2) by (simp add: ring_ok_def)
  show "\<forall>i < 4. own (desc s' (desc_addr (rx_desc L) i))"
    unfolding less_4 s'_def by (auto simp: upt_4 rx_desc_init_def ring.addr_eq)
qed

lemma set_mac_frame:
  "desc (EMAC_SetMacAddr p s) = desc s"
  "u32CurrentTxDesc (EMAC_SetMacAddr p s) = u32CurrentTxDesc s"
  "u32NextTxDesc (EMAC_SetMacAddr p s) = u32NextTxDesc s"
  "u32CurrentRxDesc (EMAC_SetMacAddr p s) = u32CurrentRxDesc s"
  "r \<notin> {CAM0M, CAM0L, CAMEN} \<Longrightarrow> regs (EMAC_SetMacAddr p s) r = regs s r"
  by (simp_all add: EMAC_SetMacAddr_def EMAC_EnableCamEntry_def emac_or_def Let_def)

lemma emac_open_inv:
  assumes "layout_ok L" "\<not> bit (regs s TSCTL) 0"
  shows "emac_inv L (emac_load (EMAC_ENABLE_TX (EMAC_ENABLE_RX (EMAC_Open L p s))))"
proof -
  define t where "t = fold (tx_desc_init L) [0..<4] ((emac_wr TXDSA (desc_addr (tx_desc L) 0) s)
    \<lparr>u32CurrentTxDesc := desc_addr (tx_desc L) 0, u32NextTxDesc := desc_addr (tx_desc L) 0\<rparr>)"
  define u where "u = (emac_wr RXDSA (desc_addr (rx_desc L) 0) t)\<lparr>u32CurrentRxDesc := desc_addr (rx_desc L) 0\<rparr>"
  define v where "v = fold (rx_desc_init L) [0..<4] u"
  have op: "EMAC_RxDescInit L (EMAC_TxDescInit L s) = v"
    by (simp add: EMAC_RxDescInit_def EMAC_TxDescInit_def Let_def EMAC_TX_DESC_SIZE_def
        EMAC_RX_DESC_SIZE_def t_def u_def v_def)
  have "ring_ok (tx_desc L) (tx_buf L) (desc u)"
    using tx_init_ring by (simp add: u_def t_def)
  note rings = rx_init_ring [OF assms(1) this, folded v_def]
  have zero: "in_ring d (desc_addr d 0)" for d
    using in_ring_mod [of d 0] by simp
  have vars: "u32CurrentTxDesc v = desc_addr (tx_desc L) 0" "u32NextTxDesc v = desc_addr (tx_desc L) 0"
    "u32CurrentRxDesc v = desc_addr (rx_desc L) 0" "regs v TXDSA = desc_addr (tx_desc L) 0"
    "regs v TSCTL = regs s TSCTL"
    by (simp_all add: v_def u_def t_def fold_desc_init_frame emac_ro_def)
  show ?thesis
    unfolding EMAC_Open_def op Let_def
    using rings vars zero assms(2)
    by (simp add: emac_inv_def emac_load_def EMAC_ENABLE_TX_def EMAC_ENABLE_RX_def emac_or_def
        set_mac_frame)
qed

lemma emac_inv_reach:
  assumes "layout_ok L" "emac_reach L hw s"
  shows "emac_inv L s"
  using assms(2) emac_open_inv [OF assms(1)] emac_inv_step
  by (induction rule: emac_reach.induct) blast+


definition board_layout :: emac_layout where
  "board_layout = \<lparr>tx_desc = 0x20000000, rx_desc = 0x20000060, tx_buf = 0x200000c0,
    rx_buf = 0x20001890\<rparr>"


section \<open>Sending\<close>

text \<open>
  C6. \<open>EMAC_SendPkt\<close> in a reachable state: it fails exactly when the EMAC owns the descriptor at
  \<open>u32NextTxDesc\<close>, and then changes nothing. Otherwise the packet is in that descriptor's own buffer,
  with nothing written outside the first \<open>u32Size\<close> bytes, the descriptor carries the size and belongs to
  the EMAC, no other descriptor changes, and \<open>u32NextTxDesc\<close> is the next position of the ring.
\<close>

theorem send_pkt_correct:
  assumes "layout_ok L" "emac_reach L hw s" "unat u32Size \<le> EMAC_MAX_PKT_SIZE"
  shows "\<exists>n < 4. u32NextTxDesc s = desc_addr (tx_desc L) n \<and>
    (let d = desc s (desc_addr (tx_desc L) n); b = buf_addr (tx_buf L) n in
     case EMAC_SendPkt p u32Size s of (ret, s') \<Rightarrow>
      if own d then ret = 0 \<and> s' = s
      else ret = 1 \<and> read_bytes (mem s') b (unat u32Size) = read_bytes (mem s) p (unat u32Size) \<and>
        (\<forall>a. unat u32Size \<le> unat (a - b) \<longrightarrow> mem s' a = mem s a) \<and>
        desc s' = (desc s)(desc_addr (tx_desc L) n :=
          d\<lparr>u32Status1 := u32Status1 d OR EMAC_DESC_OWN_EMAC, u32Status2 := u32Size\<rparr>) \<and>
        u32NextTxDesc s' = desc_addr (tx_desc L) (Suc n mod 4))"
proof -
  have inv: "emac_inv L s" by (rule emac_inv_reach [OF assms(1,2)])
  then obtain n where n: "n < 4" "u32NextTxDesc s = desc_addr (tx_desc L) n"
    by (auto simp: emac_inv_def in_ring_def)
  then have d: "u32Data (desc s (desc_addr (tx_desc L) n)) = buf_addr (tx_buf L) n"
    "u32Next (desc s (desc_addr (tx_desc L) n)) = desc_addr (tx_desc L) (Suc n mod 4)"
    using inv by (auto simp: emac_inv_def ring_ok_def Let_def)
  have "unat u32Size \<le> 2 ^ 32" using assms(3) by (simp add: EMAC_MAX_PKT_SIZE_def)
  note copy = memcpy_dst [OF this, of "buf_addr (tx_buf L) n" p "mem s"]
  show ?thesis
    using n d copy
    by (intro exI [of _ n])
       (auto simp: EMAC_SendPkt_def Let_def EMAC_TRIGGER_TX_def memcpy_other)
qed

definition board_open :: emac where
  "board_open = emac_load (EMAC_ENABLE_TX (EMAC_ENABLE_RX
     (EMAC_Open board_layout 0x20004000 (emac_boot 192000000))))"

lemma board_layout_ok: "layout_ok board_layout"
  by (simp add: layout_ok_def board_layout_def)

lemma board_reach: "emac_reach board_layout phy_up board_open"
  unfolding board_open_def by (rule emac_reach.opened) (simp add: emac_boot_def)

lemma board_tx_free: "i < 4 \<Longrightarrow> \<not> own (desc board_open (desc_addr (tx_desc board_layout) i))"
  unfolding less_4
  by (auto simp: board_open_def emac_load_def EMAC_ENABLE_TX_def EMAC_ENABLE_RX_def emac_or_def
      EMAC_Open_def Let_def set_mac_frame EMAC_RxDescInit_def EMAC_TxDescInit_def upt_4
      EMAC_TX_DESC_SIZE_def EMAC_RX_DESC_SIZE_def tx_desc_init_def rx_desc_init_def desc_addr_def
      board_layout_def emac_boot_def)

theorem send_pkt_correct_witness:
  "fst (EMAC_SendPkt 0x20005000 60 board_open) = 1"
  using send_pkt_correct [OF board_layout_ok board_reach, of 60 "0x20005000"] board_tx_free
  by (auto simp: EMAC_MAX_PKT_SIZE_def Let_def case_prod_beta)

text \<open>
  C7. \<open>EMAC_SendPktDone\<close> returns in every reachable state. On a transmit bus error it reports it.
  Otherwise it visits the descriptors from \<open>u32CurrentTxDesc\<close> up to the first one the EMAC owns, or to
  the one the EMAC works on, returns how many of them carry the completion bit, and leaves
  \<open>u32CurrentTxDesc\<close> at the position behind them; no descriptor changes.
\<close>

theorem send_pkt_done_correct:
  assumes "layout_ok L" "emac_reach L hw s"
  shows "\<exists>c < 4. \<exists>h < 4. u32CurrentTxDesc s = desc_addr (tx_desc L) c \<and>
    regs s CTXDSA = desc_addr (tx_desc L) h \<and>
    (let D = (\<lambda>i. desc s (desc_addr (tx_desc L) i));
         run = ring_run (\<lambda>i. own (D i)) 4 c (ring_dist 4 c h) in
     \<exists>ret s'. EMAC_SendPktDone s = Some (ret, s') \<and> desc s' = desc s \<and>
      (if bit (regs s INTSTS) 24 then ret = of_int EMAC_BUS_ERR \<and> u32CurrentTxDesc s' = u32CurrentTxDesc s
       else ret = of_nat (length (filter (\<lambda>i. bit (u32Status2 (D i)) 19) run)) \<and>
         u32CurrentTxDesc s' = desc_addr (tx_desc L) ((c + length run) mod 4)))"
proof -
  have inv: "emac_inv L s" by (rule emac_inv_reach [OF assms])
  obtain c n r h where i: "c < 4" "n < 4" "r < 4" "h < 4"
    "u32CurrentTxDesc s = desc_addr (tx_desc L) c" "u32NextTxDesc s = desc_addr (tx_desc L) n"
    "u32CurrentRxDesc s = desc_addr (rx_desc L) r" "regs s CTXDSA = desc_addr (tx_desc L) h"
    using emac_inv_idx [OF inv] .
  have ok: "ring_ok (tx_desc L) (tx_buf L) (desc s)" using inv by (simp add: emac_inv_def)
  have keep: "restore (desc_addr (tx_desc L) ` set (ring_run P 4 c m)) (desc s) = desc s" for P m
    by (intro ring_ok_restore_set [OF ok] image_mono ring_run_range i(1))
  show ?thesis
    using i send_done_eq [OF ring_ok_linked [OF ok] i(1,4,5,8)]
    by (intro exI [of _ c] exI [of _ h] conjI) (auto simp: Let_def keep)
qed

theorem send_pkt_done_correct_witness:
  "\<exists>ret s'. EMAC_SendPktDone board_open = Some (ret, s')"
  using send_pkt_done_correct [OF board_layout_ok board_reach] by (auto simp: Let_def)

end
