(* ===== verification/Emac_Queue.thy ===== *)
theory Emac_Queue
  imports Emac_Inv
begin

text \<open>
  The receive ring as a queue of frames. \<open>rx_queue\<close> abstracts the driver's state to the frames waiting
  between \<open>u32CurrentRxDesc\<close> and the first descriptor the EMAC owns; the receive operations and the
  DMA's store of a frame are shown to be the operations of a queue. Then the places where the
  driver departs from that contract.
\<close>

section \<open>The abstraction\<close>

definition rx_index :: "emac_layout \<Rightarrow> emac \<Rightarrow> nat" where
  "rx_index L s = hd (filter (\<lambda>i. desc_addr (rx_desc L) i = u32CurrentRxDesc s) [0..<4])"

text \<open>A waiting descriptor holds a frame when the EMAC marked it good, and nothing otherwise.\<close>

definition rx_frame :: "emac_layout \<Rightarrow> emac \<Rightarrow> nat \<Rightarrow> u8 list option" where
  "rx_frame L s i =
    (let d = desc s (desc_addr (rx_desc L) i) in
     if bit (u32Status1 d) 20
     then Some (read_bytes (mem s) (buf_addr (rx_buf L) i) (unat (u32Status1 d AND 0xFFFF)))
     else None)"

definition rx_waiting :: "emac_layout \<Rightarrow> emac \<Rightarrow> nat list" where
  "rx_waiting L s = ring_run (\<lambda>i. own (desc s (desc_addr (rx_desc L) i))) 4 (rx_index L s) 4"

definition rx_queue :: "emac_layout \<Rightarrow> emac \<Rightarrow> u8 list option list" where
  "rx_queue L s = map (rx_frame L s) (rx_waiting L s)"

text \<open>
  The EMAC's store of one frame: the bytes go to the buffer of the descriptor, whose first status
  word becomes \<open>st\<close>, with the owner bit clear and the length in the low half.
\<close>

definition dma_store :: "emac_layout \<Rightarrow> nat \<Rightarrow> u32 \<Rightarrow> u8 list \<Rightarrow> emac \<Rightarrow> emac" where
  "dma_store L i st bs s =
    (let a = desc_addr (rx_desc L) i in
     s\<lparr>mem := write_bytes (u32Data (desc s a)) bs (mem s),
       desc := (desc s)(a := (desc s a)\<lparr>u32Status1 := st\<rparr>)\<rparr>)"

text \<open>In step with the EMAC: every descriptor that is not waiting belongs to the EMAC.\<close>

definition rx_sync :: "emac_layout \<Rightarrow> emac \<Rightarrow> bool" where
  "rx_sync L s \<longleftrightarrow>
    (\<forall>j < 4. j \<notin> set (rx_waiting L s) \<longrightarrow> own (desc s (desc_addr (rx_desc L) j)))"

section \<open>Positions and buffers\<close>

lemma rx_index:
  assumes "emac_inv L s"
  shows "rx_index L s < 4" "u32CurrentRxDesc s = desc_addr (rx_desc L) (rx_index L s)"
proof -
  let ?l = "filter (\<lambda>i. desc_addr (rx_desc L) i = u32CurrentRxDesc s) [0..<4]"
  have "?l \<noteq> []" using assms by (auto simp: emac_inv_def in_ring_def filter_empty_conv)
  then have "hd ?l \<in> set ?l" by (rule hd_in_set)
  then show "rx_index L s < 4" "u32CurrentRxDesc s = desc_addr (rx_desc L) (rx_index L s)"
    by (auto simp: rx_index_def)
qed

lemma rx_index_eq:
  assumes "i < 4" "u32CurrentRxDesc s = desc_addr (rx_desc L) i"
  shows "rx_index L s = i"
  using assms by (auto simp: rx_index_def upt_4 ring.addr_eq less_4)

lemma buf_disjoint:
  assumes "i < 4" "j < 4" "i \<noteq> j" "k < EMAC_MAX_PKT_SIZE"
  shows "EMAC_MAX_PKT_SIZE \<le> unat (buf_addr b j + of_nat k - buf_addr b i)"
proof -
  let ?E = "EMAC_MAX_PKT_SIZE"
  have word: "buf_addr b j + of_nat k - buf_addr b i = of_nat (?E * j + k) - of_nat (?E * i)"
    by (simp add: buf_addr_def)
  show ?thesis
  proof (cases "i < j")
    case True
    have "?E * j + k = ?E * i + (?E * (j - i) + k)"
      using True by (metis add.assoc add_mult_distrib2 le_add_diff_inverse less_imp_le)
    then have "of_nat (?E * j + k) - of_nat (?E * i) = (of_nat (?E * (j - i) + k) :: u32)"
      by (metis add_diff_cancel_left' of_nat_add)
    moreover have "?E * (j - i) + k < 2 ^ 32"
      using assms by (simp add: EMAC_MAX_PKT_SIZE_def)
    ultimately have "unat (buf_addr b j + of_nat k - buf_addr b i) = ?E * (j - i) + k"
      unfolding word by (simp only: unat_of_nat_u32)
    moreover have "?E \<le> ?E * (j - i)" using True by (simp add: Suc_le_eq)
    ultimately show ?thesis by linarith
  next
    case False
    let ?m = "?E * (i - j) - k"
    have ij: "j < i" using False assms by simp
    then have le: "?E \<le> ?E * (i - j)" by (simp add: Suc_le_eq)
    have m: "0 < ?m" "?m + k = ?E * (i - j)" "?m \<le> 3 * ?E"
      using ij assms le by (auto simp: EMAC_MAX_PKT_SIZE_def)
    have "?E * i = ?E * j + k + ?m"
      using m(2) ij
      by (metis add.assoc add.commute add_mult_distrib2 le_add_diff_inverse less_imp_le)
    then have "of_nat (?E * j + k) - of_nat (?E * i) = (- of_nat ?m :: u32)"
      by (simp only: of_nat_add) simp
    moreover have "unat (- of_nat ?m :: u32) = 2 ^ 32 - ?m"
    proof -
      have "?m < 2 ^ 32" using m(3) by (simp add: EMAC_MAX_PKT_SIZE_def)
      then have u: "unat (of_nat ?m :: u32) = ?m" by (rule unat_of_nat_u32)
      then have "(of_nat ?m :: u32) \<noteq> 0" using m(1) by (metis less_irrefl unat_0)
      from unat_neg_u32 [OF this] show ?thesis unfolding u .
    qed
    ultimately have "unat (buf_addr b j + of_nat k - buf_addr b i) = 2 ^ 32 - ?m"
      by (simp only: word)
    moreover have "?E \<le> 2 ^ 32 - M" if "M \<le> 3 * ?E" for M
      using that by (simp add: EMAC_MAX_PKT_SIZE_def)
    ultimately show ?thesis using m(3) by simp
  qed
qed


text \<open>Writing into one receive buffer does not disturb a frame in another.\<close>

lemma write_other_buf:
  assumes "i < 4" "j < 4" "i \<noteq> j" "length bs \<le> EMAC_MAX_PKT_SIZE" "len \<le> EMAC_MAX_PKT_SIZE"
  shows "read_bytes (write_bytes (buf_addr b i) bs m) (buf_addr b j) len = read_bytes m (buf_addr b j) len"
proof (rule nth_equalityI)
  fix k assume "k < length (read_bytes (write_bytes (buf_addr b i) bs m) (buf_addr b j) len)"
  then have "k < len" "k < EMAC_MAX_PKT_SIZE" using assms(5) by simp_all
  then show "read_bytes (write_bytes (buf_addr b i) bs m) (buf_addr b j) len ! k =
      read_bytes m (buf_addr b j) len ! k"
    using buf_disjoint [OF assms(1,2,3), of k b] assms(4) by (simp add: write_bytes_def)
qed simp

section \<open>The receive operations are queue operations\<close>

lemma ring_run_4:
  "ring_run W n c 4 = (if W c then [] else c # ring_run W n (Suc c mod n) 3)"
proof -
  have "ring_run W n c 4 = ring_run W n c (Suc 3)"
    by (rule arg_cong [of _ _ "ring_run W n c"]) simp
  then show ?thesis by (simp only: ring_run.simps)
qed

lemma rx_waiting_Cons:
  assumes "emac_inv L s"
  shows "(rx_queue L s = []) = own (desc s (u32CurrentRxDesc s))"
    "\<not> own (desc s (u32CurrentRxDesc s)) \<Longrightarrow> hd (rx_queue L s) = rx_frame L s (rx_index L s)"
  using rx_index [OF assms] by (simp_all add: rx_queue_def rx_waiting_def ring_run_4)

text \<open>
  C18. \<open>EMAC_RecvPkt\<close> delivers the head of the receive queue. In a reachable state: a bus error is
  reported as such; with no frame waiting, or a bad one at the head, the result is zero and
  nothing is stored; otherwise the result is one, the size is the frame's length and the caller's
  buffer holds the frame. In no case does it advance the queue.
\<close>

theorem recv_pkt_delivers_head:
  assumes "layout_ok L" "emac_reach L hw s"
  shows "case EMAC_RecvPkt p s of (ret, out, s') \<Rightarrow>
    desc s' = desc s \<and> u32CurrentRxDesc s' = u32CurrentRxDesc s \<and>
    (if bit (regs s INTSTS) 11 then ret = of_int EMAC_BUS_ERR \<and> out = None \<and> mem s' = mem s
     else case rx_queue L s of
       Some f # _ \<Rightarrow> ret = 1 \<and> out = Some (of_nat (length f)) \<and> read_bytes (mem s') p (length f) = f
     | _ \<Rightarrow> ret = 0 \<and> out = None \<and> mem s' = mem s)"
proof -
  have inv: "emac_inv L s" by (rule emac_inv_reach [OF assms])
  let ?d = "desc s (u32CurrentRxDesc s)"
  let ?n = "unat (u32Status1 ?d AND 0xFFFF)"
  have d: "u32Backup1 ?d = buf_addr (rx_buf L) (rx_index L s)"
    using inv rx_index [OF inv] by (simp add: emac_inv_def ring_ok_def Let_def)
  have "?n \<le> 2 ^ 32" using unat_u32_bound [of "u32Status1 ?d AND 0xFFFF"] by simp
  note copy = memcpy_dst [OF this]
  have frame: "rx_frame L s (rx_index L s) =
      (if bit (u32Status1 ?d) 20 then Some (read_bytes (mem s) (u32Backup1 ?d) ?n) else None)"
    using rx_index(2) [OF inv] d by (simp add: rx_frame_def Let_def)
  show ?thesis
    using rx_waiting_Cons [OF inv] frame copy
    by (cases "rx_queue L s")
       (auto simp: EMAC_RecvPkt_def Let_def emac_rd_def split: option.splits)
qed

lemma recv_done_wo_eq:
  assumes "emac_inv L s"
  shows "EMAC_RecvPktDoneWoRxTrigger s = s\<lparr>desc := (desc s)(u32CurrentRxDesc s :=
      (desc s (u32CurrentRxDesc s))\<lparr>u32Status1 := u32Status1 (desc s (u32CurrentRxDesc s)) OR msk 31\<rparr>),
      u32CurrentRxDesc := desc_addr (rx_desc L) (Suc (rx_index L s) mod 4)\<rparr>"
proof -
  let ?d = "desc s (u32CurrentRxDesc s)"
  have "u32Data ?d = u32Backup1 ?d" "u32Next ?d = u32Backup2 ?d"
    "u32Backup2 ?d = desc_addr (rx_desc L) (Suc (rx_index L s) mod 4)"
    using assms rx_index [OF assms] by (simp_all add: emac_inv_def ring_ok_def Let_def)
  then have "?d\<lparr>u32Data := u32Backup1 ?d, u32Next := u32Backup2 ?d\<rparr> = ?d"
    by (metis EMAC_DESCRIPTOR_T.surjective EMAC_DESCRIPTOR_T.update_convs(2,4))
  then show ?thesis
    using \<open>u32Next ?d = u32Backup2 ?d\<close> \<open>u32Backup2 ?d = _\<close>
    by (simp add: EMAC_RecvPktDoneWoRxTrigger_def upd_desc_def Let_def)
qed

text \<open>Giving the head's descriptor back and stepping to the next position removes the head.\<close>

lemma rx_queue_tl:
  assumes inv: "emac_inv L s" and "rx_queue L s \<noteq> []"
    and s': "mem s' = mem s" "desc s' = (desc s)(u32CurrentRxDesc s := d)" "own d"
      "u32CurrentRxDesc s' = desc_addr (rx_desc L) (Suc (rx_index L s) mod 4)"
  shows "rx_queue L s' = tl (rx_queue L s)" "rx_sync L s \<Longrightarrow> rx_sync L s'"
proof -
  define r where "r = rx_index L s"
  define W where "W = (\<lambda>j. own (desc s (desc_addr (rx_desc L) j)))"
  have r: "r < 4" "u32CurrentRxDesc s = desc_addr (rx_desc L) r"
    using rx_index [OF inv] by (simp_all add: r_def)
  have free: "\<not> W r"
    using assms(2) rx_waiting_Cons(1) [OF inv] r by (simp add: W_def)
  have idx: "rx_index L s' = Suc r mod 4"
    by (rule rx_index_eq) (simp_all add: s' r_def)
  have W': "own (desc s' (desc_addr (rx_desc L) j)) = (W(r := True)) j" if "j < 4" for j
    using r that by (simp add: s' W_def ring.addr_eq)
  have run: "rx_waiting L s = ring_run W 4 r 4"
    "rx_waiting L s' = ring_run (W(r := True)) 4 (Suc r mod 4) 4"
    unfolding rx_waiting_def idx r_def [symmetric] W_def [symmetric]
    by (auto intro!: ring_run_cong simp: W')
  note pop = ring_run_pop [OF r(1), of W, OF free, folded run]
  have range: "set (rx_waiting L s) \<subseteq> {..<4}"
    unfolding run by (rule ring_run_range [OF r(1)])
  have frames: "rx_frame L s' i = rx_frame L s i" if "i < 4" "i \<noteq> r" for i
    using r that by (simp add: rx_frame_def s' ring.addr_eq Let_def)
  show "rx_queue L s' = tl (rx_queue L s)"
    using pop range by (auto simp: rx_queue_def simp flip: map_tl intro!: frames dest: in_set_tl)
  show "rx_sync L s'" if "rx_sync L s"
    using that pop W' by (auto simp: rx_sync_def W_def)
qed

text \<open>
  C19. \<open>EMAC_RecvPktDone\<close>, called with a frame waiting, removes exactly the head of the receive
  queue, and so does its variant without the receive trigger; the other frames stay as they are
  and in order, and driver and EMAC stay in step if they were.
\<close>

theorem recv_pkt_done_pops:
  assumes "layout_ok L" "emac_reach L hw s" "rx_queue L s \<noteq> []"
  shows "rx_queue L (EMAC_RecvPktDone s) = tl (rx_queue L s) \<and>
    rx_queue L (EMAC_RecvPktDoneWoRxTrigger s) = tl (rx_queue L s) \<and>
    (rx_sync L s \<longrightarrow> rx_sync L (EMAC_RecvPktDone s))"
proof -
  have inv: "emac_inv L s" by (rule emac_inv_reach [OF assms(1,2)])
  let ?d = "desc s (u32CurrentRxDesc s)"
  have "own (?d\<lparr>u32Status1 := u32Status1 ?d OR msk 31\<rparr>)" by simp
  from rx_queue_tl [OF inv assms(3) _ _ this]
  show ?thesis
    using recv_done_wo_eq [OF inv] by (simp add: recv_done_trigger EMAC_TRIGGER_RX_def)
qed

lemma dma_store_dma:
  assumes "emac_inv L s" "i < 4" "own (desc s (desc_addr (rx_desc L) i))"
    "length bs \<le> unat (regs s MRFL)"
  shows "emac_dma L s (dma_store L i st bs s)"
  using assms
  by (auto simp: emac_dma_def dma_store_def Let_def write_bytes_def split: if_splits)

lemma dma_store_queue:
  assumes "layout_ok L" "emac_reach L hw s" "rx_sync L s"
    and "i = (rx_index L s + length (rx_queue L s)) mod 4" "length (rx_queue L s) < 4"
    and "length bs \<le> EMAC_MAX_PKT_SIZE" "unat (st AND 0xFFFF) = length bs" "\<not> bit st 31"
    and "\<forall>j < 4. unat (u32Status1 (desc s (desc_addr (rx_desc L) j)) AND 0xFFFF) \<le> EMAC_MAX_PKT_SIZE"
    and "unat (regs s MRFL) = EMAC_MAX_PKT_SIZE"
  shows "emac_dma L s (dma_store L i st bs s) \<and> rx_sync L (dma_store L i st bs s) \<and>
    rx_queue L (dma_store L i st bs s) = rx_queue L s @ [if bit st 20 then Some bs else None]"
proof -
  have inv: "emac_inv L s" by (rule emac_inv_reach [OF assms(1,2)])
  define r where "r = rx_index L s"
  define W where "W = (\<lambda>j. own (desc s (desc_addr (rx_desc L) j)))"
  define s' where "s' = dma_store L i st bs s"
  have r: "r < 4" using rx_index [OF inv] by (simp add: r_def)
  have run: "rx_waiting L s = ring_run W 4 r 4"
    by (simp add: rx_waiting_def r_def W_def)
  have i: "i < 4" using assms(4) by simp
  have store: "W i \<and> i \<notin> set (rx_waiting L s) \<and>
      ring_run (W(i := False)) 4 r 4 = rx_waiting L s @ [i]"
    using assms(3-5) unfolding run
    by (intro ring_run_store [OF r]) (auto simp: rx_queue_def run r_def rx_sync_def W_def)
  have data: "u32Data (desc s (desc_addr (rx_desc L) i)) = buf_addr (rx_buf L) i"
    using inv i by (simp add: emac_inv_def ring_ok_def Let_def)
  have s': "s' = s\<lparr>mem := write_bytes (buf_addr (rx_buf L) i) bs (mem s),
      desc := (desc s)(desc_addr (rx_desc L) i := (desc s (desc_addr (rx_desc L) i))\<lparr>u32Status1 := st\<rparr>)\<rparr>"
    by (simp add: s'_def dma_store_def Let_def data)
  have idx: "rx_index L s' = r" by (simp add: r_def rx_index_def s')
  have W': "own (desc s' (desc_addr (rx_desc L) j)) = (W(i := False)) j" if "j < 4" for j
    using i that assms(8) by (simp add: s' W_def ring.addr_eq)
  have run': "rx_waiting L s' = rx_waiting L s @ [i]"
    using store unfolding rx_waiting_def idx r_def [symmetric]
    by (subst ring_run_cong [where Q = "W(i := False)"]) (auto simp: W' r W_def)
  have other: "rx_frame L s' j = rx_frame L s j" if "j < 4" "j \<noteq> i" for j
    using that i write_other_buf [OF i that(1) _ assms(6)] assms(9)
    by (auto simp: rx_frame_def s' ring.addr_eq Let_def)
  have "length bs \<le> 2 ^ 32" using assms(6) by (simp add: EMAC_MAX_PKT_SIZE_def)
  then have new: "rx_frame L s' i = (if bit st 20 then Some bs else None)"
    using assms(7) by (simp add: rx_frame_def s' Let_def write_bytes_dst)
  have range: "set (rx_waiting L s) \<subseteq> {..<4} - {i}"
    using ring_run_range [OF r, of W 4] store by (auto simp: run)
  have "rx_queue L s' = rx_queue L s @ [if bit st 20 then Some bs else None]"
    using range unfolding rx_queue_def run' by (auto simp: new intro!: other)
  moreover have "emac_dma L s s'"
    unfolding s'_def using store i assms(6,10) by (intro dma_store_dma [OF inv]) (auto simp: W_def)
  moreover have "rx_sync L s'"
    using assms(3) W' by (auto simp: rx_sync_def run' W_def)
  ultimately show ?thesis by (simp add: s'_def)
qed


text \<open>
  A frame the EMAC stores in the first descriptor behind the waiting ones joins the receive
  queue at its end, disturbs no waiting frame and keeps driver and EMAC in step; the store is an
  action the DMA relation allows.
\<close>

theorem dma_store_enqueues:
  assumes "layout_ok L" "emac_reach L hw s" "rx_sync L s"
    and "i = (rx_index L s + length (rx_queue L s)) mod 4" "length (rx_queue L s) < 4"
    and "length bs \<le> EMAC_MAX_PKT_SIZE" "unat (st AND 0xFFFF) = length bs" "\<not> bit st 31"
    and "\<forall>j < 4. unat (u32Status1 (desc s (desc_addr (rx_desc L) j)) AND 0xFFFF) \<le> EMAC_MAX_PKT_SIZE"
    and "unat (regs s MRFL) = EMAC_MAX_PKT_SIZE"
  shows "emac_dma L s (dma_store L i st bs s) \<and> rx_sync L (dma_store L i st bs s) \<and>
    rx_queue L (dma_store L i st bs s) = rx_queue L s @ [if bit st 20 then Some bs else None]"
  using assms by (rule dma_store_queue)

section \<open>A concrete run\<close>

lemma board_rx:
  assumes "i < 4"
  shows "u32Status1 (desc board_open (desc_addr (rx_desc board_layout) i)) = msk 31"
    "rx_index board_layout board_open = 0" "regs board_open MRFL = 1524"
    "\<not> bit (regs board_open INTSTS) 11"
proof -
  show "u32Status1 (desc board_open (desc_addr (rx_desc board_layout) i)) = msk 31"
    using assms unfolding less_4
    by (auto simp: board_open_def emac_load_def EMAC_ENABLE_TX_def EMAC_ENABLE_RX_def emac_or_def
      EMAC_Open_def Let_def set_mac_frame EMAC_RxDescInit_def upt_4
      EMAC_RX_DESC_SIZE_def rx_desc_init_def desc_addr_def board_layout_def)
  show "rx_index board_layout board_open = 0"
    by (rule rx_index_eq)
       (auto simp: board_open_def emac_load_def EMAC_ENABLE_TX_def EMAC_ENABLE_RX_def emac_or_def
      EMAC_Open_def Let_def set_mac_frame EMAC_RxDescInit_def fold_desc_init_frame)
  show "regs board_open MRFL = 1524"
    by (simp add: board_open_def emac_load_def EMAC_ENABLE_TX_def EMAC_ENABLE_RX_def emac_or_def
        EMAC_Open_def Let_def emac_ro_def EMAC_MAX_PKT_SIZE_def)
  show "\<not> bit (regs board_open INTSTS) 11"
    by (simp add: board_open_def emac_load_def EMAC_ENABLE_TX_def EMAC_ENABLE_RX_def emac_or_def
        EMAC_Open_def Let_def set_mac_frame EMAC_RxDescInit_def EMAC_TxDescInit_def
        fold_desc_init_frame emac_boot_def)
qed

lemma board_rx_empty: "rx_waiting board_layout board_open = []" "rx_queue board_layout board_open = []"
  using board_rx [of 0] by (simp_all add: rx_waiting_def rx_queue_def ring_run_4)

text \<open>One frame of three bytes arrives in the freshly opened driver.\<close>

definition board_rx1 :: emac where
  "board_rx1 = dma_store board_layout 0 0x00100003 [1, 2, 3] board_open"

lemma board_rx1_reach: "emac_reach board_layout phy_up board_rx1"
proof -
  have "emac_dma board_layout board_open board_rx1"
    unfolding board_rx1_def using board_rx [of 0]
    by (intro dma_store_dma emac_inv_reach [OF board_layout_ok board_reach]) simp_all
  then show ?thesis using board_reach by (meson emac_reach.step emac_step.dma)
qed

lemma board_sync: "rx_sync board_layout board_open"
  using board_rx by (simp add: rx_sync_def)

lemma board_status: "unat ((0x00100003 :: u32) AND 0xFFFF) = 3" "bit (0x00100003 :: u32) 20"
  "\<not> bit (0x00100003 :: u32) 31"
  by (simp_all add: bit_numeral_rec)

lemma board_rx1_queue: "rx_queue board_layout board_rx1 = [Some [1, 2, 3]]"
  using dma_store_queue [OF board_layout_ok board_reach board_sync, of 0 "[1, 2, 3]" "0x00100003"]
    board_rx [of 0] board_rx board_status
  by (simp add: board_rx1_def board_rx_empty EMAC_MAX_PKT_SIZE_def msk_def)

theorem dma_store_enqueues_witness:
  "rx_queue board_layout (dma_store board_layout 0 0x00100003 [1, 2, 3] board_open) = [Some [1, 2, 3]]"
  using dma_store_enqueues [OF board_layout_ok board_reach board_sync, of 0 "[1, 2, 3]" "0x00100003"]
    board_rx [of 0] board_rx board_status
  by (simp add: board_rx_empty EMAC_MAX_PKT_SIZE_def msk_def)

theorem recv_pkt_delivers_head_witness:
  "fst (EMAC_RecvPkt 0x20005000 board_rx1) = 1 \<and>
   read_bytes (mem (snd (snd (EMAC_RecvPkt 0x20005000 board_rx1)))) 0x20005000 3 = [1, 2, 3]"
proof -
  have "\<not> bit (regs board_rx1 INTSTS) 11"
    using board_rx [of 0] by (simp add: board_rx1_def dma_store_def Let_def)
  then show ?thesis
    using recv_pkt_delivers_head [OF board_layout_ok board_rx1_reach, of "0x20005000"] board_rx1_queue
    by (simp add: case_prod_beta numeral_3_eq_3)
qed

theorem recv_pkt_done_pops_witness:
  "rx_queue board_layout (EMAC_RecvPktDone board_rx1) = []"
  using recv_pkt_done_pops [OF board_layout_ok board_rx1_reach] board_rx1_queue by simp

section \<open>Departures from the contract\<close>

text \<open>
  \<open>EMAC_RecvPktDone\<close> with no frame waiting puts the driver out of step with the EMAC: it moves
  \<open>u32CurrentRxDesc\<close> past the descriptor the EMAC fills next, so that from an idle ring the next
  frame is stored and the receive queue stays empty.
\<close>

theorem recv_pkt_done_idle_desync:
  assumes "layout_ok L" "emac_reach L hw s"
    and idle: "\<forall>j < 4. own (desc s (desc_addr (rx_desc L) j))" and "\<not> bit st 31"
  shows "rx_queue L (dma_store L (rx_index L s) st bs (EMAC_RecvPktDone s)) = []"
proof -
  have inv: "emac_inv L s" by (rule emac_inv_reach [OF assms(1,2)])
  define r where "r = rx_index L s"
  note r = rx_index [OF inv, folded r_def]
  define t where "t = dma_store L r st bs (EMAC_RecvPktDone s)"
  have m: "Suc r mod 4 \<noteq> r" "Suc r mod 4 < 4" using r(1) by (auto simp: mod_Suc)
  have "u32CurrentRxDesc t = desc_addr (rx_desc L) (Suc r mod 4)"
    using recv_done_wo_eq [OF inv]
    by (simp add: t_def dma_store_def Let_def recv_done_trigger EMAC_TRIGGER_RX_def r_def)
  then have idx: "rx_index L t = Suc r mod 4" using m(2) by (intro rx_index_eq)
  have "own (desc t (desc_addr (rx_desc L) (Suc r mod 4)))"
    using idle m r recv_done_wo_eq [OF inv]
    by (simp add: t_def dma_store_def Let_def recv_done_trigger EMAC_TRIGGER_RX_def ring.addr_eq)
  then show ?thesis
    unfolding r_def [symmetric] t_def [symmetric]
    by (simp add: rx_queue_def rx_waiting_def idx ring_run_4)
qed

theorem recv_pkt_done_idle_desync_witness:
  "rx_queue board_layout (dma_store board_layout 0 0x00100003 [1, 2, 3]
     (EMAC_RecvPktDone board_open)) = []"
  using recv_pkt_done_idle_desync [OF board_layout_ok board_reach, of "0x00100003" "[1, 2, 3]"]
    board_rx [of 0] board_rx board_status by simp

text \<open>
  \<open>EMAC_SendPktDone\<close> on an idle transmit ring counts old packets again: when the EMAC owns no
  transmit descriptor and has caught up with \<open>u32CurrentTxDesc\<close>, the call goes once around the whole
  ring, returns the number of descriptors that still carry a completion bit, and ends where it
  started, so calling it again returns the same number again.
\<close>

theorem send_pkt_done_idle_recounts:
  assumes "layout_ok L" "emac_reach L hw s"
    and idle: "\<forall>j < 4. \<not> own (desc s (desc_addr (tx_desc L) j))"
    and "regs s CTXDSA = u32CurrentTxDesc s" "\<not> bit (regs s INTSTS) 24"
  shows "\<exists>s'. EMAC_SendPktDone s =
      Some (of_nat (card {j. j < 4 \<and> bit (u32Status2 (desc s (desc_addr (tx_desc L) j))) 19}), s') \<and>
    u32CurrentTxDesc s' = u32CurrentTxDesc s \<and> desc s' = desc s"
proof -
  have inv: "emac_inv L s" by (rule emac_inv_reach [OF assms(1,2)])
  obtain c n r h where i: "c < 4" "n < 4" "r < 4" "h < 4"
    "u32CurrentTxDesc s = desc_addr (tx_desc L) c" "u32NextTxDesc s = desc_addr (tx_desc L) n"
    "u32CurrentRxDesc s = desc_addr (rx_desc L) r" "regs s CTXDSA = desc_addr (tx_desc L) h"
    using emac_inv_idx [OF inv] .
  have hc: "h = c" using assms(4) i by (simp add: ring.addr_eq)
  let ?W = "\<lambda>i. own (desc s (desc_addr (tx_desc L) i))"
  let ?C = "\<lambda>i. bit (u32Status2 (desc s (desc_addr (tx_desc L) i))) 19"
  have run: "ring_run ?W 4 c (ring_dist 4 c h) = map (\<lambda>j. (c + j) mod 4) [0..<4]"
    using i(1) idle by (intro ring_run_eqI) (auto simp: ring_dist_def hc)
  have inj: "inj_on (\<lambda>j. (c + j) mod 4) {0..<4}"
    using ring_pos_inj by (auto simp: inj_on_def)
  then have "(\<lambda>j. (c + j) mod 4) ` {0..<4} = {..<4}"
    by (intro card_subset_eq) (auto simp: card_image)
  then have set_run: "set (map (\<lambda>j. (c + j) mod 4) [0..<4]) = {..<4}" by simp
  have "length (filter ?C (map (\<lambda>j. (c + j) mod 4) [0..<4])) = card {j. j < 4 \<and> ?C j}"
    using inj set_run
    by (subst distinct_card [symmetric]) (auto simp: distinct_map intro!: arg_cong [of _ _ card] distinct_filter)
  moreover have ok: "ring_ok (tx_desc L) (tx_buf L) (desc s)" using inv by (simp add: emac_inv_def)
  moreover have "restore (desc_addr (tx_desc L) ` {..<4}) (desc s) = desc s"
    by (rule ring_ok_restore_set [OF ok]) simp
  ultimately show ?thesis
    using send_done_eq [OF ring_ok_linked [OF ok] i(1,4,5,8)] assms(5) i(1,5) set_run
    unfolding run by (auto simp: Let_def)
qed


text \<open>The board sends one packet, the EMAC completes it, and \<open>EMAC_SendPktDone\<close> reports it.\<close>

definition dma_complete :: "u32 \<Rightarrow> emac \<Rightarrow> emac" where
  "dma_complete st s =
    (let a = regs s CTXDSA; d = desc s a in
     s\<lparr>desc := (desc s)(a := d\<lparr>u32Status1 := u32Status1 d AND NOT (msk 31), u32Status2 := st\<rparr>),
       regs := (regs s)(CTXDSA := u32Next d)\<rparr>)"

definition board_sent :: emac where
  "board_sent = dma_complete 0x0008003c (snd (EMAC_SendPkt 0x20005000 60 board_open))"

lemma board_open_tx:
  "u32CurrentTxDesc board_open = 0x20000000" "u32NextTxDesc board_open = 0x20000000"
  "regs board_open CTXDSA = 0x20000000" "regs board_open INTSTS = 0"
  by (simp_all add: board_open_def emac_load_def EMAC_ENABLE_TX_def EMAC_ENABLE_RX_def emac_or_def
      EMAC_Open_def Let_def set_mac_frame EMAC_RxDescInit_def EMAC_TxDescInit_def
      fold_desc_init_frame emac_boot_def emac_ro_def desc_addr_def board_layout_def)

lemma board_open_desc:
  assumes "i < 4"
  shows "desc board_open (desc_addr 0x20000000 i) = \<lparr>u32Status1 = 0xf, u32Data = buf_addr 0x200000c0 i,
    u32Status2 = 0, u32Next = desc_addr 0x20000000 (Suc i mod 4), u32Backup1 = buf_addr 0x200000c0 i,
    u32Backup2 = desc_addr 0x20000000 (Suc i mod 4)\<rparr>"
  using assms unfolding less_4
  by (auto simp: board_open_def emac_load_def EMAC_ENABLE_TX_def EMAC_ENABLE_RX_def emac_or_def
      EMAC_Open_def Let_def set_mac_frame EMAC_RxDescInit_def EMAC_TxDescInit_def upt_4
      EMAC_TX_DESC_SIZE_def EMAC_RX_DESC_SIZE_def tx_desc_init_def rx_desc_init_def desc_addr_def
      board_layout_def emac_boot_def msk_def)


lemma board_sent_desc:
  "u32CurrentTxDesc board_sent = desc_addr 0x20000000 0" "regs board_sent CTXDSA = desc_addr 0x20000000 1"
  "regs board_sent INTSTS = 0"
  "i < 4 \<Longrightarrow> \<not> own (desc board_sent (desc_addr 0x20000000 i))"
  "i < 4 \<Longrightarrow> u32Status2 (desc board_sent (desc_addr 0x20000000 i)) = (if i = 0 then 0x0008003c else 0)"
  "emac_reach board_layout phy_up board_sent"
proof -
  define t where "t = snd (EMAC_SendPkt 0x20005000 60 board_open)"
  have a0: "0x20000000 = desc_addr 0x20000000 0" by (simp add: desc_addr_def)
  note d = board_open_desc [of 0, simplified]
  have free: "\<not> bit (0xf :: u32) 31" by (simp add: bit_numeral_rec)
  have t: "u32CurrentTxDesc t = 0x20000000" "regs t CTXDSA = 0x20000000" "regs t INTSTS = 0"
    "desc t = (desc board_open)(desc_addr 0x20000000 0 := (desc board_open (desc_addr 0x20000000 0))
        \<lparr>u32Status1 := 0xf OR msk 31, u32Status2 := 60\<rparr>)"
    using d free
    by (simp_all add: t_def EMAC_SendPkt_def Let_def board_open_tx EMAC_TRIGGER_TX_def flip: a0)
  have sent: "board_sent = dma_complete 0x0008003c t" by (simp add: board_sent_def t_def)
  have low: "(0xf OR msk 31) AND NOT (msk 31) = (0xf :: u32)"
    by (simp add: msk_def)
  have desc: "desc board_sent = (desc board_open)(desc_addr 0x20000000 0 :=
      (desc board_open (desc_addr 0x20000000 0))\<lparr>u32Status2 := 0x0008003c\<rparr>)"
    using t d low by (simp add: sent dma_complete_def Let_def flip: a0)
  show "u32CurrentTxDesc board_sent = desc_addr 0x20000000 0"
    "regs board_sent CTXDSA = desc_addr 0x20000000 1" "regs board_sent INTSTS = 0"
    using t d by (simp_all add: sent dma_complete_def Let_def flip: a0)
  show "i < 4 \<Longrightarrow> \<not> own (desc board_sent (desc_addr 0x20000000 i))"
    using d free board_open_desc [of i] by (simp add: desc)
  show "i < 4 \<Longrightarrow> u32Status2 (desc board_sent (desc_addr 0x20000000 i)) = (if i = 0 then 0x0008003c else 0)"
    using d board_open_desc [of i] by (simp add: desc ring.addr_eq)
  have "emac_reach board_layout phy_up t"
    using board_reach by (rule emac_reach.step) (unfold t_def, rule emac_step.send [OF surjective_pairing])
  moreover have "emac_dma board_layout t board_sent"
    using t by (auto simp: emac_dma_def sent dma_complete_def Let_def hw_regs_def a0 [symmetric])
  ultimately show "emac_reach board_layout phy_up board_sent"
    by (meson emac_reach.step emac_step.dma)
qed

theorem send_pkt_done_idle_recounts_witness:
  "\<exists>s1 s2. EMAC_SendPktDone board_sent = Some (1, s1) \<and> EMAC_SendPktDone s1 = Some (1, s2)"
proof -
  let ?A = "desc_addr 0x20000000"
  have tx: "tx_desc board_layout = 0x20000000" by (simp add: board_layout_def)
  note b = board_sent_desc
  have ok: "ring_ok (tx_desc board_layout) (tx_buf board_layout) (desc board_sent)"
    using emac_inv_reach [OF board_layout_ok b(6)] by (simp add: emac_inv_def)
  have bits: "bit (0x0008003c :: u32) 19" by (simp add: bit_numeral_rec)
  define s1 where "s1 = (ack_tx board_sent)\<lparr>desc := restore (?A ` {0}) (desc board_sent),
      u32CurrentTxDesc := ?A 1\<rparr>"
  have s1: "EMAC_SendPktDone board_sent = Some (1, s1)"
    using send_done_eq [of "0x20000000" board_sent 0 1] ring_ok_linked [OF ok] b(1-3) b(4,5) [of 0] bits
    by (simp add: tx ring_dist_def s1_def)
  have reach: "emac_reach board_layout phy_up s1"
    using b(6) s1 by (meson emac_reach.step emac_step.send_done)
  have "{j. j < 4 \<and> bit (u32Status2 (desc s1 (?A j))) 19} = {0}"
    using b(5) bits by (auto simp: s1_def split: if_splits)
  moreover have "\<forall>j < 4. \<not> own (desc s1 (?A j))" using b(4) by (simp add: s1_def)
  ultimately show ?thesis
    using send_pkt_done_idle_recounts [OF board_layout_ok reach] s1 b(2,3) tx
    by (auto simp: s1_def ack_tx_def emac_wr_def emac_ro_def)
qed


text \<open>
  The ownership test of \<open>EMAC_RecvPktTS\<close> is written with \<open>|\<close> where \<open>EMAC_RecvPkt\<close> has \<open>&\<close>. A
  descriptor that was given back to the EMAC keeps the status of its last frame, so the time-stamp
  variant delivers that frame again where the other finds nothing.
\<close>

lemma recv_pkt_ts_stale:
  assumes "own (desc s (u32CurrentRxDesc s))" "bit (u32Status1 (desc s (u32CurrentRxDesc s))) 20"
    "regs s CRXDSA \<noteq> u32CurrentRxDesc s" "\<not> bit (regs s INTSTS) 11"
  shows "fst (EMAC_RecvPkt p s) = 0 \<and> fst (EMAC_RecvPktTS p s) = 1"
proof -
  let ?st = "u32Status1 (desc s (u32CurrentRxDesc s))"
  have "bit (?st OR msk 31) 20" "\<not> bit (msk 31) 20" using assms(2) by simp_all
  then have "?st OR msk 31 \<noteq> msk 31" by metis
  then show ?thesis
    using assms by (simp add: EMAC_RecvPkt_def EMAC_RecvPktTS_def Let_def emac_rd_def)
qed

text \<open>
  \<open>EMAC_TxDescInit\<close> requests a transmit time stamp in every descriptor exactly when the time-stamp
  switch is off; the switch itself is never written.
\<close>

lemma tx_desc_init_ttsen:
  assumes "i < 4"
  shows "bit (u32Status1 (desc (EMAC_TxDescInit L s) (desc_addr (tx_desc L) i))) 3 = (s_u32EnableTs s = 0)"
  using assms unfolding less_4
  by (auto simp: EMAC_TxDescInit_def Let_def upt_4 EMAC_TX_DESC_SIZE_def tx_desc_init_def ring.addr_eq)

end
