(* ===== verification/Lwip_Mem.thy ===== *)
theory Lwip_Mem
  imports Net_Prelude
begin

text \<open>
  The heap of \<open>lwIP/core/mem.c\<close> as this firmware configures it: 16-bit \<open>mem_size_t\<close>, alignment 4, 30720
  bytes, no sanity or overflow checks, no freeing from another context. A \<open>struct mem\<close> is identified
  by its offset from \<open>ram\<close>, so \<open>ptr_to_mem\<close> is the identity; pointers that cross the interface are
  addresses. Values of \<open>mem_size_t\<close> are natural numbers with the truncation written out where the
  code casts, and the mixed comparisons the compiler does in 32 bits are written with \<open>usub32\<close>.
\<close>

section \<open>Configuration\<close>

definition LWIP_MEM_ALIGN_SIZE :: "nat \<Rightarrow> nat" where
  "LWIP_MEM_ALIGN_SIZE n = (n + 3) div 4 * 4"

definition MIN_SIZE_ALIGNED :: nat where "MIN_SIZE_ALIGNED = LWIP_MEM_ALIGN_SIZE 12"
definition SIZEOF_STRUCT_MEM :: nat where "SIZEOF_STRUCT_MEM = LWIP_MEM_ALIGN_SIZE 6"
definition MEM_SIZE_ALIGNED :: nat where "MEM_SIZE_ALIGNED = LWIP_MEM_ALIGN_SIZE (30 * 1024)"

lemma mem_consts [simp]:
  "MIN_SIZE_ALIGNED = 12" "SIZEOF_STRUCT_MEM = 8" "MEM_SIZE_ALIGNED = 30720"
  by (simp_all add: MIN_SIZE_ALIGNED_def SIZEOF_STRUCT_MEM_def MEM_SIZE_ALIGNED_def
      LWIP_MEM_ALIGN_SIZE_def)

definition mem_size_t :: "nat \<Rightarrow> nat" where
  "mem_size_t n = n mod 65536"

definition usub32 :: "nat \<Rightarrow> nat \<Rightarrow> nat" where
  "usub32 a b = (a + 4294967296 - b) mod 4294967296"

lemma usub32_le: "b \<le> a \<Longrightarrow> a < 4294967296 \<Longrightarrow> usub32 a b = a - b"
proof -
  assume "b \<le> a" "a < 4294967296"
  then have "a + 4294967296 - b = (a - b) + 4294967296" by simp
  then show ?thesis using \<open>a < 4294967296\<close> by (simp only: usub32_def mod_add_self2) simp
qed

section \<open>State\<close>

record mem_struct =
  mem_next :: nat
  mem_prev :: nat
  mem_used :: nat

record heap =
  ram :: nat
  blk :: "nat \<Rightarrow> mem_struct"
  lfree :: nat

definition ptr_to_mem :: "nat \<Rightarrow> nat" where "ptr_to_mem ptr = ptr"
definition mem_to_ptr :: "nat \<Rightarrow> nat" where "mem_to_ptr mem = mem_size_t mem"
definition ram_end :: nat where "ram_end = ptr_to_mem MEM_SIZE_ALIGNED"

definition upd_blk :: "nat \<Rightarrow> (mem_struct \<Rightarrow> mem_struct) \<Rightarrow> heap \<Rightarrow> heap" where
  "upd_blk a f h = h\<lparr>blk := (blk h)(a := f (blk h a))\<rparr>"

section \<open>Operations\<close>

text \<open>The two halves of \<open>plug_holes\<close> combine an empty block with the empty one behind it.\<close>

definition mem_join :: "nat \<Rightarrow> nat \<Rightarrow> heap \<Rightarrow> heap" where
  "mem_join mem nmem h =
    (let h = (if lfree h = nmem then h\<lparr>lfree := mem\<rparr> else h);
         h = upd_blk mem (\<lambda>m. m\<lparr>mem_next := mem_next (blk h nmem)\<rparr>) h
     in if mem_next (blk h nmem) \<noteq> MEM_SIZE_ALIGNED
        then upd_blk (ptr_to_mem (mem_next (blk h nmem))) (\<lambda>m. m\<lparr>mem_prev := mem_to_ptr mem\<rparr>) h
        else h)"

definition plug_holes :: "nat \<Rightarrow> heap \<Rightarrow> heap" where
  "plug_holes mem h =
    (let nmem = ptr_to_mem (mem_next (blk h mem));
         h = (if mem \<noteq> nmem \<and> mem_used (blk h nmem) = 0 \<and> nmem \<noteq> ram_end
              then mem_join mem nmem h else h);
         pmem = ptr_to_mem (mem_prev (blk h mem))
     in if pmem \<noteq> mem \<and> mem_used (blk h pmem) = 0 then mem_join pmem mem h else h)"

definition mem_init :: "nat \<Rightarrow> heap \<Rightarrow> heap" where
  "mem_init ram_heap h =
    (let h = h\<lparr>ram := LWIP_MEM_ALIGN_SIZE ram_heap\<rparr>;
         h = upd_blk 0 (\<lambda>m. m\<lparr>mem_next := MEM_SIZE_ALIGNED, mem_prev := 0, mem_used := 0\<rparr>) h;
         h = upd_blk ram_end (\<lambda>m. m\<lparr>mem_used := 1, mem_next := MEM_SIZE_ALIGNED,
               mem_prev := MEM_SIZE_ALIGNED\<rparr>) h
     in h\<lparr>lfree := 0\<rparr>)"

definition mem_link_valid :: "nat \<Rightarrow> heap \<Rightarrow> bool" where
  "mem_link_valid mem h =
    (let rmem_idx = mem_to_ptr mem;
         nmem = ptr_to_mem (mem_next (blk h mem));
         pmem = ptr_to_mem (mem_prev (blk h mem))
     in \<not> (mem_next (blk h mem) > MEM_SIZE_ALIGNED \<or> mem_prev (blk h mem) > MEM_SIZE_ALIGNED \<or>
           mem_prev (blk h mem) \<noteq> rmem_idx \<and> mem_next (blk h pmem) \<noteq> rmem_idx \<or>
           nmem \<noteq> ram_end \<and> mem_prev (blk h nmem) \<noteq> rmem_idx))"

text \<open>The pointer argument is an address; \<open>NULL\<close> is zero.\<close>

definition mem_free :: "nat \<Rightarrow> heap \<Rightarrow> heap" where
  "mem_free rmem h =
    (if rmem = 0 then h
     else if rmem mod 4 \<noteq> 0 then h
     else let mem = usub32 rmem SIZEOF_STRUCT_MEM
     in if mem < ram h \<or> rmem + MIN_SIZE_ALIGNED > ram h + ram_end then h
     else let mem = mem - ram h
     in if mem_used (blk h mem) = 0 then h
     else if \<not> mem_link_valid mem h then h
     else let h = upd_blk mem (\<lambda>m. m\<lparr>mem_used := 0\<rparr>) h;
              h = (if mem < lfree h then h\<lparr>lfree := mem\<rparr> else h)
          in plug_holes mem h)"

text \<open>
  The block at \<open>ptr\<close> is taken for \<open>sz\<close> bytes: a large block is split, and its remainder inserted
  behind it.
\<close>

definition mem_take :: "nat \<Rightarrow> nat \<Rightarrow> heap \<Rightarrow> heap" where
  "mem_take sz ptr h =
    (let mem = ptr_to_mem ptr
     in if usub32 (mem_next (blk h mem)) (ptr + SIZEOF_STRUCT_MEM)
           \<ge> sz + SIZEOF_STRUCT_MEM + MIN_SIZE_ALIGNED then
          let ptr2 = mem_size_t (ptr + SIZEOF_STRUCT_MEM + sz);
              mem2 = ptr_to_mem ptr2;
              h = upd_blk mem2 (\<lambda>m. m\<lparr>mem_used := 0\<rparr>) h;
              h = upd_blk mem2 (\<lambda>m. m\<lparr>mem_next := mem_next (blk h mem)\<rparr>) h;
              h = upd_blk mem2 (\<lambda>m. m\<lparr>mem_prev := ptr\<rparr>) h;
              h = upd_blk mem (\<lambda>m. m\<lparr>mem_next := ptr2, mem_used := 1\<rparr>) h
          in if mem_next (blk h mem2) \<noteq> MEM_SIZE_ALIGNED
             then upd_blk (ptr_to_mem (mem_next (blk h mem2))) (\<lambda>m. m\<lparr>mem_prev := ptr2\<rparr>) h
             else h
        else upd_blk mem (\<lambda>m. m\<lparr>mem_used := 1\<rparr>) h)"

text \<open>\<open>while (cur->used && cur != ram_end) cur = ptr_to_mem(cur->next);\<close>\<close>

partial_function (option) next_free :: "heap \<Rightarrow> nat \<Rightarrow> nat option" where
  "next_free h cur =
    (if mem_used (blk h cur) \<noteq> 0 \<and> cur \<noteq> ram_end
     then next_free h (ptr_to_mem (mem_next (blk h cur))) else Some cur)"

text \<open>The search loop; links that form a cycle would make it run forever, which is \<open>None\<close>.\<close>

partial_function (option) malloc_scan :: "nat \<Rightarrow> heap \<Rightarrow> nat \<Rightarrow> (nat \<times> heap) option" where
  "malloc_scan sz h ptr =
    (if ptr < MEM_SIZE_ALIGNED - sz then
       let mem = ptr_to_mem ptr
       in if mem_used (blk h mem) = 0 \<and>
             usub32 (mem_next (blk h mem)) (ptr + SIZEOF_STRUCT_MEM) \<ge> sz then
            let h' = mem_take sz ptr h
            in if mem = lfree h' then
                 case next_free h' (lfree h') of
                   None \<Rightarrow> None
                 | Some cur \<Rightarrow> Some (ram h + mem + SIZEOF_STRUCT_MEM, h'\<lparr>lfree := cur\<rparr>)
               else Some (ram h + mem + SIZEOF_STRUCT_MEM, h')
          else malloc_scan sz h (mem_next (blk h (ptr_to_mem ptr)))
     else Some (0, h))"

definition mem_malloc :: "nat \<Rightarrow> heap \<Rightarrow> (nat \<times> heap) option" where
  "mem_malloc size_in h =
    (if size_in = 0 then Some (0, h)
     else let sz = mem_size_t (LWIP_MEM_ALIGN_SIZE size_in);
              sz = (if sz < MIN_SIZE_ALIGNED then MIN_SIZE_ALIGNED else sz)
     in if sz > MEM_SIZE_ALIGNED \<or> sz < size_in then Some (0, h)
     else malloc_scan sz h (mem_to_ptr (lfree h)))"

text \<open>The block \<open>mem\<close> ends at \<open>ptr2\<close>, where an empty block up to \<open>nxt\<close> is linked in.\<close>

definition trim_link :: "nat \<Rightarrow> nat \<Rightarrow> nat \<Rightarrow> heap \<Rightarrow> heap" where
  "trim_link mem ptr2 nxt h =
    (let mem2 = ptr_to_mem ptr2;
         h = upd_blk mem2 (\<lambda>m. m\<lparr>mem_used := 0, mem_next := nxt, mem_prev := mem_to_ptr mem\<rparr>) h;
         h = upd_blk mem (\<lambda>m. m\<lparr>mem_next := ptr2\<rparr>) h
     in if mem_next (blk h mem2) \<noteq> MEM_SIZE_ALIGNED
        then upd_blk (ptr_to_mem (mem_next (blk h mem2))) (\<lambda>m. m\<lparr>mem_prev := ptr2\<rparr>) h else h)"

definition mem_trim :: "nat \<Rightarrow> nat \<Rightarrow> heap \<Rightarrow> nat \<times> heap" where
  "mem_trim rmem new_size h =
    (let newsize = mem_size_t (LWIP_MEM_ALIGN_SIZE new_size);
         newsize = (if newsize < MIN_SIZE_ALIGNED then MIN_SIZE_ALIGNED else newsize)
     in if newsize > MEM_SIZE_ALIGNED \<or> newsize < new_size then (0, h)
     else if rmem < ram h \<or> rmem \<ge> ram h + ram_end then (rmem, h)
     else let mem = usub32 rmem SIZEOF_STRUCT_MEM - ram h;
              ptr = mem_to_ptr mem;
              sz = mem_size_t (usub32 (mem_size_t (usub32 (mem_next (blk h mem)) ptr)) SIZEOF_STRUCT_MEM)
     in if newsize > sz then (0, h)
     else if newsize = sz then (rmem, h)
     else let mem2 = ptr_to_mem (mem_next (blk h mem));
              ptr2 = mem_size_t (ptr + SIZEOF_STRUCT_MEM + newsize)
     in if mem_used (blk h mem2) = 0 then
          let nxt = mem_next (blk h mem2);
              h = (if lfree h = mem2 then h\<lparr>lfree := ptr_to_mem ptr2\<rparr> else h)
          in (rmem, trim_link mem ptr2 nxt h)
        else if newsize + SIZEOF_STRUCT_MEM + MIN_SIZE_ALIGNED \<le> sz then
          let h = (if ptr_to_mem ptr2 < lfree h then h\<lparr>lfree := ptr_to_mem ptr2\<rparr> else h)
          in (rmem, trim_link mem ptr2 (mem_next (blk h mem)) h)
        else (rmem, h))"

text \<open>\<open>mem_calloc\<close> also zeroes the block in byte memory.\<close>

definition mem_calloc :: "nat \<Rightarrow> nat \<Rightarrow> heap \<times> memory \<Rightarrow> (nat \<times> heap \<times> memory) option" where
  "mem_calloc count sz hm =
    (let alloc_size = count * sz mod 4294967296
     in if mem_size_t alloc_size \<noteq> alloc_size then Some (0, hm)
     else case mem_malloc (mem_size_t alloc_size) (fst hm) of
            None \<Rightarrow> None
          | Some (p, h) \<Rightarrow>
              Some (p, h, if p \<noteq> 0 then write_bytes (of_nat p) (replicate alloc_size 0) (snd hm) else snd hm))"

end
