(* ===== verification/Lwip_Heap.thy ===== *)
theory Lwip_Heap
  imports Lwip_Mem
begin

text \<open>
  Correctness of the heap. The chain of \<open>struct mem\<close>s is abstracted to the list of its blocks, each
  an offset with a used flag; the invariant says that this list tiles the heap, that the links
  agree in both directions, that no two neighbours are free and that \<open>lfree\<close> is the lowest free
  block. Allocation, release and trimming are shown to refine a first-fit allocator on that list.
\<close>

type_synonym blocks = "(nat \<times> bool) list"

section \<open>The chain of blocks\<close>

text \<open>The offset where a list of blocks starts, with the end of the heap behind the last one.\<close>

definition start :: "blocks \<Rightarrow> nat \<Rightarrow> nat" where
  "start xs e = (case xs of [] \<Rightarrow> e | (b, u) # _ \<Rightarrow> b)"

definition final :: "nat \<Rightarrow> blocks \<Rightarrow> nat" where
  "final p xs = (if xs = [] then p else fst (last xs))"

fun seg :: "(nat \<Rightarrow> mem_struct) \<Rightarrow> nat \<Rightarrow> blocks \<Rightarrow> nat \<Rightarrow> bool" where
  "seg B p [] e = True"
| "seg B p ((b, u) # xs) e =
    (B b = \<lparr>mem_next = start xs e, mem_prev = p, mem_used = (if u then 1 else 0)\<rparr> \<and>
     b + 20 \<le> start xs e \<and> 4 dvd b \<and> seg B b xs e)"

lemma start_simps [simp]: "start [] e = e" "start ((b, u) # xs) e = b"
  by (simp_all add: start_def)

lemma start_append: "start (xs @ ys) e = start xs (start ys e)"
  by (cases xs) (auto simp: start_def)

lemma final_simps [simp]: "final p [] = p" "final p ((b, u) # xs) = final b xs"
  by (simp_all add: final_def)

lemma final_append: "final p (xs @ ys) = final (final p xs) ys"
  by (auto simp: final_def)

lemma seg_append: "seg B p (xs @ ys) e \<longleftrightarrow> seg B p xs (start ys e) \<and> seg B (final p xs) ys e"
  by (induction B p xs e rule: seg.induct) (auto simp: start_append)

lemma seg_start_le: "seg B p xs e \<Longrightarrow> start xs e \<le> e"
  by (induction B p xs e rule: seg.induct) auto

lemma seg_bounds: "seg B p xs e \<Longrightarrow> (b, u) \<in> set xs \<Longrightarrow> start xs e \<le> b \<and> b + 20 \<le> e"
proof (induction B p xs e rule: seg.induct)
  case (2 B p c v xs e)
  have "seg B c xs e" "c + 20 \<le> start xs e" using 2(2) by simp_all
  moreover have "start xs e \<le> e" using seg_start_le [OF \<open>seg B c xs e\<close>] .
  ultimately show ?case using 2(1,3) by fastforce
qed simp

lemma seg_cong:
  "\<forall>b \<in> fst ` set xs. B' b = B b \<Longrightarrow> seg B' p xs e = seg B p xs e"
  by (induction B p xs e rule: seg.induct) simp_all

lemma seg_distinct: "seg B p xs e \<Longrightarrow> distinct (map fst xs)"
proof (induction B p xs e rule: seg.induct)
  case (2 B p c v xs e)
  then show ?case using seg_bounds [of B c xs e c] by fastforce
qed simp

lemma seg_blk:
  assumes "seg B p (xs @ (b, u) # ys) e"
  shows "B b = \<lparr>mem_next = start ys e, mem_prev = final p xs, mem_used = (if u then 1 else 0)\<rparr>"
    "b + 20 \<le> start ys e" "4 dvd b" "start ys e \<le> e"
  using assms by (auto simp: seg_append seg_start_le)

section \<open>The invariant\<close>

fun no_adj :: "blocks \<Rightarrow> bool" where
  "no_adj ((b, u) # (c, v) # xs) = ((u \<or> v) \<and> no_adj ((c, v) # xs))"
| "no_adj xs = True"

definition lowest_free :: "blocks \<Rightarrow> nat" where
  "lowest_free xs = start (filter (\<lambda>x. \<not> snd x) xs) MEM_SIZE_ALIGNED"

definition heap_rep :: "heap \<Rightarrow> blocks \<Rightarrow> bool" where
  "heap_rep h xs \<longleftrightarrow> seg (blk h) 0 xs MEM_SIZE_ALIGNED \<and> start xs MEM_SIZE_ALIGNED = 0 \<and>
    lfree h = lowest_free xs \<and>
    blk h MEM_SIZE_ALIGNED = \<lparr>mem_next = MEM_SIZE_ALIGNED, mem_prev = MEM_SIZE_ALIGNED, mem_used = 1\<rparr> \<and>
    4 dvd ram h \<and> 0 < ram h \<and> ram h + MEM_SIZE_ALIGNED + SIZEOF_STRUCT_MEM \<le> 4294967296"

definition heap_ok :: "heap \<Rightarrow> blocks \<Rightarrow> bool" where
  "heap_ok h xs \<longleftrightarrow> heap_rep h xs \<and> no_adj xs"

text \<open>The first-fit allocator on the block list.\<close>

fun amalloc :: "nat \<Rightarrow> blocks \<Rightarrow> nat \<Rightarrow> (nat \<times> blocks) option" where
  "amalloc n [] e = None"
| "amalloc n ((b, u) # xs) e =
    (let room = start xs e - (b + 8) in
     if \<not> u \<and> n \<le> room
     then Some (b, (b, True) # (if n + 20 \<le> room then (b + 8 + n, False) # xs else xs))
     else map_option (\<lambda>(a, ys). (a, (b, u) # ys)) (amalloc n xs e))"

lemma amalloc_skip:
  "\<forall>x \<in> set ps. snd x \<Longrightarrow>
    amalloc n (ps @ qs) e = map_option (\<lambda>(a, ys). (a, ps @ ys)) (amalloc n qs e)"
proof (induction ps)
  case Nil
  then show ?case by (cases "amalloc n qs e") auto
next
  case (Cons x ps)
  then show ?case
    by (cases x; cases "amalloc n qs e") auto
qed

text \<open>What a successful search found: a free block large enough behind blocks that are not.\<close>

lemma amalloc_split:
  "amalloc n xs e = Some (b, ys) \<Longrightarrow>
    \<exists>ps qs. xs = ps @ (b, False) # qs \<and> n \<le> start qs e - (b + 8) \<and>
      ys = ps @ (b, True) # (if n + 20 \<le> start qs e - (b + 8) then (b + 8 + n, False) # qs else qs)"
proof (induction n xs e arbitrary: b ys rule: amalloc.induct)
  case (2 n c u xs e)
  show ?case
  proof (cases "\<not> u \<and> n \<le> start xs e - (c + 8)")
    case True
    then show ?thesis using 2(2) by (intro exI [of _ "[]"] exI [of _ xs]) auto
  next
    case False
    then obtain zs where "amalloc n xs e = Some (b, zs)" "ys = (c, u) # zs"
      using 2(2) by (auto simp: Let_def split: if_splits)
    then obtain ps qs where "xs = ps @ (b, False) # qs" "n \<le> start qs e - (b + 8)"
      "zs = ps @ (b, True) # (if n + 20 \<le> start qs e - (b + 8) then (b + 8 + n, False) # qs else qs)"
      using 2(1) [OF refl] False by blast
    then show ?thesis using \<open>ys = _\<close> by (intro exI [of _ "(c, u) # ps"] exI [of _ qs]) auto
  qed
qed simp

lemma amalloc_None:
  "amalloc n xs e = None \<longleftrightarrow>
    (\<forall>ps b qs. xs = ps @ (b, False) # qs \<longrightarrow> start qs e - (b + 8) < n)"
proof (induction n xs e rule: amalloc.induct)
  case (2 n c u xs e)
  have "(\<forall>ps b qs. (c, u) # xs = ps @ (b, False) # qs \<longrightarrow> start qs e - (b + 8) < n) \<longleftrightarrow>
      (\<not> u \<longrightarrow> start xs e - (c + 8) < n) \<and>
      (\<forall>ps b qs. xs = ps @ (b, False) # qs \<longrightarrow> start qs e - (b + 8) < n)"
    by (auto simp: Cons_eq_append_conv)
  then show ?case using 2 by (auto simp: Let_def not_le split: option.splits)
qed simp

section \<open>Allocation\<close>

lemma mem_struct_all [simp]:
  "m\<lparr>mem_used := u, mem_next := n, mem_prev := p\<rparr> = \<lparr>mem_next = n, mem_prev = p, mem_used = u\<rparr>"
  for m :: mem_struct
  by (cases m) simp

lemma mem_size_t_small [simp]: "n \<le> 30720 \<Longrightarrow> mem_size_t n = n"
  by (simp add: mem_size_t_def)

lemma upd_blk_sel [simp]:
  "blk (upd_blk a f h) = (blk h)(a := f (blk h a))" "lfree (upd_blk a f h) = lfree h"
  "ram (upd_blk a f h) = ram h"
  by (simp_all add: upd_blk_def)

text \<open>
  Changing the chain between \<open>ps\<close> and \<open>qs\<close>: the blocks in front keep their entries, and the one behind
  only gets a new predecessor.
\<close>

definition set_prev :: "nat \<Rightarrow> nat \<Rightarrow> (nat \<Rightarrow> mem_struct) \<Rightarrow> nat \<Rightarrow> mem_struct" where
  "set_prev c p B = (if c = MEM_SIZE_ALIGNED then B else B(c := (B c)\<lparr>mem_prev := p\<rparr>))"

lemma seg_front:
  assumes "seg B p ps e" "\<forall>x. x < e \<longrightarrow> x \<in> fst ` set ps \<longrightarrow> B' x = B x"
  shows "seg B' p ps e"
proof -
  have "\<forall>b \<in> fst ` set ps. B' b = B b"
  proof
    fix b assume b: "b \<in> fst ` set ps"
    then obtain u where "(b, u) \<in> set ps" by force
    then have "b < e" using seg_bounds [OF assms(1), of b u] by simp
    then show "B' b = B b" using assms(2) b by blast
  qed
  then show ?thesis using assms(1) seg_cong by blast
qed

lemma seg_behind:
  assumes "seg B p qs MEM_SIZE_ALIGNED" "\<forall>x. start qs MEM_SIZE_ALIGNED \<le> x \<longrightarrow> B' x = B x"
  shows "seg (set_prev (start qs MEM_SIZE_ALIGNED) q B') q qs MEM_SIZE_ALIGNED"
proof (cases qs)
  case (Cons y r)
  obtain c v where y: "y = (c, v)" by force
  have r: "seg B c r MEM_SIZE_ALIGNED" "c + 20 \<le> start r MEM_SIZE_ALIGNED"
    "c + 20 \<le> MEM_SIZE_ALIGNED"
    using assms(1) seg_bounds [OF assms(1), of c v] by (simp_all add: Cons y)
  have "\<forall>b \<in> fst ` set r. set_prev c q B' b = B b"
    using seg_bounds [OF r(1)] r(2) assms(2) by (fastforce simp: set_prev_def Cons y)
  then show ?thesis
    using assms r seg_cong [of r "set_prev c q B'" B c]
    by (simp add: Cons y set_prev_def)
qed simp

lemma set_prev_end [simp]: "set_prev c q B 30720 = B 30720"
  by (simp add: set_prev_def)

lemma set_prev_other: "x \<noteq> c \<Longrightarrow> set_prev c q B x = B x"
  by (simp add: set_prev_def)

lemma mem_take_split:
  assumes "seg (blk h) 0 (ps @ (b, False) # qs) MEM_SIZE_ALIGNED" "4 dvd n" "12 \<le> n"
    and room: "n + 20 \<le> start qs MEM_SIZE_ALIGNED - (b + 8)"
  defines "b2 \<equiv> b + 8 + n"
  shows "mem_take n b h = h\<lparr>blk := set_prev (start qs MEM_SIZE_ALIGNED) b2
      ((blk h)(b2 := \<lparr>mem_next = start qs MEM_SIZE_ALIGNED, mem_prev = b, mem_used = 0\<rparr>,
               b := \<lparr>mem_next = b2, mem_prev = final 0 ps, mem_used = 1\<rparr>))\<rparr>"
    and "seg (blk (mem_take n b h)) 0 (ps @ (b, True) # (b2, False) # qs) MEM_SIZE_ALIGNED"
proof -
  note b = seg_blk [OF assms(1)]
  have small: "start qs MEM_SIZE_ALIGNED \<le> 30720" using b(4) by simp
  have b2: "mem_size_t (b + 8 + n) = b2" "b < b2" "b2 + 20 \<le> start qs MEM_SIZE_ALIGNED"
    using room small b(2) by (simp_all add: b2_def)
  have u: "usub32 (start qs MEM_SIZE_ALIGNED) (b + 8) = start qs MEM_SIZE_ALIGNED - (b + 8)"
    using b(2) small by (intro usub32_le) auto
  show take: "mem_take n b h = h\<lparr>blk := set_prev (start qs MEM_SIZE_ALIGNED) b2
      ((blk h)(b2 := \<lparr>mem_next = start qs MEM_SIZE_ALIGNED, mem_prev = b, mem_used = 0\<rparr>,
               b := \<lparr>mem_next = b2, mem_prev = final 0 ps, mem_used = 1\<rparr>))\<rparr>"
    using room b(1) b2 u
    by (auto simp: mem_take_def Let_def ptr_to_mem_def set_prev_def upd_blk_def fun_upd_twist)
  let ?B = "(blk h)(b2 := \<lparr>mem_next = start qs MEM_SIZE_ALIGNED, mem_prev = b, mem_used = 0\<rparr>,
               b := \<lparr>mem_next = b2, mem_prev = final 0 ps, mem_used = 1\<rparr>)"
  have parts: "seg (blk h) 0 ps b" "seg (blk h) b qs MEM_SIZE_ALIGNED"
    using assms(1) by (simp_all add: seg_append)
  have "seg (set_prev (start qs MEM_SIZE_ALIGNED) b2 ?B) 0 ps b"
    using b2 by (intro seg_front [OF parts(1)]) (auto simp: set_prev_def)
  moreover have "seg (set_prev (start qs MEM_SIZE_ALIGNED) b2 ?B) b2 qs MEM_SIZE_ALIGNED"
    using b2 by (intro seg_behind [OF parts(2)]) auto
  moreover have "set_prev (start qs MEM_SIZE_ALIGNED) b2 ?B b = ?B b"
    "set_prev (start qs MEM_SIZE_ALIGNED) b2 ?B b2 = ?B b2"
    using b2 by (simp_all only: set_prev_other)
  ultimately show "seg (blk (mem_take n b h)) 0 (ps @ (b, True) # (b2, False) # qs) MEM_SIZE_ALIGNED"
    unfolding take using b b2 assms(2,3) by (auto simp: seg_append b2_def)
qed

lemma mem_take_whole:
  assumes "seg (blk h) 0 (ps @ (b, False) # qs) MEM_SIZE_ALIGNED"
    and room: "\<not> n + 20 \<le> start qs MEM_SIZE_ALIGNED - (b + 8)"
  shows "mem_take n b h = h\<lparr>blk := (blk h)(b :=
      \<lparr>mem_next = start qs MEM_SIZE_ALIGNED, mem_prev = final 0 ps, mem_used = 1\<rparr>)\<rparr>"
    and "seg (blk (mem_take n b h)) 0 (ps @ (b, True) # qs) MEM_SIZE_ALIGNED"
proof -
  note b = seg_blk [OF assms(1)]
  have u: "usub32 (start qs MEM_SIZE_ALIGNED) (b + 8) = start qs MEM_SIZE_ALIGNED - (b + 8)"
    using b(2,4) by (intro usub32_le) auto
  show take: "mem_take n b h = h\<lparr>blk := (blk h)(b :=
      \<lparr>mem_next = start qs MEM_SIZE_ALIGNED, mem_prev = final 0 ps, mem_used = 1\<rparr>)\<rparr>"
    using room b(1) u by (simp add: mem_take_def Let_def ptr_to_mem_def upd_blk_def)
  have "seg (blk h) 0 ps b" "seg (blk h) b qs MEM_SIZE_ALIGNED"
    using assms(1) by (simp_all add: seg_append)
  then have "seg ((blk h)(b := x)) 0 ps b" "seg ((blk h)(b := x)) b qs MEM_SIZE_ALIGNED" for x
    using seg_bounds [of "blk h" 0 ps b] seg_bounds [of "blk h" b qs MEM_SIZE_ALIGNED] b(2)
    by (subst seg_cong; fastforce)+
  then show "seg (blk (mem_take n b h)) 0 (ps @ (b, True) # qs) MEM_SIZE_ALIGNED"
    unfolding take using b by (simp add: seg_append)
qed

text \<open>The walk to the next free block, from the start of a part of the chain.\<close>

lemma next_free_seg:
  assumes "seg (blk h) p xs MEM_SIZE_ALIGNED"
  shows "next_free h (start xs MEM_SIZE_ALIGNED) = Some (lowest_free xs)"
  using assms
proof (induction "blk h" p xs MEM_SIZE_ALIGNED rule: seg.induct)
  case (1 p)
  then show ?case
    by (subst next_free.simps) (simp add: lowest_free_def ram_end_def ptr_to_mem_def)
next
  case (2 p b u xs)
  have "b \<noteq> MEM_SIZE_ALIGNED" using 2(2) seg_bounds [of "blk h" p "(b, u) # xs" MEM_SIZE_ALIGNED b u] by auto
  then show ?case
    using 2 by (subst next_free.simps) (simp add: lowest_free_def ram_end_def ptr_to_mem_def)
qed

lemma lowest_free_append_used: "\<forall>x \<in> set ps. snd x \<Longrightarrow> lowest_free (ps @ qs) = lowest_free qs"
  by (simp add: lowest_free_def filter_empty_conv)

lemma lowest_free_first:
  assumes "lowest_free (ps @ (b, False) # qs) = b" "seg B p (ps @ (b, False) # qs) e"
  shows "\<forall>x \<in> set ps. snd x"
proof (rule ccontr)
  assume "\<not> ?thesis"
  then obtain c xs where f: "filter (\<lambda>x. \<not> snd x) ps = (c, False) # xs"
    by (metis (mono_tags, lifting) filter_empty_conv filter_eq_Cons_iff list.exhaust prod.collapse)
  then have "c = b" using assms(1) by (simp add: lowest_free_def)
  moreover have "(c, False) \<in> set ps" using f by (metis filter_eq_Cons_iff in_set_conv_decomp)
  ultimately show False
    using seg_distinct [OF assms(2)] by force
qed

lemma lowest_free_cases:
  obtains "lowest_free xs = MEM_SIZE_ALIGNED" "\<forall>x \<in> set xs. snd x"
  | ps b qs where "xs = ps @ (b, False) # qs" "\<forall>x \<in> set ps. snd x" "lowest_free xs = b"
proof (cases "filter (\<lambda>x. \<not> snd x) xs")
  case Nil
  then show ?thesis using that(1) by (simp add: lowest_free_def filter_empty_conv)
next
  case (Cons y r)
  then obtain ps qs where "xs = ps @ y # qs" "\<forall>x \<in> set ps. snd x" "\<not> snd y"
    by (auto simp: filter_eq_Cons_iff)
  then show ?thesis using that(2) [of ps "fst y" qs] by (cases y) (simp add: lowest_free_append_used lowest_free_def)
qed

lemma no_adj_Cons:
  "no_adj ((c, u) # r) \<longleftrightarrow> no_adj r \<and> (u \<or> r = [] \<or> snd (hd r))"
  by (cases r) auto

lemma no_adj_append:
  "no_adj (xs @ ys) \<longleftrightarrow> no_adj xs \<and> no_adj ys \<and> (xs \<noteq> [] \<longrightarrow> ys \<noteq> [] \<longrightarrow> snd (last xs) \<or> snd (hd ys))"
  by (induction xs) (auto simp: no_adj_Cons)

lemma no_adj_take:
  assumes "no_adj (ps @ (b, False) # qs)"
  shows "no_adj (ps @ (b, True) # qs)" "no_adj (ps @ (b, True) # (c, False) # qs)"
  using assms by (auto simp: no_adj_append) (cases qs; auto)+

lemma lowest_free_Cons [simp]: "lowest_free ((b, u) # qs) = (if u then lowest_free qs else b)"
  by (simp add: lowest_free_def)

lemma lowest_free_append_free:
  "\<not> (\<forall>x \<in> set ps. snd x) \<Longrightarrow> lowest_free (ps @ qs) = lowest_free ps"
  by (cases "filter (\<lambda>x. \<not> snd x) ps") (auto simp: lowest_free_def filter_empty_conv start_def)

text \<open>The blocks after \<open>b\<close>, free with enough room, was taken for \<open>n\<close> bytes.\<close>

definition taken :: "nat \<Rightarrow> nat \<Rightarrow> blocks \<Rightarrow> blocks" where
  "taken n b qs = (b, True) #
    (if n + 20 \<le> start qs MEM_SIZE_ALIGNED - (b + 8) then (b + 8 + n, False) # qs else qs)"

lemma mem_take_rep:
  assumes "heap_ok h (ps @ (b, False) # qs)" "4 dvd n" "12 \<le> n"
  shows "seg (blk (mem_take n b h)) 0 (ps @ taken n b qs) MEM_SIZE_ALIGNED"
    "blk (mem_take n b h) MEM_SIZE_ALIGNED = blk h MEM_SIZE_ALIGNED"
    "lfree (mem_take n b h) = lfree h" "ram (mem_take n b h) = ram h" "no_adj (ps @ taken n b qs)"
proof -
  have seg: "seg (blk h) 0 (ps @ (b, False) # qs) MEM_SIZE_ALIGNED" and adj: "no_adj (ps @ (b, False) # qs)"
    using assms(1) by (simp_all add: heap_ok_def heap_rep_def)
  note b = seg_blk [OF seg]
  show "no_adj (ps @ taken n b qs)"
    using no_adj_take [OF adj] by (simp add: taken_def)
  show "seg (blk (mem_take n b h)) 0 (ps @ taken n b qs) MEM_SIZE_ALIGNED"
    using mem_take_split(2) [OF seg assms(2,3)] mem_take_whole(2) [OF seg] by (simp add: taken_def)
  obtain B where eq: "mem_take n b h = h\<lparr>blk := B\<rparr>" and B: "B MEM_SIZE_ALIGNED = blk h MEM_SIZE_ALIGNED"
  proof (cases "n + 20 \<le> start qs MEM_SIZE_ALIGNED - (b + 8)")
    case True
    show thesis
      by (rule that [OF mem_take_split(1) [OF seg assms(2,3) True]]) (use True b in auto)
  next
    case False
    show thesis by (rule that [OF mem_take_whole(1) [OF seg False]]) (use b in auto)
  qed
  show "blk (mem_take n b h) MEM_SIZE_ALIGNED = blk h MEM_SIZE_ALIGNED"
    "lfree (mem_take n b h) = lfree h" "ram (mem_take n b h) = ram h"
    unfolding eq using B by simp_all
qed

lemma take_ok:
  assumes ok: "heap_ok h (ps @ (b, False) # qs)" and n: "4 dvd n" "12 \<le> n"
  defines "h1 \<equiv> mem_take n b h"
  shows "\<exists>h'. (if b = lfree h1 then
       case next_free h1 (lfree h1) of None \<Rightarrow> None
       | Some cur \<Rightarrow> Some (ram h + b + SIZEOF_STRUCT_MEM, h1\<lparr>lfree := cur\<rparr>)
     else Some (ram h + b + SIZEOF_STRUCT_MEM, h1)) = Some (ram h + b + 8, h') \<and>
     heap_ok h' (ps @ taken n b qs) \<and> ram h' = ram h"
proof -
  have rep: "heap_rep h (ps @ (b, False) # qs)" using ok by (simp add: heap_ok_def)
  then have seg: "seg (blk h) 0 (ps @ (b, False) # qs) MEM_SIZE_ALIGNED"
    and lf: "lfree h = lowest_free (ps @ (b, False) # qs)" and st: "start (ps @ (b, False) # qs) MEM_SIZE_ALIGNED = 0"
    by (simp_all add: heap_rep_def)
  note t = mem_take_rep [OF ok n, folded h1_def]
  have st': "start (ps @ taken n b qs) MEM_SIZE_ALIGNED = 0"
    using st by (simp add: start_append taken_def)
  show ?thesis
  proof (cases "b = lfree h")
    case True
    have "lowest_free (ps @ (b, False) # qs) = b" using lf True by (rule trans [OF sym sym])
    from lowest_free_first [OF this seg] have used: "\<forall>x \<in> set ps. snd x" .
    have "seg (blk h1) (final 0 ps) (taken n b qs) MEM_SIZE_ALIGNED"
      using t(1) by (simp add: seg_append)
    from next_free_seg [OF this] have "next_free h1 b = Some (lowest_free (taken n b qs))"
      by (simp add: taken_def)
    moreover have "heap_ok (h1\<lparr>lfree := lowest_free (taken n b qs)\<rparr>) (ps @ taken n b qs)"
      using t rep st' used by (simp add: heap_ok_def heap_rep_def lowest_free_append_used)
    ultimately show ?thesis
      using t(3,4) by (simp add: True [symmetric])
  next
    case False
    then have "\<not> (\<forall>x \<in> set ps. snd x)"
      using lf lowest_free_append_used [of ps "(b, False) # qs"] by auto
    then have "lfree h = lowest_free (ps @ taken n b qs)"
      using lf by (simp add: lowest_free_append_free)
    then have "heap_ok h1 (ps @ taken n b qs)"
      using t rep st' by (simp add: heap_ok_def heap_rep_def)
    then show ?thesis using False t(3,4) by simp
  qed
qed

lemma malloc_scan_rep:
  assumes "heap_ok h (us @ rest)" "4 dvd n" "12 \<le> n" "n \<le> MEM_SIZE_ALIGNED"
  shows "\<exists>h'. case amalloc n rest MEM_SIZE_ALIGNED of
      None \<Rightarrow> malloc_scan n h (start rest MEM_SIZE_ALIGNED) = Some (0, h)
    | Some (b, ys) \<Rightarrow> malloc_scan n h (start rest MEM_SIZE_ALIGNED) = Some (ram h + b + 8, h') \<and>
        heap_ok h' (us @ ys) \<and> ram h' = ram h"
  using assms(1)
proof (induction rest arbitrary: us)
  case Nil
  have "\<not> MEM_SIZE_ALIGNED < MEM_SIZE_ALIGNED - n" by simp
  then show ?case by (subst malloc_scan.simps) (simp only: start_simps if_False amalloc.simps option.case, simp)
next
  case (Cons y rest)
  obtain b u where y: "y = (b, u)" by force
  have seg: "seg (blk h) 0 (us @ (b, u) # rest) MEM_SIZE_ALIGNED"
    using Cons.prems by (simp add: heap_ok_def heap_rep_def y)
  note b = seg_blk [OF seg]
  let ?room = "start rest MEM_SIZE_ALIGNED - (b + 8)"
  have u32: "usub32 (start rest MEM_SIZE_ALIGNED) (b + 8) = ?room"
    using b(2,4) by (intro usub32_le) auto
  show ?case
  proof (cases "b < MEM_SIZE_ALIGNED - n")
    case False
    have "seg (blk h) (final 0 us) (y # rest) MEM_SIZE_ALIGNED" using seg by (simp add: seg_append y)
    have "amalloc n (y # rest) MEM_SIZE_ALIGNED = None"
      unfolding amalloc_None
    proof (intro allI impI)
      fix ps c qs assume eq: "y # rest = ps @ (c, False) # qs"
      have "seg (blk h) (final 0 us) (ps @ (c, False) # qs) MEM_SIZE_ALIGNED"
        using \<open>seg (blk h) (final 0 us) (y # rest) MEM_SIZE_ALIGNED\<close> eq by simp
      note c = seg_blk(2,4) [OF this] seg_bounds [OF this, of c False]
      have "start (ps @ (c, False) # qs) MEM_SIZE_ALIGNED = b"
        unfolding eq [symmetric] by (simp add: y)
      then have "b \<le> c" using c(3) by (simp del: mem_consts)
      then show "start qs MEM_SIZE_ALIGNED - (c + 8) < n"
        using False c(1,2) assms(3,4) by simp
    qed
    then show ?thesis using False by (subst malloc_scan.simps) (simp add: y)
  next
    case True
    show ?thesis
    proof (cases "\<not> u \<and> n \<le> ?room")
      case fits: True
      then have ok: "heap_ok h (us @ (b, False) # rest)" using Cons.prems y by simp
      from take_ok [OF ok assms(2,3)] show ?thesis
        using fits True u32 b(1)
        by (subst malloc_scan.simps) (simp add: y Let_def ptr_to_mem_def taken_def)
    next
      case False
      have step: "malloc_scan n h b = malloc_scan n h (start rest MEM_SIZE_ALIGNED)"
        using False True u32 b(1)
        by (subst malloc_scan.simps) (auto simp: Let_def ptr_to_mem_def)
      have am: "amalloc n (y # rest) MEM_SIZE_ALIGNED =
          map_option (\<lambda>(a, ys). (a, (b, u) # ys)) (amalloc n rest MEM_SIZE_ALIGNED)"
        using False by (auto simp: y Let_def)
      have "heap_ok h ((us @ [(b, u)]) @ rest)" using Cons.prems y by simp
      from Cons.IH [OF this] show ?thesis
        unfolding am using step by (auto simp: y split: option.splits)
    qed
  qed
qed


text \<open>The number of bytes \<open>mem_malloc\<close> reserves for a request, and when it rejects one outright.\<close>

definition request :: "nat \<Rightarrow> nat" where
  "request n = max MIN_SIZE_ALIGNED (LWIP_MEM_ALIGN_SIZE n)"

lemma request_props: "4 dvd request n" "12 \<le> request n" "n \<le> request n"
  by (auto simp: request_def LWIP_MEM_ALIGN_SIZE_def max_def)

lemma align_size_cases:
  assumes "n < 65536"
  shows "mem_size_t (LWIP_MEM_ALIGN_SIZE n) = LWIP_MEM_ALIGN_SIZE n \<or>
    LWIP_MEM_ALIGN_SIZE n = 65536 \<and> 65532 < n"
proof (cases "n \<le> 65532")
  case False
  then consider "n = 65533" | "n = 65534" | "n = 65535" using assms by linarith
  then show ?thesis by cases (simp_all add: LWIP_MEM_ALIGN_SIZE_def)
qed (simp add: mem_size_t_def LWIP_MEM_ALIGN_SIZE_def)

lemma mem_malloc_start:
  assumes "0 < n" "n < 65536"
  shows "mem_malloc n h = (if request n \<le> MEM_SIZE_ALIGNED
    then malloc_scan (request n) h (mem_to_ptr (lfree h)) else Some (0, h))"
  using align_size_cases [OF assms(2)]
proof
  assume "mem_size_t (LWIP_MEM_ALIGN_SIZE n) = LWIP_MEM_ALIGN_SIZE n"
  then show ?thesis
    using assms request_props(3) [of n]
    by (auto simp: mem_malloc_def Let_def request_def max_def split: if_splits)
next
  assume "LWIP_MEM_ALIGN_SIZE n = 65536 \<and> 65532 < n"
  then show ?thesis
    by (simp add: mem_malloc_def Let_def request_def mem_size_t_def)
qed

text \<open>\<open>mem_malloc\<close> refines first-fit on the block list.\<close>

lemma mem_malloc_refines:
  assumes "heap_ok h xs" "0 < n" "n < 65536" "request n \<le> MEM_SIZE_ALIGNED"
  shows "\<exists>h'. case amalloc (request n) xs MEM_SIZE_ALIGNED of
      None \<Rightarrow> mem_malloc n h = Some (0, h)
    | Some (b, ys) \<Rightarrow> mem_malloc n h = Some (ram h + b + 8, h') \<and> heap_ok h' ys \<and> ram h' = ram h"
proof -
  note scan = malloc_scan_rep [OF _ request_props(1,2) assms(4)]
  have lf: "lfree h = lowest_free xs" using assms(1) by (simp add: heap_ok_def heap_rep_def)
  show ?thesis
  proof (cases rule: lowest_free_cases [of xs])
    case 1
    then have "amalloc (request n) (xs @ []) MEM_SIZE_ALIGNED = None"
      by (subst amalloc_skip) auto
    moreover have "mem_malloc n h = Some (0, h)"
      using scan [of h xs "[]"] assms 1 lf
      by (simp add: mem_malloc_start mem_to_ptr_def)
    ultimately show ?thesis by simp
  next
    case (2 ps b qs)
    have "seg (blk h) 0 (ps @ (b, False) # qs) MEM_SIZE_ALIGNED"
      using assms(1) 2(1) by (simp add: heap_ok_def heap_rep_def)
    from seg_bounds [OF this, of b False] have b: "b \<le> 30720" by simp
    have "mem_malloc n h = malloc_scan (request n) h (start ((b, False) # qs) MEM_SIZE_ALIGNED)"
      using assms(2-4) 2(3) lf b by (simp add: mem_malloc_start mem_to_ptr_def)
    moreover have "amalloc (request n) xs MEM_SIZE_ALIGNED =
        map_option (\<lambda>(a, ys). (a, ps @ ys)) (amalloc (request n) ((b, False) # qs) MEM_SIZE_ALIGNED)"
      unfolding 2(1) by (rule amalloc_skip [OF 2(2)])
    moreover have "heap_ok h (ps @ (b, False) # qs)" using assms(1) 2(1) by simp
    note scan [OF this]
    ultimately show ?thesis
      by (cases "amalloc (request n) ((b, False) # qs) MEM_SIZE_ALIGNED")
         (simp_all only: option.map option.case case_prod_beta fst_conv snd_conv)
  qed
qed

section \<open>Release\<close>

lemma heap_repD:
  assumes "heap_rep h xs"
  shows "seg (blk h) 0 xs MEM_SIZE_ALIGNED" "start xs MEM_SIZE_ALIGNED = 0" "lfree h = lowest_free xs"
    "blk h 30720 = \<lparr>mem_next = 30720, mem_prev = 30720, mem_used = 1\<rparr>"
    "4 dvd ram h" "0 < ram h" "ram h + 30728 \<le> 4294967296"
  using assms by (simp_all add: heap_rep_def)

lemma heap_repI:
  assumes "seg (blk h') 0 ys MEM_SIZE_ALIGNED" "heap_rep h xs" "start ys MEM_SIZE_ALIGNED = 0"
    "lfree h' = lowest_free ys" "blk h' 30720 = blk h 30720" "ram h' = ram h"
  shows "heap_rep h' ys"
  using assms by (simp add: heap_rep_def)

lemma lowest_free_ps:
  assumes "seg B p (ps @ (b, u) # qs) MEM_SIZE_ALIGNED"
  shows "(\<forall>x \<in> set ps. snd x) \<or> lowest_free ps < b"
    "b < lowest_free qs"
proof -
  have ps: "seg B p ps b" and qs: "seg B b qs MEM_SIZE_ALIGNED" and st: "b + 20 \<le> start qs MEM_SIZE_ALIGNED"
    using assms by (simp_all add: seg_append)
  show "(\<forall>x \<in> set ps. snd x) \<or> lowest_free ps < b"
  proof (cases rule: lowest_free_cases [of ps])
    case (2 us c vs)
    then have "(c, False) \<in> set ps" by simp
    from seg_bounds [OF ps this] show ?thesis using 2(3) by simp
  qed simp
  show "b < lowest_free qs"
  proof (cases rule: lowest_free_cases [of qs])
    case 1
    then show ?thesis using seg_blk(2,4) [OF assms] by simp
  next
    case (2 us c vs)
    then have "(c, False) \<in> set qs" by simp
    from seg_bounds [OF qs this] show ?thesis using 2(3) st by simp
  qed
qed

lemma mem_join_rep:
  assumes rep: "heap_rep h (ps @ (a, False) # (c, False) # qs)"
  shows "heap_rep (mem_join a c h) (ps @ (a, False) # qs)" "ram (mem_join a c h) = ram h"
proof -
  note r = heap_repD [OF rep]
  note a = seg_blk [OF r(1)]
  have seg2: "seg (blk h) 0 ((ps @ [(a, False)]) @ (c, False) # qs) MEM_SIZE_ALIGNED" using r(1) by simp
  note c = seg_blk [OF seg2]
  have ac: "a + 20 \<le> c" "c + 20 \<le> start qs MEM_SIZE_ALIGNED" "start qs MEM_SIZE_ALIGNED \<le> 30720"
    using a(2) c(2,4) by simp_all
  have lf: "lfree h \<noteq> c" "lfree h = lowest_free (ps @ (a, False) # qs)"
  proof -
    consider "\<forall>x \<in> set ps. snd x" | "\<not> (\<forall>x \<in> set ps. snd x)" "lowest_free ps < a"
      using lowest_free_ps(1) [OF r(1)] by blast
    then show "lfree h \<noteq> c" "lfree h = lowest_free (ps @ (a, False) # qs)"
      using ac(1) r(3) by (cases; simp add: lowest_free_append_used lowest_free_append_free)+
  qed
  let ?B = "(blk h)(a := \<lparr>mem_next = start qs MEM_SIZE_ALIGNED, mem_prev = final 0 ps, mem_used = 0\<rparr>)"
  have join: "mem_join a c h = h\<lparr>blk := set_prev (start qs MEM_SIZE_ALIGNED) a ?B\<rparr>"
    using lf(1) a(1) c(1) ac
    by (auto simp: mem_join_def Let_def ptr_to_mem_def mem_to_ptr_def set_prev_def upd_blk_def)
  show "ram (mem_join a c h) = ram h" by (simp add: join)
  have parts: "seg (blk h) 0 ps a" "seg (blk h) c qs MEM_SIZE_ALIGNED"
    using r(1) by (simp_all add: seg_append)
  have "seg (set_prev (start qs MEM_SIZE_ALIGNED) a ?B) 0 ps a"
    using ac by (intro seg_front [OF parts(1)]) (auto simp: set_prev_def)
  moreover have "seg (set_prev (start qs MEM_SIZE_ALIGNED) a ?B) a qs MEM_SIZE_ALIGNED"
    using ac by (intro seg_behind [OF parts(2)]) auto
  moreover have "set_prev (start qs MEM_SIZE_ALIGNED) a ?B a = ?B a"
    using ac by (intro set_prev_other) auto
  ultimately have "seg (blk (mem_join a c h)) 0 (ps @ (a, False) # qs) MEM_SIZE_ALIGNED"
    unfolding join using a ac by (auto simp: seg_append)
  then show "heap_rep (mem_join a c h) (ps @ (a, False) # qs)"
    using r lf(2) ac by (intro heap_repI [OF _ rep]) (auto simp: join start_append)
qed

text \<open>Releasing block \<open>b\<close> between \<open>ps\<close> and \<open>qs\<close>: it merges with a free neighbour on either side.\<close>

definition drop_free :: "blocks \<Rightarrow> blocks" where
  "drop_free qs = (case qs of (c, False) # r \<Rightarrow> r | _ \<Rightarrow> qs)"

definition afree :: "blocks \<Rightarrow> nat \<Rightarrow> blocks \<Rightarrow> blocks" where
  "afree ps b qs =
    (if ps \<noteq> [] \<and> \<not> snd (last ps) then ps @ drop_free qs else ps @ (b, False) # drop_free qs)"

lemma drop_free_cases:
  obtains c r where "qs = (c, False) # r" "drop_free qs = r"
  | "drop_free qs = qs" "qs = [] \<or> snd (hd qs)"
proof (cases qs)
  case (Cons y r)
  then show ?thesis using that(1) [of "fst y" r] that(2) by (cases y; cases "snd y") (auto simp: drop_free_def)
qed (use that in \<open>auto simp: drop_free_def\<close>)

lemma mark_free_rep:
  assumes rep: "heap_rep h (ps @ (b, True) # qs)"
  defines "h1 \<equiv> upd_blk b (\<lambda>m. m\<lparr>mem_used := 0\<rparr>) h"
  shows "heap_rep (if b < lfree h1 then h1\<lparr>lfree := b\<rparr> else h1) (ps @ (b, False) # qs)"
proof -
  note r = heap_repD [OF rep]
  note b = seg_blk [OF r(1)]
  have parts: "seg (blk h) 0 ps b" "seg (blk h) b qs MEM_SIZE_ALIGNED"
    using r(1) by (simp_all add: seg_append)
  have seg: "seg (blk h1) 0 (ps @ (b, False) # qs) MEM_SIZE_ALIGNED"
  proof -
    have "seg (blk h1) 0 ps b"
      by (intro seg_front [OF parts(1)]) (auto simp: h1_def)
    moreover have "\<forall>x \<in> fst ` set qs. blk h1 x = blk h x"
      using seg_bounds [OF parts(2)] b(2) by (fastforce simp: h1_def)
    then have "seg (blk h1) b qs MEM_SIZE_ALIGNED" using parts(2) seg_cong by blast
    ultimately show ?thesis using b by (simp add: seg_append h1_def)
  qed
  have lf: "lowest_free (ps @ (b, False) # qs) = (if b < lfree h then b else lfree h)"
    using lowest_free_ps [OF r(1)] r(3)
    by (cases "\<forall>x \<in> set ps. snd x") (auto simp: lowest_free_append_used lowest_free_append_free)
  show ?thesis
    using r b seg lf by (intro heap_repI [OF _ rep]) (auto simp: h1_def start_append)
qed

lemma plug_holes_rep:
  assumes rep: "heap_rep h (ps @ (b, False) # qs)"
  shows "heap_rep (plug_holes b h) (afree ps b qs)" "ram (plug_holes b h) = ram h"
proof -
  note r = heap_repD [OF rep]
  note b = seg_blk [OF r(1)]
  have lt: "b < start qs MEM_SIZE_ALIGNED" using b(2) by simp
  let ?fwd = "if b \<noteq> start qs MEM_SIZE_ALIGNED \<and> mem_used (blk h (start qs MEM_SIZE_ALIGNED)) = 0 \<and>
    start qs MEM_SIZE_ALIGNED \<noteq> ram_end then mem_join b (start qs MEM_SIZE_ALIGNED) h else h"
  have fwd: "heap_rep ?fwd (ps @ (b, False) # drop_free qs)" "ram ?fwd = ram h"
  proof (atomize (full), cases rule: drop_free_cases [of qs])
    case (1 c t)
    have seg2: "seg (blk h) 0 ((ps @ [(b, False)]) @ (c, False) # t) MEM_SIZE_ALIGNED"
      using r(1) 1 by simp
    note c = seg_blk [OF seg2]
    then show "heap_rep ?fwd (ps @ (b, False) # drop_free qs) \<and> ram ?fwd = ram h"
      using mem_join_rep [of h ps b c t] rep 1 lt by (simp add: ram_end_def ptr_to_mem_def)
  next
    case 2
    have "mem_used (blk h (start qs MEM_SIZE_ALIGNED)) \<noteq> 0 \<or> start qs MEM_SIZE_ALIGNED = ram_end"
    proof (cases qs)
      case Nil
      then show ?thesis by (simp add: ram_end_def ptr_to_mem_def)
    next
      case (Cons y t)
      then have "seg (blk h) 0 ((ps @ [(b, False)]) @ (fst y, True) # t) MEM_SIZE_ALIGNED"
        using r(1) 2 by (cases y) simp
      from seg_blk(1) [OF this] show ?thesis by (cases y) (simp add: Cons)
    qed
    then show "heap_rep ?fwd (ps @ (b, False) # drop_free qs) \<and> ram ?fwd = ram h"
      using 2 rep by auto
  qed
  have plug: "plug_holes b h = (let h = ?fwd; pmem = mem_prev (blk h b)
      in if pmem \<noteq> b \<and> mem_used (blk h pmem) = 0 then mem_join pmem b h else h)"
    by (simp only: plug_holes_def ptr_to_mem_def Let_def b(1) mem_struct.select_convs)
  define h1 where "h1 = ?fwd"
  note r1 = heap_repD [OF fwd(1), folded h1_def]
  have prev: "mem_prev (blk h1 b) = final 0 ps" using seg_blk(1) [OF r1(1)] by simp
  have goal: "heap_rep (plug_holes b h) (afree ps b qs) \<and> ram (plug_holes b h) = ram h"
  proof (cases ps rule: rev_cases)
    case Nil
    then have "b = 0" using r(2) by simp
    then show ?thesis
      using fwd prev Nil unfolding plug h1_def [symmetric] by (simp add: afree_def)
  next
    case (snoc us y)
    obtain a v where y: "y = (a, v)" by force
    have seg2: "seg (blk h1) 0 (us @ (a, v) # (b, False) # drop_free qs) MEM_SIZE_ALIGNED"
      using r1(1) by (simp add: snoc y)
    note a = seg_blk [OF seg2]
    have pm: "final 0 ps = a" "a \<noteq> b" using a(2) by (simp_all add: snoc y final_def)
    show ?thesis
    proof (cases v)
      case True
      then show ?thesis
        using fwd prev a pm unfolding plug h1_def [symmetric]
        by (simp add: afree_def snoc y Let_def)
    next
      case False
      have "heap_rep h1 (us @ (a, False) # (b, False) # drop_free qs)"
        using fwd(1) False by (simp add: h1_def snoc y)
      from mem_join_rep [OF this] show ?thesis
        using fwd(2) prev a pm False unfolding plug h1_def [symmetric]
        by (simp add: afree_def snoc y Let_def)
    qed
  qed
  then show "heap_rep (plug_holes b h) (afree ps b qs)" "ram (plug_holes b h) = ram h" by simp_all
qed

lemma mem_link_valid_rep:
  assumes rep: "heap_rep h (ps @ (b, True) # qs)"
  shows "mem_link_valid b h"
proof -
  note r = heap_repD [OF rep]
  note b = seg_blk [OF r(1)]
  have small: "b \<le> 30720" using b(2,4) by simp
  have prev: "final 0 ps = b \<or> mem_next (blk h (final 0 ps)) = b" "final 0 ps \<le> 30720"
  proof (atomize (full), cases ps rule: rev_cases)
    case Nil
    then show "(final 0 ps = b \<or> mem_next (blk h (final 0 ps)) = b) \<and> final 0 ps \<le> 30720"
      using r(2) by simp
  next
    case (snoc us y)
    obtain a v where y: "y = (a, v)" by force
    have "seg (blk h) 0 (us @ (a, v) # (b, True) # qs) MEM_SIZE_ALIGNED"
      using r(1) by (simp add: snoc y)
    from seg_blk [OF this]
    show "(final 0 ps = b \<or> mem_next (blk h (final 0 ps)) = b) \<and> final 0 ps \<le> 30720"
      using small by (simp add: snoc y final_def)
  qed
  have nxt: "start qs MEM_SIZE_ALIGNED = ram_end \<or> mem_prev (blk h (start qs MEM_SIZE_ALIGNED)) = b"
  proof (cases qs)
    case (Cons y t)
    obtain c v where y: "y = (c, v)" by force
    have "seg (blk h) 0 ((ps @ [(b, True)]) @ (c, v) # t) MEM_SIZE_ALIGNED"
      using r(1) by (simp add: Cons y)
    from seg_blk(1) [OF this] show ?thesis by (simp add: Cons y final_def)
  qed (simp add: ram_end_def ptr_to_mem_def)
  show ?thesis
    using b(1,4) small prev nxt
    by (auto simp: mem_link_valid_def Let_def ptr_to_mem_def mem_to_ptr_def)
qed

lemma afree_no_adj:
  assumes "no_adj (ps @ (b, True) # qs)"
  shows "no_adj (afree ps b qs)"
proof -
  have ps: "no_adj ps" "no_adj qs"
    using assms by (simp_all add: no_adj_append no_adj_Cons)
  have "no_adj (drop_free qs) \<and> (drop_free qs = [] \<or> snd (hd (drop_free qs)))"
    using ps(2) by (cases rule: drop_free_cases [of qs]) (auto simp: no_adj_Cons)
  then show ?thesis
    using ps(1) by (auto simp: afree_def no_adj_append no_adj_Cons)
qed

text \<open>\<open>mem_free\<close> of an allocated block refines the release on the block list.\<close>

lemma mem_free_rep:
  assumes "heap_ok h (ps @ (b, True) # qs)"
  shows "heap_ok (mem_free (ram h + b + 8) h) (afree ps b qs)" "ram (mem_free (ram h + b + 8) h) = ram h"
proof -
  have rep: "heap_rep h (ps @ (b, True) # qs)" and adj: "no_adj (ps @ (b, True) # qs)"
    using assms by (simp_all add: heap_ok_def)
  note r = heap_repD [OF rep]
  note b = seg_blk [OF r(1)]
  let ?h1 = "upd_blk b (\<lambda>m. m\<lparr>mem_used := 0\<rparr>) h"
  let ?h2 = "if b < lfree ?h1 then ?h1\<lparr>lfree := b\<rparr> else ?h1"
  have u: "usub32 (ram h + b + 8) 8 = ram h + b"
    using usub32_le [of 8 "ram h + b + 8"] r(7) b(2,4) by simp
  have "(ram h + b + 8) mod 4 = 0" using r(5) b(3) by presburger
  then have "mem_free (ram h + b + 8) h = plug_holes b ?h2"
    using u b mem_link_valid_rep [OF rep]
    by (simp add: mem_free_def Let_def ram_end_def ptr_to_mem_def)
  then show "heap_ok (mem_free (ram h + b + 8) h) (afree ps b qs)" "ram (mem_free (ram h + b + 8) h) = ram h"
    using plug_holes_rep [OF mark_free_rep [OF rep]] afree_no_adj [OF adj]
    by (simp_all add: heap_ok_def)
qed

section \<open>Trimming\<close>

text \<open>Trimming block \<open>b\<close> to \<open>n\<close> bytes: the rest joins a free successor or becomes a block if it is large enough.\<close>

definition atrim :: "blocks \<Rightarrow> nat \<Rightarrow> nat \<Rightarrow> blocks \<Rightarrow> blocks" where
  "atrim ps b n qs =
    (case qs of
       (c, False) # r \<Rightarrow> ps @ (b, True) # (b + 8 + n, False) # r
     | _ \<Rightarrow> if n + 20 \<le> start qs MEM_SIZE_ALIGNED - (b + 8)
           then ps @ (b, True) # (b + 8 + n, False) # qs else ps @ (b, True) # qs)"

text \<open>Moving a link behind \<open>b\<close>: the state after both branches that change the chain.\<close>

lemma trim_seg:
  assumes "seg (blk h) 0 (ps @ (b, True) # us) MEM_SIZE_ALIGNED" "seg (blk h) q qs MEM_SIZE_ALIGNED"
    and "4 dvd n" "b + 8 + n + 20 \<le> start qs MEM_SIZE_ALIGNED" "start us MEM_SIZE_ALIGNED \<le> start qs MEM_SIZE_ALIGNED"
    "12 \<le> n"
  defines "b2 \<equiv> b + 8 + n"
  defines "B \<equiv> set_prev (start qs MEM_SIZE_ALIGNED) b2
      ((blk h)(b2 := \<lparr>mem_next = start qs MEM_SIZE_ALIGNED, mem_prev = b, mem_used = 0\<rparr>,
               b := \<lparr>mem_next = b2, mem_prev = final 0 ps, mem_used = 1\<rparr>))"
  shows "seg B 0 (ps @ (b, True) # (b2, False) # qs) MEM_SIZE_ALIGNED" "B 30720 = blk h 30720"
proof -
  let ?B = "(blk h)(b2 := \<lparr>mem_next = start qs MEM_SIZE_ALIGNED, mem_prev = b, mem_used = 0\<rparr>,
               b := \<lparr>mem_next = b2, mem_prev = final 0 ps, mem_used = 1\<rparr>)"
  note b = seg_blk [OF assms(1)]
  have le: "start qs MEM_SIZE_ALIGNED \<le> 30720" using seg_start_le [OF assms(2)] by simp
  have ps: "seg (blk h) 0 ps b" using assms(1) by (simp add: seg_append)
  have b2: "b + 20 \<le> b2" "b2 + 20 \<le> start qs MEM_SIZE_ALIGNED" using assms(4,6) by (simp_all add: b2_def)
  have "seg B 0 ps b"
    unfolding B_def using b2 by (intro seg_front [OF ps]) (auto simp: set_prev_def)
  moreover have "seg B b2 qs MEM_SIZE_ALIGNED"
    unfolding B_def using b2 by (intro seg_behind [OF assms(2)]) auto
  moreover have "B b = ?B b" "B b2 = ?B b2"
    unfolding B_def using b2 by (simp_all only: set_prev_other)
  ultimately show "seg B 0 (ps @ (b, True) # (b2, False) # qs) MEM_SIZE_ALIGNED"
    using b b2 assms(3) by (auto simp: seg_append b2_def)
  show "B 30720 = blk h 30720" using b2 le by (simp add: B_def)
qed

lemma trim_lowest_free:
  assumes "seg B 0 (ps @ (b, True) # qs) MEM_SIZE_ALIGNED" "b < b2" "b2 < start qs MEM_SIZE_ALIGNED"
  shows "lowest_free (ps @ (b, True) # (b2, False) # r) =
    (if b2 < lowest_free (ps @ (b, True) # qs) then b2 else lowest_free (ps @ (b, True) # qs))"
proof (cases "\<forall>x \<in> set ps. snd x")
  case True
  have "start qs MEM_SIZE_ALIGNED \<le> lowest_free qs"
  proof (cases rule: lowest_free_cases [of qs])
    case 1
    then show ?thesis using seg_blk(4) [OF assms(1)] by simp
  next
    case (2 us c vs)
    then have "(c, False) \<in> set qs" by simp
    moreover have "seg B b qs MEM_SIZE_ALIGNED" using assms(1) by (simp add: seg_append)
    ultimately show ?thesis using seg_bounds 2(3) by fastforce
  qed
  then show ?thesis using True assms(3) by (simp add: lowest_free_append_used)
next
  case False
  then show ?thesis
    using lowest_free_ps(1) [OF assms(1)] assms(2) by (auto simp: lowest_free_append_free)
qed

text \<open>The state after the link behind \<open>b\<close> was moved to \<open>b2\<close>, with \<open>c\<close> the block that follows.\<close>

definition trimmed :: "nat \<Rightarrow> nat \<Rightarrow> nat \<Rightarrow> nat \<Rightarrow> (nat \<Rightarrow> mem_struct) \<Rightarrow> nat \<Rightarrow> mem_struct" where
  "trimmed b p b2 c B = set_prev c b2
    (B(b2 := \<lparr>mem_next = c, mem_prev = b, mem_used = 0\<rparr>, b := \<lparr>mem_next = b2, mem_prev = p, mem_used = 1\<rparr>))"

lemma trim_link_eq:
  assumes "blk h b = \<lparr>mem_next = n, mem_prev = p, mem_used = 1\<rparr>" "mem_size_t b = b" "b2 \<noteq> b"
  shows "trim_link b b2 c h = h\<lparr>blk := trimmed b p b2 c (blk h)\<rparr>"
  using assms by (simp add: trim_link_def Let_def upd_blk_def ptr_to_mem_def mem_to_ptr_def trimmed_def set_prev_def)

lemma mem_trim_fits:
  assumes "(if mem_size_t (LWIP_MEM_ALIGN_SIZE new_size) < 12 then 12
      else mem_size_t (LWIP_MEM_ALIGN_SIZE new_size)) = n" "new_size \<le> n" "n \<le> 30720"
    and "ram h \<le> r" "r < ram h + 30720" "usub32 r 8 - ram h = b" "mem_size_t b = b"
    and "mem_size_t (usub32 (mem_size_t (usub32 c b)) 8) = room"
    and "blk h b = \<lparr>mem_next = c, mem_prev = p, mem_used = 1\<rparr>"
    and "n < room \<Longrightarrow> mem_size_t (b + 8 + n) = b2 \<and> b2 \<noteq> b"
  shows "mem_trim r new_size h =
    (if n > room then (0, h) else if n = room then (r, h)
     else if mem_used (blk h c) = 0
     then (r, h\<lparr>lfree := (if lfree h = c then b2 else lfree h),
        blk := trimmed b p b2 (mem_next (blk h c)) (blk h)\<rparr>)
     else if n + 20 \<le> room
     then (r, h\<lparr>lfree := (if b2 < lfree h then b2 else lfree h), blk := trimmed b p b2 c (blk h)\<rparr>)
     else (r, h))"
proof -
  have guard: "\<not> (30720 < n \<or> n < new_size)" "\<not> (r < ram h \<or> ram h + 30720 \<le> r)"
    using assms(2-5) by auto
  have start: "mem_trim r new_size h =
    (if n > room then (0, h) else if n = room then (r, h)
     else if mem_used (blk h c) = 0
     then (r, trim_link b (mem_size_t (b + 8 + n)) (mem_next (blk h c))
        (if lfree h = c then h\<lparr>lfree := mem_size_t (b + 8 + n)\<rparr> else h))
     else if n + 20 \<le> room
     then (r, trim_link b (mem_size_t (b + 8 + n)) c
        (if mem_size_t (b + 8 + n) < lfree h then h\<lparr>lfree := mem_size_t (b + 8 + n)\<rparr> else h))
     else (r, h))"
    unfolding mem_trim_def mem_consts ram_end_def ptr_to_mem_def mem_to_ptr_def Let_def assms(1,6,7)
      if_not_P [OF guard(1)] if_not_P [OF guard(2)] assms(9) mem_struct.select_convs assms(8)
    by (simp add: assms(9))
  have link: "trim_link b b2 d (if P then h\<lparr>lfree := l\<rparr> else h) =
      h\<lparr>lfree := (if P then l else lfree h), blk := trimmed b p b2 d (blk h)\<rparr>" if "b2 \<noteq> b" for P l d
    using assms(7,9) that by (simp add: trim_link_eq)
  show ?thesis
  proof (cases "n < room")
    case True
    show ?thesis unfolding start using assms(10) [OF True] by (simp add: link)
  qed (simp add: start)
qed

text \<open>
  The result of \<open>mem_trim\<close> on an allocated block: too large a request is refused, otherwise the block
  list is trimmed.
\<close>

lemma trimmed_rep:
  assumes rep: "heap_rep h (ps @ (b, True) # us)" and seg: "seg (blk h) q qs MEM_SIZE_ALIGNED"
    and n: "4 dvd n" "12 \<le> n" "b + 8 + n + 20 \<le> start qs MEM_SIZE_ALIGNED"
    and us: "start us MEM_SIZE_ALIGNED \<le> start qs MEM_SIZE_ALIGNED"
    and l: "l = lowest_free (ps @ (b, True) # (b + 8 + n, False) # qs)"
  shows "heap_rep (h\<lparr>lfree := l, blk := trimmed b (final 0 ps) (b + 8 + n) (start qs MEM_SIZE_ALIGNED) (blk h)\<rparr>)
    (ps @ (b, True) # (b + 8 + n, False) # qs)"
proof -
  note r = heap_repD [OF rep]
  note t = trim_seg [OF r(1) seg n(1,3) us n(2)]
  show ?thesis
    by (rule heap_repI [OF _ rep]) (use t l r(2) in \<open>simp_all add: trimmed_def start_append\<close>)
qed

lemma mem_trim_start:
  assumes rep: "heap_rep h (ps @ (b, True) # qs)" and "new_size < 65536"
  defines "n \<equiv> request new_size" and "c \<equiv> start qs MEM_SIZE_ALIGNED"
  shows "mem_trim (ram h + b + 8) new_size h =
    (if n > c - (b + 8) then (0, h) else if n = c - (b + 8) then (ram h + b + 8, h)
     else if mem_used (blk h c) = 0
     then (ram h + b + 8, h\<lparr>lfree := (if lfree h = c then b + 8 + n else lfree h),
        blk := trimmed b (final 0 ps) (b + 8 + n) (mem_next (blk h c)) (blk h)\<rparr>)
     else if n + 20 \<le> c - (b + 8)
     then (ram h + b + 8, h\<lparr>lfree := (if b + 8 + n < lfree h then b + 8 + n else lfree h),
        blk := trimmed b (final 0 ps) (b + 8 + n) c (blk h)\<rparr>)
     else (ram h + b + 8, h))"
proof (cases "n \<le> 30720")
  case True
  note r = heap_repD [OF rep]
  note b = seg_blk [OF r(1), folded c_def]
  have le: "c \<le> 30720" "b + 20 \<le> c" using b(2,4) by simp_all
  have u: "usub32 (ram h + b + 8) 8 - ram h = b"
    using usub32_le [of 8 "ram h + b + 8"] r(7) le by simp
  have "LWIP_MEM_ALIGN_SIZE new_size \<le> 30720" using True by (simp add: n_def request_def)
  then have ns: "(if mem_size_t (LWIP_MEM_ALIGN_SIZE new_size) < 12 then 12
      else mem_size_t (LWIP_MEM_ALIGN_SIZE new_size)) = n"
    by (simp add: n_def request_def max_def)
  have sz: "mem_size_t (usub32 (mem_size_t (usub32 c b)) 8) = c - (b + 8)"
    using le by (simp add: usub32_le)
  have used: "blk h b = \<lparr>mem_next = c, mem_prev = final 0 ps, mem_used = 1\<rparr>" using b(1) by simp
  show ?thesis
    by (rule mem_trim_fits [OF ns _ True _ _ u _ sz used])
       (use le request_props(3) [of new_size] in \<open>simp_all add: n_def\<close>)
next
  case False
  have "start qs MEM_SIZE_ALIGNED \<le> 30720" using seg_blk(4) [OF heap_repD(1) [OF rep]] by simp
  then have "c - (b + 8) < n" using False by (simp add: c_def)
  moreover have "mem_trim (ram h + b + 8) new_size h = (0, h)"
    using align_size_cases [OF assms(2)]
  proof
    assume "mem_size_t (LWIP_MEM_ALIGN_SIZE new_size) = LWIP_MEM_ALIGN_SIZE new_size"
    then show ?thesis using False by (simp add: mem_trim_def Let_def n_def request_def max_def split: if_splits)
  next
    assume "LWIP_MEM_ALIGN_SIZE new_size = 65536 \<and> 65532 < new_size"
    then show ?thesis by (simp add: mem_trim_def Let_def mem_size_t_def)
  qed
  ultimately show ?thesis by simp
qed

lemma mem_trim_rep:
  assumes ok: "heap_ok h (ps @ (b, True) # qs)" and "new_size < 65536"
  defines "n \<equiv> request new_size" and "room \<equiv> start qs MEM_SIZE_ALIGNED - (b + 8)"
  shows "room < n \<Longrightarrow> mem_trim (ram h + b + 8) new_size h = (0, h)"
    "n \<le> room \<Longrightarrow> \<exists>h'. mem_trim (ram h + b + 8) new_size h = (ram h + b + 8, h') \<and>
      heap_ok h' (if n = room then ps @ (b, True) # qs else atrim ps b n qs) \<and> ram h' = ram h"
proof -
  have rep: "heap_rep h (ps @ (b, True) # qs)" and adj: "no_adj (ps @ (b, True) # qs)"
    using ok by (simp_all add: heap_ok_def)
  note start = mem_trim_start [OF rep assms(2), folded n_def, folded room_def]
  show "mem_trim (ram h + b + 8) new_size h = (0, h)" if "room < n" using that by (simp only: start if_True)
  assume "n \<le> room"
  note r = heap_repD [OF rep]
  have n: "4 dvd n" "12 \<le> n" using request_props by (simp_all add: n_def)
  have parts: "seg (blk h) b qs MEM_SIZE_ALIGNED" using r(1) by (simp add: seg_append)
  consider "n = room" | c t where "n < room" "qs = (c, False) # t"
    | "n < room" "qs = [] \<or> snd (hd qs)"
    using \<open>n \<le> room\<close> by (cases rule: drop_free_cases [of qs]) fastforce+
  then show "\<exists>h'. mem_trim (ram h + b + 8) new_size h = (ram h + b + 8, h') \<and>
      heap_ok h' (if n = room then ps @ (b, True) # qs else atrim ps b n qs) \<and> ram h' = ram h"
  proof cases
    case 1
    then show ?thesis using ok by (simp only: start) simp
  next
    case (2 c t)
    have "seg (blk h) 0 ((ps @ [(b, True)]) @ (c, False) # t) MEM_SIZE_ALIGNED"
      using r(1) by (simp add: 2(2))
    note c = seg_blk [OF this]
    have seg: "seg (blk h) c t MEM_SIZE_ALIGNED" using parts by (simp add: 2(2))
    have n3: "b + 8 + n + 20 \<le> start t MEM_SIZE_ALIGNED"
      using 2 c(2) by (simp add: room_def)
    have l: "(if lfree h = c then b + 8 + n else lfree h) =
        lowest_free (ps @ (b, True) # (b + 8 + n, False) # t)"
      using lowest_free_ps(1) [OF r(1)] r(3) 2 c(2)
      by (cases "\<forall>x \<in> set ps. snd x")
         (auto simp: lowest_free_append_used lowest_free_append_free room_def)
    have "start qs MEM_SIZE_ALIGNED \<le> start t MEM_SIZE_ALIGNED" using c(2) by (simp add: 2(2))
    note rep' = trimmed_rep [OF rep seg n n3 this l]
    have "no_adj (ps @ (b, True) # (b + 8 + n, False) # t)"
      using adj by (simp add: 2(2) no_adj_append no_adj_Cons)
    with rep' have "heap_ok (h\<lparr>lfree := (if lfree h = c then b + 8 + n else lfree h),
        blk := trimmed b (final 0 ps) (b + 8 + n) (start t MEM_SIZE_ALIGNED) (blk h)\<rparr>) (atrim ps b n qs)"
      by (simp add: heap_ok_def atrim_def 2(2))
    then show ?thesis
      using 2 c(1) by (simp add: start del: mem_consts)
  next
    case 3
    have "mem_used (blk h (start qs MEM_SIZE_ALIGNED)) \<noteq> 0"
    proof (cases qs)
      case Nil
      then show ?thesis using r(4) by simp
    next
      case (Cons y t)
      then show ?thesis using parts 3(2) by (cases y) simp
    qed
    note step = 3(1) this
    show ?thesis
    proof (cases "n + 20 \<le> room")
      case False
      then have "atrim ps b n qs = ps @ (b, True) # qs"
        using 3 unfolding atrim_def room_def by (cases qs; cases "hd qs") auto
      then show ?thesis using step False ok by (simp only: start) simp
    next
      case True
      have n3: "b + 8 + n + 20 \<le> start qs MEM_SIZE_ALIGNED" using True n by (simp add: room_def)
      have l: "(if b + 8 + n < lfree h then b + 8 + n else lfree h) =
          lowest_free (ps @ (b, True) # (b + 8 + n, False) # qs)"
        using trim_lowest_free [OF r(1), of "b + 8 + n" qs] n3 r(3) by simp
      have "atrim ps b n qs = ps @ (b, True) # (b + 8 + n, False) # qs"
        using 3 True unfolding atrim_def room_def by (cases qs; cases "hd qs") auto
      moreover have "no_adj (ps @ (b, True) # (b + 8 + n, False) # qs)"
        using adj 3(2) by (simp add: no_adj_append no_adj_Cons)
      moreover note trimmed_rep [OF rep parts n n3 order_refl l]
      ultimately have "heap_ok (h\<lparr>lfree := (if b + 8 + n < lfree h then b + 8 + n else lfree h),
          blk := trimmed b (final 0 ps) (b + 8 + n) (start qs MEM_SIZE_ALIGNED) (blk h)\<rparr>) (atrim ps b n qs)"
        by (simp add: heap_ok_def)
      then show ?thesis
        using step True by (simp add: start del: mem_consts)
    qed
  qed
qed

end
