(* ===== verification/Lwip_Alloc.thy ===== *)
theory Lwip_Alloc
  imports Net_Prelude
begin

text \<open>
  The contract between an allocator and its clients, shared by the heap of \<open>mem.c\<close> and the pools of
  \<open>memp.c\<close>. An allocator with state \<open>'h\<close> serves requests \<open>'r\<close>; \<open>live\<close> is the set of extents (address
  and length) handed out and not yet released. A \<open>client\<close> allocates and releases only what it owns.
\<close>

definition apart :: "nat \<times> nat \<Rightarrow> nat \<times> nat \<Rightarrow> bool" where
  "apart x y \<longleftrightarrow> fst x + snd x \<le> fst y \<or> fst y + snd y \<le> fst x"

inductive client :: "('r \<Rightarrow> 'h \<Rightarrow> (nat \<times> 'h) option) \<Rightarrow> (nat \<Rightarrow> 'h \<Rightarrow> 'h) \<Rightarrow> ('r \<Rightarrow> bool) \<Rightarrow> 'h \<Rightarrow>
    'h \<Rightarrow> nat set \<Rightarrow> bool" for alloc release valid h0 where
  start: "client alloc release valid h0 h0 {}"
| got: "client alloc release valid h0 h owned \<Longrightarrow> valid r \<Longrightarrow> alloc r h = Some (p, h') \<Longrightarrow> p \<noteq> 0 \<Longrightarrow>
    client alloc release valid h0 h' (insert p owned)"
| refused: "client alloc release valid h0 h owned \<Longrightarrow> valid r \<Longrightarrow> alloc r h = Some (0, h') \<Longrightarrow>
    client alloc release valid h0 h' owned"
| gave: "client alloc release valid h0 h owned \<Longrightarrow> p \<in> owned \<Longrightarrow>
    client alloc release valid h0 (release p h) (owned - {p})"

locale allocator =
  fixes inv :: "'h \<Rightarrow> bool" and live :: "'h \<Rightarrow> (nat \<times> nat) set"
    and valid :: "'r \<Rightarrow> bool" and need :: "'r \<Rightarrow> nat"
    and alloc :: "'r \<Rightarrow> 'h \<Rightarrow> (nat \<times> 'h) option" and release :: "nat \<Rightarrow> 'h \<Rightarrow> 'h"
  assumes alloc_law: "inv h \<Longrightarrow> valid r \<Longrightarrow> \<exists>p h'. alloc r h = Some (p, h') \<and> inv h' \<and>
      (if p = 0 then live h' = live h
       else p \<notin> fst ` live h \<and> (\<exists>m. need r \<le> m \<and> live h' = insert (p, m) (live h)))"
    and release_law: "inv h \<Longrightarrow> (p, m) \<in> live h \<Longrightarrow>
      inv (release p h) \<and> live (release p h) = live h - {(p, m)}"
    and live_apart: "inv h \<Longrightarrow> x \<in> live h \<Longrightarrow> y \<in> live h \<Longrightarrow> x \<noteq> y \<Longrightarrow> apart x y"
    and live_fst: "inv h \<Longrightarrow> (p, m) \<in> live h \<Longrightarrow> (p, k) \<in> live h \<Longrightarrow> m = k"
begin

lemma alloc_defined: "inv h \<Longrightarrow> valid r \<Longrightarrow> alloc r h \<noteq> None"
  using alloc_law [of h r] by auto

lemma client_inv:
  assumes "client alloc release valid h0 h owned" "inv h0" "live h0 = {}"
  shows "inv h \<and> fst ` live h = owned"
  using assms(1)
proof induction
  case start
  then show ?case using assms by simp
next
  case (got h owned r p h')
  have "inv h" using got.IH by simp
  from alloc_law [OF this got.hyps(2)] obtain m where "inv h'" "live h' = insert (p, m) (live h)"
    using got.hyps(3,4) by auto
  then show ?case using got.IH by simp
next
  case (refused h owned r h')
  have "inv h" using refused.IH by simp
  from alloc_law [OF this refused.hyps(2)] show ?case using refused.hyps(3) refused.IH by simp
next
  case (gave h owned p)
  then have "p \<in> fst ` live h" "inv h" by simp_all
  then obtain m where m: "(p, m) \<in> live h" by force
  have "live (release p h) = live h - {(p, m)}" "inv (release p h)"
    using release_law [OF \<open>inv h\<close> m] by simp_all
  moreover have "fst ` (live h - {(p, m)}) = fst ` live h - {p}"
  proof -
    have "inj_on fst (live h)"
      using live_fst \<open>inv h\<close> by (intro inj_onI) (metis prod.collapse)
    from inj_on_image_set_diff [OF this, of "live h" "{(p, m)}"] show ?thesis using m by simp
  qed
  ultimately show ?case using gave by simp
qed

text \<open>Nothing a client owns overlaps anything else it owns, and a fresh allocation was not owned before.\<close>

lemma client_separate:
  assumes "client alloc release valid h0 h owned" "inv h0" "live h0 = {}" "p \<in> owned" "q \<in> owned" "p \<noteq> q"
  shows "\<exists>m k. (p, m) \<in> live h \<and> (q, k) \<in> live h \<and> apart (p, m) (q, k)"
proof -
  have "inv h" "fst ` live h = owned" using client_inv [OF assms(1-3)] by simp_all
  then obtain m k where "(p, m) \<in> live h" "(q, k) \<in> live h" using assms(4,5) by force
  then show ?thesis using live_apart \<open>inv h\<close> assms(6) by blast
qed

lemma client_fresh:
  assumes "client alloc release valid h0 h owned" "inv h0" "live h0 = {}" "valid r"
    "alloc r h = Some (p, h')" "p \<noteq> 0"
  shows "p \<notin> owned \<and> (\<exists>m. need r \<le> m \<and> live h' = insert (p, m) (live h))"
  using alloc_law [of h r] client_inv [OF assms(1-3)] assms(4-6) by auto

text \<open>An allocation that is released at once leaves the other allocations as they were.\<close>

lemma alloc_release:
  assumes "inv h" "valid r" "alloc r h = Some (p, h')" "p \<noteq> 0"
  shows "inv (release p h') \<and> live (release p h') = live h"
proof -
  obtain m where m: "inv h'" "p \<notin> fst ` live h" "live h' = insert (p, m) (live h)"
    using alloc_law [OF assms(1,2)] assms(3,4) by auto
  then show ?thesis using release_law [OF m(1), of p m] by force
qed

end

end
