(* ===== verification/Lwip_Heap_Spec.thy ===== *)
theory Lwip_Heap_Spec
  imports Lwip_Heap Lwip_Alloc
begin

text \<open>
  What the heap promises its users: the properties of \<open>mem_init\<close>, \<open>mem_malloc\<close>, \<open>mem_free\<close> and \<open>mem_trim\<close>,
  and the interpretation of the allocator contract on them.
\<close>

section \<open>The block list is determined by the heap\<close>

lemma seg_start_less: "seg B p xs e \<Longrightarrow> xs \<noteq> [] \<Longrightarrow> start xs e < e"
  using seg_start_le by (cases xs) fastforce+

lemma seg_unique:
  "seg B p xs e \<Longrightarrow> seg B p ys e \<Longrightarrow> start xs e = start ys e \<Longrightarrow> xs = ys"
proof (induction xs arbitrary: p ys)
  case Nil
  then show ?case using seg_start_less [of B p ys e] by (cases ys) auto
next
  case (Cons x xs)
  obtain b u where x: "x = (b, u)" by force
  have "start (x # xs) e < e" using seg_start_less [OF Cons.prems(1)] by simp
  then obtain v zs where ys: "ys = (b, v) # zs"
    using Cons.prems(3) unfolding x by (cases ys) auto
  let ?blk = "\<lambda>u r. \<lparr>mem_next = start r e, mem_prev = p, mem_used = (if u then 1 else 0)\<rparr>"
  have B: "B b = ?blk u xs" "B b = ?blk v zs" and seg: "seg B b xs e" "seg B b zs e"
    using Cons.prems(1,2) by (simp_all only: x ys seg.simps)
  have eq: "?blk u xs = ?blk v zs" using B(1) unfolding B(2) by (rule sym)
  then have "u = v" "start xs e = start zs e" by (simp_all split: if_splits)
  then show ?case using Cons.IH [OF seg] by (simp only: x ys)
qed

lemma heap_ok_unique: "heap_ok h xs \<Longrightarrow> heap_ok h ys \<Longrightarrow> xs = ys"
  by (rule seg_unique [of "blk h" 0 xs MEM_SIZE_ALIGNED]) (simp_all add: heap_ok_def heap_rep_def)

section \<open>Extents of the allocated blocks\<close>

text \<open>Address and length of what the user of each used block may write.\<close>

fun extents :: "nat \<Rightarrow> blocks \<Rightarrow> nat \<Rightarrow> (nat \<times> nat) set" where
  "extents r [] e = {}"
| "extents r ((b, u) # xs) e =
    (if u then insert (r + b + 8, start xs e - (b + 8)) (extents r xs e) else extents r xs e)"

lemma extents_append: "extents r (xs @ ys) e = extents r xs (start ys e) \<union> extents r ys e"
  by (induction r xs e rule: extents.induct) (auto simp: start_append)

lemma extents_bounds:
  "seg B p xs e \<Longrightarrow> (a, m) \<in> extents r xs e \<Longrightarrow>
    r + start xs e + 8 \<le> a \<and> 12 \<le> m \<and> a + m \<le> r + e \<and> 4 dvd a - r"
proof (induction B p xs e rule: seg.induct)
  case (2 B p b u xs e)
  then have "start xs e \<le> e" "b + 20 \<le> start xs e" "4 dvd b" by (auto dest: seg_start_le)
  then show ?case
    using 2 by (cases "u \<and> a = r + b + 8 \<and> m = start xs e - (b + 8)") (auto split: if_splits)
qed simp

lemma extents_mem: "(b, True) \<in> set xs \<longleftrightarrow> r + b + 8 \<in> fst ` extents r xs e"
  by (induction r xs e rule: extents.induct) auto

lemma extents_apart:
  "seg B p xs e \<Longrightarrow> x \<in> extents r xs e \<Longrightarrow> y \<in> extents r xs e \<Longrightarrow> x \<noteq> y \<Longrightarrow> apart x y"
proof (induction B p xs e rule: seg.induct)
  case (2 B p b u xs e)
  have seg: "seg B b xs e" "b + 20 \<le> start xs e" using 2 by simp_all
  have "apart (r + b + 8, start xs e - (b + 8)) z \<and> apart z (r + b + 8, start xs e - (b + 8))"
    if "z \<in> extents r xs e" for z
    using extents_bounds [OF seg(1), of "fst z" "snd z" r] seg(2) that by (auto simp: apart_def)
  note new = this
  show ?case
  proof (cases "x \<in> extents r xs e \<and> y \<in> extents r xs e")
    case True
    then show ?thesis using "2.IH" "2.prems"(4) seg(1) by blast
  next
    case False
    then show ?thesis using new [of x] new [of y] "2.prems" by (auto split: if_splits)
  qed
qed simp

lemma extents_fst:
  assumes "seg B p xs e" "(a, m) \<in> extents r xs e" "(a, k) \<in> extents r xs e"
  shows "m = k"
proof (rule ccontr)
  assume "m \<noteq> k"
  then have "apart (a, m) (a, k)" using extents_apart [OF assms] by simp
  moreover have "12 \<le> m" "12 \<le> k" using extents_bounds [OF assms(1)] assms(2,3) by blast+
  ultimately show False by (simp add: apart_def)
qed

lemma extents_taken:
  "extents r (ps @ taken n b qs) MEM_SIZE_ALIGNED =
    insert (r + b + 8, start (tl (taken n b qs)) MEM_SIZE_ALIGNED - (b + 8))
      (extents r (ps @ (b, False) # qs) MEM_SIZE_ALIGNED)"
  by (auto simp: extents_append taken_def)

lemma extents_drop_free: "extents r (drop_free qs) e = extents r qs e"
  by (cases rule: drop_free_cases [of qs]) auto

lemma extents_last_free:
  assumes "ps \<noteq> []" "\<not> snd (last ps)"
  shows "extents r ps e = extents r ps e'"
proof -
  obtain us a where "ps = us @ [(a, False)]"
    using assms by (metis append_butlast_last_id prod.collapse)
  then show ?thesis by (simp add: extents_append)
qed

lemma extents_afree:
  assumes "seg B 0 (ps @ (b, True) # qs) MEM_SIZE_ALIGNED"
  shows "extents r (afree ps b qs) MEM_SIZE_ALIGNED =
    extents r (ps @ (b, True) # qs) MEM_SIZE_ALIGNED - {(r + b + 8, start qs MEM_SIZE_ALIGNED - (b + 8))}"
proof -
  have seg: "seg B 0 ps b" "seg B b qs MEM_SIZE_ALIGNED" "b + 20 \<le> start qs MEM_SIZE_ALIGNED"
    using assms by (simp_all add: seg_append)
  have "(r + b + 8, m) \<notin> extents r ps b" "(r + b + 8, m) \<notin> extents r qs MEM_SIZE_ALIGNED" for m
    using extents_bounds [OF seg(1), of "r + b + 8" m r] extents_bounds [OF seg(2), of "r + b + 8" m r] seg(3)
    by auto
  moreover have "extents r (afree ps b qs) MEM_SIZE_ALIGNED = extents r ps b \<union> extents r qs MEM_SIZE_ALIGNED"
  proof (cases "ps \<noteq> [] \<and> \<not> snd (last ps)")
    case True
    then have "extents r ps (start (drop_free qs) MEM_SIZE_ALIGNED) = extents r ps b"
      using extents_last_free by blast
    then show ?thesis using True by (simp add: afree_def extents_append extents_drop_free del: mem_consts)
  next
    case False
    show ?thesis unfolding afree_def if_not_P [OF False]
      by (simp add: extents_append extents_drop_free)
  qed
  ultimately show ?thesis by (auto simp: extents_append)
qed

section \<open>The heap as an allocator\<close>

definition heap_inv :: "heap \<Rightarrow> bool" where
  "heap_inv h \<longleftrightarrow> (\<exists>xs. heap_ok h xs)"

definition heap_live :: "heap \<Rightarrow> (nat \<times> nat) set" where
  "heap_live h = (\<Union>xs \<in> {xs. heap_ok h xs}. extents (ram h) xs MEM_SIZE_ALIGNED)"

lemma heap_live_eq: "heap_ok h xs \<Longrightarrow> heap_live h = extents (ram h) xs MEM_SIZE_ALIGNED"
  using heap_ok_unique by (auto simp: heap_live_def)

definition request_ok :: "nat \<Rightarrow> bool" where
  "request_ok n \<longleftrightarrow> 0 < n \<and> n < 65536"

lemma heap_ok_seg: "heap_ok h xs \<Longrightarrow> seg (blk h) 0 xs MEM_SIZE_ALIGNED"
  by (simp add: heap_ok_def heap_rep_def)

lemma amalloc_taken:
  assumes "amalloc n xs MEM_SIZE_ALIGNED = Some (b, ys)"
  obtains ps qs where "xs = ps @ (b, False) # qs" "ys = ps @ taken n b qs"
    "n \<le> start qs MEM_SIZE_ALIGNED - (b + 8)"
  using amalloc_split [OF assms] unfolding taken_def by blast

text \<open>Every request is answered, whatever its size.\<close>

lemma mem_malloc_cases:
  assumes ok: "heap_ok h xs" and n: "request_ok n"
  obtains "mem_malloc n h = Some (0, h)" "amalloc (request n) xs MEM_SIZE_ALIGNED = None"
  | ps b qs h' where "mem_malloc n h = Some (ram h + b + 8, h')" "xs = ps @ (b, False) # qs"
      "amalloc (request n) xs MEM_SIZE_ALIGNED = Some (b, ps @ taken (request n) b qs)"
      "heap_ok h' (ps @ taken (request n) b qs)" "ram h' = ram h"
      "request n \<le> start qs MEM_SIZE_ALIGNED - (b + 8)"
proof (cases "request n \<le> MEM_SIZE_ALIGNED")
  case True
  note ref = mem_malloc_refines [OF ok _ _ True]
  show thesis
  proof (cases "amalloc (request n) xs MEM_SIZE_ALIGNED")
    case None
    then show thesis using ref n that(1) by (simp add: request_ok_def)
  next
    case (Some r)
    obtain b ys where r: "r = (b, ys)" by force
    obtain h' where h': "mem_malloc n h = Some (ram h + b + 8, h')" "heap_ok h' ys" "ram h' = ram h"
      using ref n Some by (auto simp: request_ok_def r)
    obtain ps qs where "xs = ps @ (b, False) # qs" "ys = ps @ taken (request n) b qs"
        "request n \<le> start qs MEM_SIZE_ALIGNED - (b + 8)"
      using amalloc_taken Some r by blast
    then show thesis using that(2) h' Some r by blast
  qed
next
  case False
  have "amalloc (request n) xs MEM_SIZE_ALIGNED = None"
    unfolding amalloc_None
  proof (intro allI impI)
    fix ps b qs assume "xs = ps @ (b, False) # qs"
    then have "start qs MEM_SIZE_ALIGNED \<le> MEM_SIZE_ALIGNED"
      using seg_blk(4) heap_ok_seg [OF ok] by metis
    then show "start qs MEM_SIZE_ALIGNED - (b + 8) < request n" using False by linarith
  qed
  moreover have "mem_malloc n h = Some (0, h)"
    using False n by (simp add: mem_malloc_start request_ok_def)
  ultimately show thesis using that(1) by blast
qed

lemma extents_taken_size:
  assumes "request n \<le> start qs MEM_SIZE_ALIGNED - (b + 8)"
  shows "n \<le> start (tl (taken (request n) b qs)) MEM_SIZE_ALIGNED - (b + 8)"
  using assms request_props(3) [of n] by (auto simp: taken_def)

lemma heap_malloc_live:
  assumes ok: "heap_ok h xs" and n: "request_ok n"
  shows "\<exists>p h'. mem_malloc n h = Some (p, h') \<and> heap_inv h' \<and>
    (if p = 0 then heap_live h' = heap_live h
     else p \<notin> fst ` heap_live h \<and> (\<exists>m. n \<le> m \<and> heap_live h' = insert (p, m) (heap_live h)))"
proof (cases rule: mem_malloc_cases [OF ok n])
  case 1
  then show ?thesis using ok by (auto simp: heap_inv_def)
next
  case (2 ps b qs h')
  let ?m = "start (tl (taken (request n) b qs)) MEM_SIZE_ALIGNED - (b + 8)"
  have "heap_live h' = insert (ram h + b + 8, ?m) (heap_live h)"
    unfolding heap_live_eq [OF 2(4)] heap_live_eq [OF ok] 2(5) 2(2) by (rule extents_taken)
  moreover have "(b, True) \<notin> set xs"
    using seg_distinct [OF heap_ok_seg [OF ok]] unfolding 2(2) by force
  then have "ram h + b + 8 \<notin> fst ` heap_live h"
    unfolding heap_live_eq [OF ok] extents_mem [symmetric] .
  ultimately show ?thesis
    using 2(1,4) extents_taken_size [OF 2(6)] by (auto simp: heap_inv_def)
qed

lemma extents_split:
  "(a, m) \<in> extents r xs e \<Longrightarrow> \<exists>ps b qs. xs = ps @ (b, True) # qs \<and> a = r + b + 8 \<and> m = start qs e - (b + 8)"
proof (induction r xs e rule: extents.induct)
  case (2 r b u xs e)
  show ?case
  proof (cases "(a, m) \<in> extents r xs e")
    case True
    then obtain ps c qs where "xs = ps @ (c, True) # qs" "a = r + c + 8" "m = start qs e - (c + 8)"
      using 2(1,2) by blast
    then show ?thesis by (intro exI [of _ "(b, u) # ps"] exI [of _ c] exI [of _ qs]) simp
  next
    case False
    then show ?thesis using 2(3) by (intro exI [of _ "[]"] exI [of _ b] exI [of _ xs]) (auto split: if_splits)
  qed
qed simp

lemma heap_free_live:
  assumes "heap_inv h" "(p, m) \<in> heap_live h"
  shows "heap_inv (mem_free p h) \<and> heap_live (mem_free p h) = heap_live h - {(p, m)}"
proof -
  obtain xs where ok: "heap_ok h xs" using assms(1) by (auto simp: heap_inv_def)
  then obtain ps b qs where xs: "xs = ps @ (b, True) # qs" "p = ram h + b + 8"
      "m = start qs MEM_SIZE_ALIGNED - (b + 8)"
    using extents_split assms(2) unfolding heap_live_eq [OF ok] by blast
  have ok': "heap_ok h (ps @ (b, True) # qs)" using ok xs by simp
  note free = mem_free_rep [OF ok']
  have "heap_live (mem_free p h) = heap_live h - {(p, m)}"
    unfolding xs(2,3) heap_live_eq [OF ok'] heap_live_eq [OF free(1)] free(2)
    by (rule extents_afree [OF heap_ok_seg [OF ok']])
  then show ?thesis using free(1) by (auto simp: heap_inv_def xs(2))
qed

lemma heap_live_bounds:
  assumes "heap_inv h" "(p, m) \<in> heap_live h"
  shows "4 dvd p" "ram h + 8 \<le> p" "p + m \<le> ram h + MEM_SIZE_ALIGNED" "12 \<le> m"
proof -
  obtain xs where ok: "heap_ok h xs" using assms(1) by (auto simp: heap_inv_def)
  have "4 dvd ram h" using ok by (simp add: heap_ok_def heap_rep_def)
  moreover have "ram h + start xs MEM_SIZE_ALIGNED + 8 \<le> p \<and> 12 \<le> m \<and> p + m \<le> ram h + MEM_SIZE_ALIGNED \<and> 4 dvd p - ram h"
    using assms(2) unfolding heap_live_eq [OF ok] by (rule extents_bounds [OF heap_ok_seg [OF ok]])
  ultimately show "4 dvd p" "ram h + 8 \<le> p" "p + m \<le> ram h + MEM_SIZE_ALIGNED" "12 \<le> m"
    by (auto dest: dvd_diffD)
qed

interpretation heap: allocator heap_inv heap_live request_ok "\<lambda>n. n" mem_malloc mem_free
proof
  fix h r assume "heap_inv h" "request_ok r"
  then show "\<exists>p h'. mem_malloc r h = Some (p, h') \<and> heap_inv h' \<and>
      (if p = 0 then heap_live h' = heap_live h
       else p \<notin> fst ` heap_live h \<and> (\<exists>m. r \<le> m \<and> heap_live h' = insert (p, m) (heap_live h)))"
    using heap_malloc_live unfolding heap_inv_def [of h] by blast
next
  fix h p m assume "heap_inv h" "(p, m) \<in> heap_live h"
  then show "heap_inv (mem_free p h) \<and> heap_live (mem_free p h) = heap_live h - {(p, m)}"
    by (rule heap_free_live)
next
  fix h x y assume "heap_inv h" "x \<in> heap_live h" "y \<in> heap_live h" "x \<noteq> y"
  then show "apart x y" using extents_apart heap_ok_seg heap_live_eq unfolding heap_inv_def by metis
next
  fix h p m k assume "heap_inv h" "(p, m) \<in> heap_live h" "(p, k) \<in> heap_live h"
  then show "m = k" using extents_fst heap_ok_seg heap_live_eq unfolding heap_inv_def by metis
qed

section \<open>Initialisation\<close>

lemma mem_init_ok:
  assumes "0 < ram_heap" "LWIP_MEM_ALIGN_SIZE ram_heap + 30728 \<le> 4294967296"
  shows "heap_ok (mem_init ram_heap h) [(0, False)]"
proof -
  have "4 dvd LWIP_MEM_ALIGN_SIZE ram_heap" by (simp add: LWIP_MEM_ALIGN_SIZE_def)
  moreover have "0 < LWIP_MEM_ALIGN_SIZE ram_heap" using assms(1) by (simp add: LWIP_MEM_ALIGN_SIZE_def)
  ultimately show ?thesis
    using assms(2) by (simp add: heap_ok_def heap_rep_def mem_init_def ram_end_def ptr_to_mem_def
        lowest_free_def Let_def mem_consts [folded mem_consts])
qed

lemma mem_init_client:
  assumes "0 < ram_heap" "LWIP_MEM_ALIGN_SIZE ram_heap + 30728 \<le> 4294967296"
  shows "heap_inv (mem_init ram_heap h) \<and> heap_live (mem_init ram_heap h) = {}"
  using heap_live_eq [OF mem_init_ok [OF assms]] mem_init_ok [OF assms] by (auto simp: heap_inv_def)

text \<open>The heap of a linker map that puts \<open>ram_heap\<close> at the start of SRAM, after two allocations.\<close>

definition heap_boot :: heap where
  "heap_boot = mem_init 536870912 \<lparr>ram = 0, blk = (\<lambda>_. \<lparr>mem_next = 0, mem_prev = 0, mem_used = 0\<rparr>), lfree = 0\<rparr>"

lemma boot_ok: "heap_ok heap_boot [(0, False)]" "ram heap_boot = 536870912"
  unfolding heap_boot_def
  by (rule mem_init_ok) (simp_all add: LWIP_MEM_ALIGN_SIZE_def mem_init_def Let_def)

lemma boot_two:
  obtains h1 h2 where "mem_malloc 100 heap_boot = Some (536870920, h1)"
    "heap_ok h1 [(0, True), (108, False)]" "ram h1 = 536870912"
    "mem_malloc 60 h1 = Some (536871028, h2)"
    "heap_ok h2 [(0, True), (108, True), (176, False)]" "ram h2 = 536870912"
proof -
  note m = mem_malloc_refines
  have r: "request 100 = 100" "request 60 = 60" by (simp_all add: request_def LWIP_MEM_ALIGN_SIZE_def)
  obtain h1 where h1: "mem_malloc 100 heap_boot = Some (536870920, h1)"
      "heap_ok h1 [(0, True), (108, False)]" "ram h1 = 536870912"
    using m [OF boot_ok(1), of 100] by (auto simp: r boot_ok(2))
  obtain h2 where "mem_malloc 60 h1 = Some (536871028, h2)"
      "heap_ok h2 [(0, True), (108, True), (176, False)]" "ram h2 = 536870912"
    using m [OF h1(2), of 60] by (auto simp: r h1(3))
  then show thesis using that h1 by blast
qed

section \<open>Properties\<close>

text \<open>
  C1. Whatever the request, \<open>mem_malloc\<close> returns: it hands out the first free block in address order
  that holds the aligned request, split when the remainder can hold a block of its own, and returns
  \<open>NULL\<close> with the heap unchanged exactly when no free block is large enough.
\<close>
theorem mem_malloc_first_fit:
  assumes "heap_ok h xs" "0 < n" "n < 65536"
  shows "case amalloc (request n) xs MEM_SIZE_ALIGNED of
      None \<Rightarrow> mem_malloc n h = Some (0, h) \<and>
        (\<forall>ps b qs. xs = ps @ (b, False) # qs \<longrightarrow> start qs MEM_SIZE_ALIGNED - (b + 8) < request n)
    | Some (b, ys) \<Rightarrow> \<exists>h'. mem_malloc n h = Some (ram h + b + 8, h') \<and> heap_ok h' ys \<and> ram h' = ram h"
proof -
  have ok: "request_ok n" using assms by (simp add: request_ok_def)
  show ?thesis
  proof (cases rule: mem_malloc_cases [OF assms(1) ok])
    case 1
    then show ?thesis using amalloc_None [of "request n" xs MEM_SIZE_ALIGNED] by (simp del: mem_consts)
  next
    case (2 ps b qs h')
    then show ?thesis unfolding 2(3) by simp
  qed
qed

theorem mem_malloc_first_fit_witness:
  "\<exists>h'. mem_malloc 100 heap_boot = Some (536870920, h') \<and> heap_ok h' [(0, True), (108, False)]"
  using mem_malloc_first_fit [OF boot_ok(1), of 100]
  by (auto simp: request_def LWIP_MEM_ALIGN_SIZE_def boot_ok(2))

text \<open>
  C2. Memory safety of the heap: whatever sequence of allocations and releases led to a state, a block
  that \<open>mem_malloc\<close> returns there is aligned, lies inside the heap with all the bytes that were asked
  for, was not owned before and overlaps no block that is.
\<close>
theorem mem_malloc_safe:
  assumes "0 < ram_heap" "LWIP_MEM_ALIGN_SIZE ram_heap + 30728 \<le> 4294967296"
    and "client mem_malloc mem_free request_ok (mem_init ram_heap h0) h owned"
    and "request_ok n" "mem_malloc n h = Some (p, h')" "p \<noteq> 0"
  shows "p \<notin> owned \<and> 4 dvd p \<and> ram h' + 8 \<le> p \<and> p + n \<le> ram h' + MEM_SIZE_ALIGNED \<and>
    (\<forall>q \<in> owned. \<exists>k. 12 \<le> k \<and> (q, k) \<in> heap_live h' \<and> apart (p, n) (q, k))"
proof -
  note init = mem_init_client [OF assms(1,2), of h0]
  note inv = heap.client_inv [OF assms(3) init [THEN conjunct1] init [THEN conjunct2]]
  obtain m where m: "p \<notin> owned" "n \<le> m" "heap_live h' = insert (p, m) (heap_live h)"
    using heap.client_fresh [OF assms(3) init [THEN conjunct1] init [THEN conjunct2] assms(4-6)] by blast
  have inv': "heap_inv h'" using heap.alloc_law [of h n] inv assms(4,5) by auto
  note b = heap_live_bounds [OF inv', of p m]
  have "\<exists>k. 12 \<le> k \<and> (q, k) \<in> heap_live h' \<and> apart (p, n) (q, k)" if q: "q \<in> owned" for q
  proof -
    obtain k where k: "(q, k) \<in> heap_live h" using inv q by force
    have "(p, m) \<noteq> (q, k)" using m(1) q by auto
    then have "apart (p, m) (q, k)" using heap.live_apart [OF inv'] k m(3) by auto
    then show ?thesis using heap_live_bounds(4) [OF inv', of q k] k m by (auto simp: apart_def)
  qed
  then show ?thesis using m b by auto
qed

theorem mem_malloc_safe_witness:
  "\<exists>h1 h2 k. mem_malloc 100 heap_boot = Some (536870920, h1) \<and> mem_malloc 60 h1 = Some (536871028, h2) \<and>
    4 dvd (536871028 :: nat) \<and> (536870920, k) \<in> heap_live h2 \<and> apart (536871028, 60) (536870920, k)"
proof -
  obtain h1 h2 where h: "mem_malloc 100 heap_boot = Some (536870920, h1)" "mem_malloc 60 h1 = Some (536871028, h2)"
    using boot_two by metis
  have ok: "request_ok 100" "request_ok 60" by (simp_all add: request_ok_def)
  have "client mem_malloc mem_free request_ok heap_boot h1 (insert 536870920 {})"
    by (rule client.got [where h = heap_boot and r = 100]) (simp_all add: client.start ok(1) h(1))
  then have "client mem_malloc mem_free request_ok (mem_init 536870912
      \<lparr>ram = 0, blk = (\<lambda>_. \<lparr>mem_next = 0, mem_prev = 0, mem_used = 0\<rparr>), lfree = 0\<rparr>) h1 (insert 536870920 {})"
    by (simp add: heap_boot_def)
  from mem_malloc_safe [OF _ _ this ok(2) h(2)] show ?thesis
    using h by (auto simp: LWIP_MEM_ALIGN_SIZE_def)
qed

text \<open>
  C3. Releasing an allocated block makes it free, merged with a free neighbour on either side, and keeps
  the invariant, so that never two free blocks are adjacent.
\<close>
theorem mem_free_merges:
  assumes "heap_ok h (ps @ (b, True) # qs)"
  shows "heap_ok (mem_free (ram h + b + 8) h) (afree ps b qs) \<and> ram (mem_free (ram h + b + 8) h) = ram h"
  using mem_free_rep [OF assms] by simp

theorem mem_free_merges_witness:
  "\<exists>h2. heap_ok (mem_free 536871028 h2) [(0, True), (108, False)]"
proof -
  obtain h2 where h2: "heap_ok h2 ([(0, True)] @ (108, True) # [(176, False)])" "ram h2 = 536870912"
    using boot_two by (metis append_Cons append_Nil)
  have "afree [(0, True)] 108 [(176, False)] = [(0, True), (108, False)]"
    by (simp add: afree_def drop_free_def)
  then show ?thesis using mem_free_merges [OF h2(1)] h2(2) by auto
qed

text \<open>
  \<open>mem_free\<close> ignores what it was not given by the heap: \<open>NULL\<close>, a misaligned pointer, a pointer outside
  the heap (from address 8 on; below it the subtraction of the header size wraps around), and a block
  that is already free.
\<close>
theorem mem_free_ignores:
  assumes "heap_ok h xs" "p < 4294967296"
    and "p = 0 \<or> \<not> 4 dvd p \<or> 8 \<le> p \<and> p < ram h + 8 \<or> ram h + MEM_SIZE_ALIGNED < p + 12 \<or>
      (\<exists>b. (b, False) \<in> set xs \<and> p = ram h + b + 8)"
  shows "mem_free p h = h"
proof -
  have ram: "8 \<le> p \<Longrightarrow> usub32 p 8 = p - 8" using assms(2) by (simp add: usub32_le)
  consider "p = 0 \<or> \<not> 4 dvd p" | "4 dvd p" "0 < p" "8 \<le> p \<and> p < ram h + 8 \<or> ram h + MEM_SIZE_ALIGNED < p + 12"
    | b where "(b, False) \<in> set xs" "p = ram h + b + 8"
    using assms(3) by blast
  then show ?thesis
  proof cases
    case 1
    then show ?thesis by (auto simp: mem_free_def mod_eq_0_iff_dvd)
  next
    case 2
    show ?thesis
    proof (cases "8 \<le> p")
      case True
      then show ?thesis using 2 ram by (auto simp: mem_free_def Let_def ram_end_def ptr_to_mem_def)
    next
      case False
      then show ?thesis using 2 by simp
    qed
  next
    case (3 b)
    obtain ps qs where "xs = ps @ (b, False) # qs" using 3(1) by (meson split_list)
    then have "blk h b = \<lparr>mem_next = start qs MEM_SIZE_ALIGNED, mem_prev = final 0 ps, mem_used = 0\<rparr>"
      using seg_blk(1) heap_ok_seg [OF assms(1)] by fastforce
    then show ?thesis using 3 ram by (simp add: mem_free_def Let_def)
  qed
qed

theorem mem_free_ignores_witness:
  "mem_free 536870920 heap_boot = heap_boot \<and> mem_free 0 heap_boot = heap_boot \<and>
   mem_free 536870921 heap_boot = heap_boot"
  using mem_free_ignores [OF boot_ok(1), of 536870920] mem_free_ignores [OF boot_ok(1), of 0]
    mem_free_ignores [OF boot_ok(1), of 536870921] by (simp add: boot_ok(2))

text \<open>
  C20. An allocation followed by the release of the block it returned leaves the heap with the blocks it
  had before: nothing is lost to fragmentation.
\<close>
theorem mem_malloc_free_round_trip:
  assumes "heap_ok h xs" "0 < n" "n < 65536" "mem_malloc n h = Some (p, h')" "p \<noteq> 0"
  shows "heap_ok (mem_free p h') xs \<and> ram (mem_free p h') = ram h"
proof -
  have ok: "request_ok n" using assms by (simp add: request_ok_def)
  show ?thesis
  proof (cases rule: mem_malloc_cases [OF assms(1) ok])
    case 1
    have "p = 0" using 1(1) unfolding assms(4) by simp
    then show ?thesis using assms(5) by simp
  next
    case (2 ps b qs h2)
    have adj: "no_adj (ps @ (b, False) # qs)" using assms(1) 2(2) by (simp add: heap_ok_def)
    have eq: "h2 = h'" "p = ram h' + b + 8" using 2(1,5) assms(4) by auto
    have ok: "heap_ok h' (ps @ (b, True) # tl (taken (request n) b qs))"
      using 2(4) eq(1) by (simp add: taken_def)
    have "drop_free (tl (taken (request n) b qs)) = qs"
      using adj by (cases rule: drop_free_cases [of qs])
        (auto simp: taken_def drop_free_def no_adj_append no_adj_Cons)
    moreover have "ps = [] \<or> snd (last ps)" using adj by (auto simp: no_adj_append)
    ultimately have "afree ps b (tl (taken (request n) b qs)) = xs"
      using 2(2) by (auto simp: afree_def)
    then show ?thesis using mem_free_rep [OF ok] eq 2(5) by simp
  qed
qed

theorem mem_malloc_free_round_trip_witness:
  "\<exists>h'. mem_malloc 100 heap_boot = Some (536870920, h') \<and> heap_ok (mem_free 536870920 h') [(0, False)]"
proof -
  obtain h' where h': "mem_malloc 100 heap_boot = Some (536870920, h')" using boot_two by metis
  then show ?thesis using mem_malloc_free_round_trip [OF boot_ok(1) _ _ h'] by simp
qed

text \<open>
  C21. \<open>mem_trim\<close> never enlarges a block: it returns \<open>NULL\<close> and changes nothing when the new size does not
  fit the block, and otherwise returns the block itself, whose tail has joined a free successor or has
  become a free block when it is large enough for one.
\<close>
theorem mem_trim_refines:
  assumes "heap_ok h (ps @ (b, True) # qs)" "new_size < 65536"
  shows "if start qs MEM_SIZE_ALIGNED - (b + 8) < request new_size
    then mem_trim (ram h + b + 8) new_size h = (0, h)
    else \<exists>h'. mem_trim (ram h + b + 8) new_size h = (ram h + b + 8, h') \<and> ram h' = ram h \<and>
      heap_ok h' (if request new_size = start qs MEM_SIZE_ALIGNED - (b + 8) then ps @ (b, True) # qs
                  else atrim ps b (request new_size) qs)"
  using mem_trim_rep [OF assms] by (cases "start qs MEM_SIZE_ALIGNED - (b + 8) < request new_size") auto

theorem mem_trim_refines_witness:
  "\<exists>h h'. mem_trim 536870920 40 h = (536870920, h') \<and> heap_ok h' [(0, True), (48, False), (108, True), (176, False)]"
proof -
  obtain h where h: "heap_ok h ([] @ (0, True) # [(108, True), (176, False)])" "ram h = 536870912"
    using boot_two by (metis append_Nil)
  have "atrim [] 0 (request 40) [(108, True), (176, False)] = [(0, True), (48, False), (108, True), (176, False)]"
    by (simp add: atrim_def request_def LWIP_MEM_ALIGN_SIZE_def)
  then show ?thesis
    using mem_trim_refines [OF h(1), of 40] h(2) by (auto simp: request_def LWIP_MEM_ALIGN_SIZE_def)
qed

end
