(* ===== verification/Lwip_Memp.thy ===== *)
theory Lwip_Memp
  imports Lwip_Mem Lwip_Alloc
begin

text \<open>
  The fixed-size pools of \<open>lwIP/core/memp.c\<close>, without overflow checks and statistics as this firmware
  builds them: a pool is an array of elements, and its free elements are chained through the first
  word of their own memory. The descriptors (\<open>memp_pools\<close>, generated from \<open>memp_std.h\<close> with the sizes of
  the control blocks and the addresses the linker chose) are an argument of the operations.
\<close>

section \<open>Model\<close>

record memp_desc =
  memp_size :: nat
  memp_num :: nat
  memp_base :: nat

text \<open>\<open>tab\<close> holds the first free element of each pool, \<open>nxt\<close> the link stored in a free element.\<close>

record memp_state =
  memp_tab :: "nat \<Rightarrow> nat"
  memp_next :: "nat \<Rightarrow> nat"

definition MEMP_SIZE :: nat where "MEMP_SIZE = 0"

definition LWIP_MEM_ALIGN :: "nat \<Rightarrow> nat" where
  "LWIP_MEM_ALIGN addr = (addr + 3) div 4 * 4"

fun memp_link :: "nat \<Rightarrow> nat \<Rightarrow> nat \<Rightarrow> nat \<Rightarrow> memp_state \<Rightarrow> memp_state" where
  "memp_link t sz 0 memp s = s"
| "memp_link t sz (Suc k) memp s =
    memp_link t sz k (memp + MEMP_SIZE + sz)
      (s\<lparr>memp_next := (memp_next s)(memp := memp_tab s t), memp_tab := (memp_tab s)(t := memp)\<rparr>)"

definition memp_init_pool :: "nat \<Rightarrow> memp_desc \<Rightarrow> memp_state \<Rightarrow> memp_state" where
  "memp_init_pool t desc s =
    memp_link t (memp_size desc) (memp_num desc) (LWIP_MEM_ALIGN (memp_base desc))
      (s\<lparr>memp_tab := (memp_tab s)(t := 0)\<rparr>)"

definition memp_init :: "memp_desc list \<Rightarrow> memp_state \<Rightarrow> memp_state" where
  "memp_init pools s = fold (\<lambda>i. memp_init_pool i (pools ! i)) [0..<length pools] s"

definition do_memp_malloc_pool :: "nat \<Rightarrow> memp_state \<Rightarrow> nat \<times> memp_state" where
  "do_memp_malloc_pool t s =
    (let memp = memp_tab s t
     in if memp \<noteq> 0 then (memp + MEMP_SIZE, s\<lparr>memp_tab := (memp_tab s)(t := memp_next s memp)\<rparr>)
        else (0, s))"

text \<open>The pool of a descriptor is named by its index; \<open>None\<close> is a \<open>NULL\<close> descriptor.\<close>

definition memp_malloc_pool :: "nat option \<Rightarrow> memp_state \<Rightarrow> nat \<times> memp_state" where
  "memp_malloc_pool desc s = (case desc of None \<Rightarrow> (0, s) | Some t \<Rightarrow> do_memp_malloc_pool t s)"

definition memp_malloc :: "memp_desc list \<Rightarrow> nat \<Rightarrow> memp_state \<Rightarrow> nat \<times> memp_state" where
  "memp_malloc pools t s = (if \<not> t < length pools then (0, s) else do_memp_malloc_pool t s)"

definition do_memp_free_pool :: "nat \<Rightarrow> nat \<Rightarrow> memp_state \<Rightarrow> memp_state" where
  "do_memp_free_pool t mem s =
    (let memp = mem - MEMP_SIZE
     in s\<lparr>memp_next := (memp_next s)(memp := memp_tab s t), memp_tab := (memp_tab s)(t := memp)\<rparr>)"

definition memp_free_pool :: "nat option \<Rightarrow> nat \<Rightarrow> memp_state \<Rightarrow> memp_state" where
  "memp_free_pool desc mem s =
    (case desc of None \<Rightarrow> s | Some t \<Rightarrow> if mem = 0 then s else do_memp_free_pool t mem s)"

definition memp_free :: "memp_desc list \<Rightarrow> nat \<Rightarrow> nat \<Rightarrow> memp_state \<Rightarrow> memp_state" where
  "memp_free pools t mem s =
    (if \<not> t < length pools then s else if mem = 0 then s else do_memp_free_pool t mem s)"

section \<open>Invariant\<close>

fun chain :: "(nat \<Rightarrow> nat) \<Rightarrow> nat \<Rightarrow> nat list \<Rightarrow> bool" where
  "chain n a [] = (a = 0)"
| "chain n a (x # xs) = (a = x \<and> a \<noteq> 0 \<and> chain n (n x) xs)"

lemma chain_unique: "chain n a xs \<Longrightarrow> chain n a ys \<Longrightarrow> xs = ys"
proof (induction n a xs arbitrary: ys rule: chain.induct)
  case (1 n a)
  then show ?case by (cases ys) auto
next
  case (2 n a x xs)
  then show ?case by (cases ys) auto
qed

lemma chain_upd: "x \<notin> set xs \<Longrightarrow> chain (n(x := y)) a xs = chain n a xs"
  by (induction n a xs rule: chain.induct) auto

lemma chain_cong: "\<forall>x \<in> set xs. n' x = n x \<Longrightarrow> chain n' a xs = chain n a xs"
  by (induction n a xs rule: chain.induct) auto

lemma chain_nonnull: "chain n a xs \<Longrightarrow> 0 \<notin> set xs"
  by (induction n a xs rule: chain.induct) auto

lemma chain_suffix: "chain n a (ys @ x # zs) \<Longrightarrow> chain n x (x # zs)"
  by (induction ys arbitrary: a) auto

lemma chain_distinct: "chain n a xs \<Longrightarrow> distinct xs"
proof (induction xs arbitrary: a)
  case (Cons x xs)
  have "x \<notin> set xs"
  proof
    assume "x \<in> set xs"
    then obtain ys zs where xs: "xs = ys @ x # zs" by (meson split_list)
    have "chain n (n x) (ys @ x # zs)" using Cons.prems xs by simp
    then have "chain n x (x # zs)" by (rule chain_suffix)
    moreover have "chain n x (x # xs)" using Cons.prems by simp
    ultimately have "x # xs = x # zs" using chain_unique by blast
    then show False using xs by simp
  qed
  then show ?case using Cons by auto
qed simp

text \<open>The addresses of a pool's elements.\<close>

definition elems :: "memp_desc \<Rightarrow> nat set" where
  "elems d = (\<lambda>k. LWIP_MEM_ALIGN (memp_base d) + k * memp_size d) ` {..<memp_num d}"

definition pools_wf :: "memp_desc list \<Rightarrow> bool" where
  "pools_wf pools \<longleftrightarrow>
    (\<forall>t < length pools. 0 < memp_size (pools ! t) \<and> 4 dvd memp_size (pools ! t) \<and> 0 < memp_base (pools ! t)) \<and>
    (\<forall>t < length pools. \<forall>u < length pools. t \<noteq> u \<longrightarrow>
      apart (LWIP_MEM_ALIGN (memp_base (pools ! t)), memp_num (pools ! t) * memp_size (pools ! t))
            (LWIP_MEM_ALIGN (memp_base (pools ! u)), memp_num (pools ! u) * memp_size (pools ! u)))"

definition free_list :: "memp_desc list \<Rightarrow> memp_state \<Rightarrow> nat \<Rightarrow> nat list \<Rightarrow> bool" where
  "free_list pools s t xs \<longleftrightarrow>
    chain (memp_next s) (memp_tab s t) xs \<and> distinct xs \<and> set xs \<subseteq> elems (pools ! t)"

definition memp_inv :: "memp_desc list \<Rightarrow> memp_state \<Rightarrow> bool" where
  "memp_inv pools s \<longleftrightarrow> pools_wf pools \<and> (\<forall>t < length pools. \<exists>xs. free_list pools s t xs)"

text \<open>The elements of pool \<open>t\<close> that are in use.\<close>

definition memp_used :: "memp_desc list \<Rightarrow> nat \<Rightarrow> memp_state \<Rightarrow> nat set" where
  "memp_used pools t s = elems (pools ! t) - \<Union> {set xs |xs. chain (memp_next s) (memp_tab s t) xs}"

lemma memp_used_eq: "free_list pools s t xs \<Longrightarrow> memp_used pools t s = elems (pools ! t) - set xs"
proof -
  assume "free_list pools s t xs"
  then have "{set ys |ys. chain (memp_next s) (memp_tab s t) ys} = {set xs}"
    using chain_unique by (auto simp: free_list_def)
  then show ?thesis by (simp add: memp_used_def)
qed

lemma LWIP_MEM_ALIGN_props: "4 dvd LWIP_MEM_ALIGN a" "a \<le> LWIP_MEM_ALIGN a"
  by (simp_all add: LWIP_MEM_ALIGN_def)

lemma elem_props:
  assumes "pools_wf pools" "t < length pools" "a \<in> elems (pools ! t)"
  shows "a \<noteq> 0" "4 dvd a" "LWIP_MEM_ALIGN (memp_base (pools ! t)) \<le> a"
    "a + memp_size (pools ! t) \<le>
      LWIP_MEM_ALIGN (memp_base (pools ! t)) + memp_num (pools ! t) * memp_size (pools ! t)"
proof -
  let ?d = "pools ! t"
  obtain k where k: "k < memp_num ?d" "a = LWIP_MEM_ALIGN (memp_base ?d) + k * memp_size ?d"
    using assms(3) by (auto simp: elems_def)
  have d: "0 < memp_base ?d" "4 dvd memp_size ?d" using assms(1,2) by (simp_all add: pools_wf_def)
  show "a \<noteq> 0" using d(1) LWIP_MEM_ALIGN_props(2) [of "memp_base ?d"] k(2) by simp
  show "4 dvd a" using d(2) LWIP_MEM_ALIGN_props(1) [of "memp_base ?d"] k(2) by simp
  show "LWIP_MEM_ALIGN (memp_base ?d) \<le> a" using k(2) by simp
  have "Suc k * memp_size ?d \<le> memp_num ?d * memp_size ?d" using k(1) by (intro mult_le_mono1) simp
  then show "a + memp_size ?d \<le> LWIP_MEM_ALIGN (memp_base ?d) + memp_num ?d * memp_size ?d"
    using k(2) by simp
qed

lemma elems_apart:
  assumes "pools_wf pools" "t < length pools" "a \<in> elems (pools ! t)" "b \<in> elems (pools ! t)" "a \<noteq> b"
  shows "apart (a, memp_size (pools ! t)) (b, memp_size (pools ! t))"
proof -
  let ?d = "pools ! t"
  obtain j k where jk: "a = LWIP_MEM_ALIGN (memp_base ?d) + j * memp_size ?d"
      "b = LWIP_MEM_ALIGN (memp_base ?d) + k * memp_size ?d"
    using assms(3,4) by (auto simp: elems_def)
  have "j < k \<or> k < j" using assms(5) jk by auto
  then have "Suc j * memp_size ?d \<le> k * memp_size ?d \<or> Suc k * memp_size ?d \<le> j * memp_size ?d"
    by (metis Suc_leI mult_le_mono1)
  then show ?thesis using jk by (auto simp: apart_def)
qed

lemma elems_disjoint:
  assumes "pools_wf pools" "t < length pools" "u < length pools" "t \<noteq> u"
  shows "elems (pools ! t) \<inter> elems (pools ! u) = {}"
proof -
  have "0 < memp_size (pools ! t)" "0 < memp_size (pools ! u)"
    and ap: "apart (LWIP_MEM_ALIGN (memp_base (pools ! t)), memp_num (pools ! t) * memp_size (pools ! t))
            (LWIP_MEM_ALIGN (memp_base (pools ! u)), memp_num (pools ! u) * memp_size (pools ! u))"
    using assms by (auto simp: pools_wf_def)
  then have "a \<notin> elems (pools ! u)" if "a \<in> elems (pools ! t)" for a
    using elem_props(3,4) [OF assms(1,2) that] elem_props(3,4) [OF assms(1,3), of a]
    by (auto simp: apart_def)
  then show ?thesis by blast
qed

section \<open>Operations keep the invariant\<close>

text \<open>
  A change of the links that touches no free element keeps the invariant: the user of an element may
  overwrite it, links included.
\<close>

lemma free_list_cong:
  assumes "free_list pools s u xs" "memp_tab s' u = memp_tab s u" "\<forall>x \<in> set xs. memp_next s' x = memp_next s x"
  shows "free_list pools s' u xs"
  using assms chain_cong [of xs "memp_next s'" "memp_next s"] by (simp add: free_list_def)

lemma memp_malloc_cases:
  assumes inv: "memp_inv pools s" and t: "t < length pools"
  obtains "memp_malloc pools t s = (0, s)" "memp_used pools t s = elems (pools ! t)"
  | x xs s' where "memp_malloc pools t s = (x, s')" "x \<noteq> 0" "free_list pools s t (x # xs)"
      "free_list pools s' t xs" "memp_next s' = memp_next s" "\<And>u. u \<noteq> t \<Longrightarrow> memp_tab s' u = memp_tab s u"
proof -
  obtain xs where xs: "free_list pools s t xs" using inv t by (auto simp: memp_inv_def)
  show thesis
  proof (cases xs)
    case Nil
    then show thesis
      using that(1) xs memp_used_eq [OF xs] t
      by (simp add: memp_malloc_def do_memp_malloc_pool_def free_list_def)
  next
    case (Cons x ys)
    then have tab: "memp_tab s t = x" "x \<noteq> 0" using xs by (auto simp: free_list_def)
    let ?s = "s\<lparr>memp_tab := (memp_tab s)(t := memp_next s x)\<rparr>"
    show thesis
      by (rule that(2) [of x ?s ys])
        (use xs t tab Cons in \<open>auto simp: memp_malloc_def do_memp_malloc_pool_def MEMP_SIZE_def free_list_def Let_def\<close>)
  qed
qed

lemma memp_malloc_other:
  assumes "memp_inv pools s" "t < length pools" "u \<noteq> t"
  shows "memp_used pools u (snd (memp_malloc pools t s)) = memp_used pools u s"
  using assms(2,3) by (auto simp: memp_malloc_def do_memp_malloc_pool_def memp_used_def Let_def)

lemma memp_malloc_inv:
  assumes inv: "memp_inv pools s" and t: "t < length pools"
  shows "memp_inv pools (snd (memp_malloc pools t s))"
proof (cases rule: memp_malloc_cases [OF inv t])
  case 1
  then show ?thesis using inv by simp
next
  case (2 x xs s')
  have "\<exists>ys. free_list pools s' u ys" if u: "u < length pools" for u
  proof (cases "u = t")
    case True
    then show ?thesis using 2 by auto
  next
    case False
    obtain ys where "free_list pools s u ys" using inv u by (auto simp: memp_inv_def)
    then show ?thesis using free_list_cong [of pools s u ys s'] 2(5,6) False by auto
  qed
  then show ?thesis using inv 2(1) by (simp add: memp_inv_def)
qed

lemma memp_malloc_used:
  assumes inv: "memp_inv pools s" and t: "t < length pools" and x: "memp_malloc pools t s = (x, s')"
  shows "x = 0 \<longleftrightarrow> memp_used pools t s = elems (pools ! t)"
    "x \<noteq> 0 \<Longrightarrow> x \<in> elems (pools ! t) - memp_used pools t s \<and>
      memp_used pools t s' = insert x (memp_used pools t s)"
    "x = 0 \<Longrightarrow> s' = s"
proof -
  consider "s' = s" "x = 0" "memp_used pools t s = elems (pools ! t)"
    | xs where "x \<noteq> 0" "free_list pools s t (x # xs)" "free_list pools s' t xs"
    using memp_malloc_cases [OF inv t] x by (metis prod.inject)
  then have "(x = 0 \<longleftrightarrow> memp_used pools t s = elems (pools ! t)) \<and>
    (x \<noteq> 0 \<longrightarrow> x \<in> elems (pools ! t) - memp_used pools t s \<and>
      memp_used pools t s' = insert x (memp_used pools t s)) \<and> (x = 0 \<longrightarrow> s' = s)"
  proof cases
    case 2
    have "x \<in> elems (pools ! t)" "x \<notin> set xs" using 2(2) by (auto simp: free_list_def)
    then show ?thesis
      using 2(1) unfolding memp_used_eq [OF 2(2)] memp_used_eq [OF 2(3)] by auto
  qed simp
  then show "x = 0 \<longleftrightarrow> memp_used pools t s = elems (pools ! t)"
    "x \<noteq> 0 \<Longrightarrow> x \<in> elems (pools ! t) - memp_used pools t s \<and>
      memp_used pools t s' = insert x (memp_used pools t s)"
    "x = 0 \<Longrightarrow> s' = s" by simp_all
qed

lemma memp_free_used:
  assumes inv: "memp_inv pools s" and t: "t < length pools" and x: "x \<in> memp_used pools t s"
  shows "memp_inv pools (memp_free pools t x s)"
    "memp_used pools t (memp_free pools t x s) = memp_used pools t s - {x}"
    "u < length pools \<Longrightarrow> u \<noteq> t \<Longrightarrow> memp_used pools u (memp_free pools t x s) = memp_used pools u s"
proof -
  let ?s = "memp_free pools t x s"
  have wf: "pools_wf pools" using inv by (simp add: memp_inv_def)
  have e: "x \<in> elems (pools ! t)" using x by (simp add: memp_used_def)
  have x0: "x \<noteq> 0" using elem_props(1) [OF wf t e] .
  have s': "memp_next ?s = (memp_next s)(x := memp_tab s t)" "memp_tab ?s = (memp_tab s)(t := x)"
    using t x0 by (simp_all add: memp_free_def do_memp_free_pool_def Let_def MEMP_SIZE_def)
  obtain xs where xs: "free_list pools s t xs" using inv t by (auto simp: memp_inv_def)
  have nx: "x \<notin> set xs" using x unfolding memp_used_eq [OF xs] by simp
  have t': "free_list pools ?s t (x # xs)"
    using xs nx x0 e by (simp add: free_list_def s' chain_upd)
  have other: "free_list pools ?s v ys" if "v < length pools" "v \<noteq> t" "free_list pools s v ys" for v ys
  proof -
    have "x \<notin> set ys" using elems_disjoint [OF wf that(1) t that(2)] that(3) e by (auto simp: free_list_def)
    then show ?thesis using free_list_cong [OF that(3), of ?s] that(2) by (auto simp: s')
  qed
  show "memp_inv pools ?s"
    unfolding memp_inv_def
  proof (intro conjI allI impI wf)
    fix v assume v: "v < length pools"
    then obtain ys where "free_list pools s v ys" using inv by (auto simp: memp_inv_def)
    then show "\<exists>ys. free_list pools ?s v ys" using t' other [OF v] by (cases "v = t") auto
  qed
  show "memp_used pools t ?s = memp_used pools t s - {x}"
    unfolding memp_used_eq [OF xs] memp_used_eq [OF t'] by auto
  show "memp_used pools u ?s = memp_used pools u s" if u: "u < length pools" "u \<noteq> t"
  proof -
    obtain ys where ys: "free_list pools s u ys" using inv u by (auto simp: memp_inv_def)
    show ?thesis unfolding memp_used_eq [OF ys] memp_used_eq [OF other [OF u ys]] ..
  qed
qed

section \<open>Initialisation\<close>

lemma memp_link_frame:
  "u \<noteq> t \<Longrightarrow> memp_tab (memp_link t sz k a s) u = memp_tab s u"
  "(\<forall>j < k. x \<noteq> a + j * sz) \<Longrightarrow> memp_next (memp_link t sz k a s) x = memp_next s x"
proof (induction t sz k a s rule: memp_link.induct)
  case (2 t sz k a s)
  {
    case 1
    then show ?case using 2(1) by simp
  next
    case 2
    have "x \<noteq> a" "\<forall>j < k. x \<noteq> a + MEMP_SIZE + sz + j * sz"
      using 2 by (auto simp: MEMP_SIZE_def)
    then show ?case using "2.IH"(2) by simp
  }
qed simp_all

lemma memp_link_chain:
  "0 < a \<Longrightarrow> 0 < sz \<Longrightarrow> chain (memp_next s) (memp_tab s t) xs \<Longrightarrow> \<forall>x \<in> set xs. x < a \<Longrightarrow>
    chain (memp_next (memp_link t sz k a s)) (memp_tab (memp_link t sz k a s) t)
      (rev (map (\<lambda>j. a + j * sz) [0..<k]) @ xs)"
proof (induction t sz k a s arbitrary: xs rule: memp_link.induct)
  case (2 t sz k a s)
  let ?s = "s\<lparr>memp_next := (memp_next s)(a := memp_tab s t), memp_tab := (memp_tab s)(t := a)\<rparr>"
  have c: "chain (memp_next ?s) (memp_tab ?s t) (a # xs)"
  proof -
    have "a \<notin> set xs" using 2(5) by auto
    then show ?thesis using 2(2,4) by (simp add: chain_upd)
  qed
  have l: "\<forall>x \<in> set (a # xs). x < a + MEMP_SIZE + sz" using 2(3,5) by auto
  have eq: "rev (map (\<lambda>j. a + j * sz) [0..<Suc k]) @ xs =
      rev (map (\<lambda>j. a + MEMP_SIZE + sz + j * sz) [0..<k]) @ a # xs"
    by (simp only: map_upt_Suc) (simp add: MEMP_SIZE_def)
  show ?case unfolding memp_link.simps eq by (rule 2(1) [OF _ 2(3) c l]) (use 2(2) in simp)
qed simp

lemma memp_init_pool_free:
  assumes "0 < memp_size (pools ! t)" "0 < memp_base (pools ! t)"
  shows "\<exists>xs. free_list pools (memp_init_pool t (pools ! t) s) t xs \<and> set xs = elems (pools ! t)"
proof -
  let ?d = "pools ! t"
  let ?xs = "rev (map (\<lambda>j. LWIP_MEM_ALIGN (memp_base ?d) + j * memp_size ?d) [0..<memp_num ?d])"
  let ?s = "s\<lparr>memp_tab := (memp_tab s)(t := 0)\<rparr>"
  have "0 < LWIP_MEM_ALIGN (memp_base ?d)" using assms(2) LWIP_MEM_ALIGN_props(2) [of "memp_base ?d"] by simp
  from memp_link_chain [OF this assms(1), of ?s t "[]" "memp_num ?d"]
  have "chain (memp_next (memp_init_pool t ?d s)) (memp_tab (memp_init_pool t ?d s) t) ?xs"
    by (simp add: memp_init_pool_def)
  moreover have "distinct ?xs" using assms(1) by (auto simp: distinct_map inj_on_def)
  moreover have "set ?xs = elems ?d" by (simp add: elems_def atLeast0LessThan)
  ultimately have "free_list pools (memp_init_pool t ?d s) t ?xs \<and> set ?xs = elems ?d"
    by (simp only: free_list_def subset_refl simp_thms)
  then show ?thesis by blast
qed

lemma memp_init_pool_frame:
  assumes "u \<noteq> t"
  shows "memp_tab (memp_init_pool t d s) u = memp_tab s u"
    "x \<notin> elems d \<Longrightarrow> memp_next (memp_init_pool t d s) x = memp_next s x"
  using assms by (auto simp: memp_init_pool_def elems_def memp_link_frame image_iff)

text \<open>After the first \<open>n\<close> rounds of \<open>memp_init\<close> the first \<open>n\<close> pools are full.\<close>

lemma memp_init_rounds:
  assumes wf: "pools_wf pools" and "n \<le> length pools"
  shows "\<forall>t < n. \<exists>xs. free_list pools (fold (\<lambda>i. memp_init_pool i (pools ! i)) [0..<n] s) t xs \<and>
    set xs = elems (pools ! t)"
  using assms(2)
proof (induction n)
  case (Suc n)
  let ?s = "fold (\<lambda>i. memp_init_pool i (pools ! i)) [0..<n] s"
  show ?case
  proof (intro allI impI)
    fix t assume "t < Suc n"
    then consider "t = n" | "t < n" "t \<noteq> n" by linarith
    then show "\<exists>xs. free_list pools (fold (\<lambda>i. memp_init_pool i (pools ! i)) [0..<Suc n] s) t xs \<and>
        set xs = elems (pools ! t)"
    proof cases
      case 1
      have "0 < memp_size (pools ! n)" "0 < memp_base (pools ! n)"
        using wf Suc.prems by (simp_all add: pools_wf_def)
      then show ?thesis using memp_init_pool_free [of pools n ?s] 1 by simp
    next
      case 2
      then obtain xs where xs: "free_list pools ?s t xs" "set xs = elems (pools ! t)"
        using Suc by auto
      have "elems (pools ! t) \<inter> elems (pools ! n) = {}"
        using elems_disjoint [OF wf, of t n] 2 Suc.prems by simp
      then have "\<forall>x \<in> set xs. memp_next (memp_init_pool n (pools ! n) ?s) x = memp_next ?s x"
        using memp_init_pool_frame(2) [OF 2(2)] xs(2) by blast
      then have "free_list pools (memp_init_pool n (pools ! n) ?s) t xs"
        using free_list_cong [OF xs(1)] memp_init_pool_frame(1) [OF 2(2)] by blast
      then show ?thesis using xs(2) by auto
    qed
  qed
qed simp

lemma memp_init_inv:
  assumes "pools_wf pools"
  shows "memp_inv pools (memp_init pools s)" "t < length pools \<Longrightarrow> memp_used pools t (memp_init pools s) = {}"
proof -
  have all: "\<exists>xs. free_list pools (memp_init pools s) t xs \<and> set xs = elems (pools ! t)" if "t < length pools" for t
    using memp_init_rounds [OF assms order_refl] that by (simp add: memp_init_def)
  then show "memp_inv pools (memp_init pools s)" using assms by (auto simp: memp_inv_def)
  show "memp_used pools t (memp_init pools s) = {}" if t: "t < length pools"
  proof -
    obtain xs where xs: "free_list pools (memp_init pools s) t xs" "set xs = elems (pools ! t)"
      using all [OF t] by blast
    show ?thesis unfolding memp_used_eq [OF xs(1)] xs(2) by simp
  qed
qed

section \<open>A pool as an allocator\<close>

definition pool_alloc :: "memp_desc list \<Rightarrow> nat \<Rightarrow> unit \<Rightarrow> memp_state \<Rightarrow> (nat \<times> memp_state) option" where
  "pool_alloc pools t r s = Some (memp_malloc pools t s)"

definition pool_live :: "memp_desc list \<Rightarrow> nat \<Rightarrow> memp_state \<Rightarrow> (nat \<times> nat) set" where
  "pool_live pools t s = (\<lambda>a. (a, memp_size (pools ! t))) ` memp_used pools t s"

definition pool_inv :: "memp_desc list \<Rightarrow> nat \<Rightarrow> memp_state \<Rightarrow> bool" where
  "pool_inv pools t s \<longleftrightarrow> memp_inv pools s \<and> t < length pools"

interpretation pool: allocator "pool_inv pools t" "pool_live pools t" "\<lambda>_. True"
  "\<lambda>_. memp_size (pools ! t)" "pool_alloc pools t" "memp_free pools t" for pools t
proof
  fix h and r :: unit assume "pool_inv pools t h"
  then have inv: "memp_inv pools h" "t < length pools" by (simp_all add: pool_inv_def)
  obtain p h' where m: "memp_malloc pools t h = (p, h')" by force
  note u = memp_malloc_used [OF inv m]
  have "pool_inv pools t h'" using memp_malloc_inv [OF inv] m inv by (simp add: pool_inv_def)
  then show "\<exists>p h'. pool_alloc pools t r h = Some (p, h') \<and> pool_inv pools t h' \<and>
      (if p = 0 then pool_live pools t h' = pool_live pools t h
       else p \<notin> fst ` pool_live pools t h \<and>
         (\<exists>m. memp_size (pools ! t) \<le> m \<and> pool_live pools t h' = insert (p, m) (pool_live pools t h)))"
    using u m by (cases "p = 0") (auto simp: pool_alloc_def pool_live_def image_iff)
next
  fix h p m assume "pool_inv pools t h" "(p, m) \<in> pool_live pools t h"
  then show "pool_inv pools t (memp_free pools t p h) \<and>
      pool_live pools t (memp_free pools t p h) = pool_live pools t h - {(p, m)}"
    using memp_free_used(1,2) [of pools h t p] by (auto simp: pool_inv_def pool_live_def)
next
  fix h x y assume h: "pool_inv pools t h" "x \<in> pool_live pools t h" "y \<in> pool_live pools t h" "x \<noteq> y"
  then obtain a b where "x = (a, memp_size (pools ! t))" "y = (b, memp_size (pools ! t))"
      "a \<in> elems (pools ! t)" "b \<in> elems (pools ! t)" "a \<noteq> b"
    by (auto simp: pool_live_def memp_used_def)
  then show "apart x y" using elems_apart h(1) by (auto simp: pool_inv_def memp_inv_def)
qed (auto simp: pool_live_def)

section \<open>Properties\<close>

lemma card_elems: "0 < memp_size d \<Longrightarrow> card (elems d) = memp_num d"
  by (simp add: elems_def card_image inj_on_def)

lemma pool_client:
  assumes "pools_wf pools" "t < length pools"
    "client (pool_alloc pools t) (memp_free pools t) (\<lambda>_. True) (memp_init pools s0) s owned"
  shows "memp_inv pools s" "memp_used pools t s = owned"
proof -
  have "pool_inv pools t (memp_init pools s0)" "pool_live pools t (memp_init pools s0) = {}"
    using memp_init_inv [OF assms(1)] assms(2) by (simp_all add: pool_inv_def pool_live_def)
  from pool.client_inv [OF assms(3) this] show "memp_inv pools s" "memp_used pools t s = owned"
    by (auto simp: pool_inv_def pool_live_def image_image)
qed

text \<open>The pools of a small configuration, for the instances below.\<close>

definition demo_pools :: "memp_desc list" where
  "demo_pools = [\<lparr>memp_size = 16, memp_num = 2, memp_base = 536900001\<rparr>,
    \<lparr>memp_size = 24, memp_num = 3, memp_base = 536910000\<rparr>]"

definition demo_memp :: memp_state where
  "demo_memp = memp_init demo_pools \<lparr>memp_tab = (\<lambda>_. 0), memp_next = (\<lambda>_. 0)\<rparr>"

lemma demo_pools_wf: "pools_wf demo_pools"
  by (auto simp: pools_wf_def demo_pools_def less_Suc_eq apart_def LWIP_MEM_ALIGN_def)

lemma demo_memp_tab: "memp_tab demo_memp 0 = 536900020" "memp_next demo_memp 536900020 = 536900004"
  "memp_next demo_memp 536900004 = 0"
  by (simp_all add: demo_memp_def demo_pools_def memp_init_def memp_init_pool_def LWIP_MEM_ALIGN_def
      MEMP_SIZE_def upt_rec numeral_2_eq_2 numeral_3_eq_3)

text \<open>
  C4. After any sequence of allocations from and releases to a pool, \<open>memp_malloc\<close> returns \<open>NULL\<close> exactly
  when all \<open>num\<close> elements of the pool are taken; otherwise it returns an aligned element of the pool that
  was free and overlaps no element in use.
\<close>
theorem memp_malloc_safe:
  assumes "pools_wf pools" "t < length pools"
    and "client (pool_alloc pools t) (memp_free pools t) (\<lambda>_. True) (memp_init pools s0) s owned"
    and "memp_malloc pools t s = (p, s')"
  shows "(p = 0 \<longleftrightarrow> card owned = memp_num (pools ! t)) \<and>
    (p \<noteq> 0 \<longrightarrow> p \<notin> owned \<and> 4 dvd p \<and> LWIP_MEM_ALIGN (memp_base (pools ! t)) \<le> p \<and>
      p + memp_size (pools ! t) \<le>
        LWIP_MEM_ALIGN (memp_base (pools ! t)) + memp_num (pools ! t) * memp_size (pools ! t) \<and>
      (\<forall>q \<in> owned. apart (p, memp_size (pools ! t)) (q, memp_size (pools ! t))))"
proof -
  note c = pool_client [OF assms(1-3)]
  note u = memp_malloc_used [OF c(1) assms(2,4), unfolded c(2)]
  have sub: "owned \<subseteq> elems (pools ! t)" using c(2) by (auto simp: memp_used_def)
  have "finite (elems (pools ! t))" by (simp add: elems_def)
  moreover have "card (elems (pools ! t)) = memp_num (pools ! t)"
    using assms(1,2) by (intro card_elems) (simp add: pools_wf_def)
  ultimately have "p = 0 \<longleftrightarrow> card owned = memp_num (pools ! t)"
    using u(1) sub card_subset_eq by metis
  moreover have "p \<noteq> 0 \<Longrightarrow> p \<in> elems (pools ! t) \<and> p \<notin> owned" using u(2) by blast
  ultimately show ?thesis
    using elem_props [OF assms(1,2)] elems_apart [OF assms(1,2)] sub by blast
qed

theorem memp_malloc_safe_witness:
  "\<exists>s1. memp_malloc demo_pools 0 demo_memp = (536900020, s1) \<and>
    fst (memp_malloc demo_pools 0 s1) = 536900004 \<and> apart (536900004, 16) (536900020, 16)"
proof -
  let ?m = "\<lparr>memp_tab = (\<lambda>_. 0), memp_next = (\<lambda>_. 0)\<rparr> :: memp_state"
  obtain s1 where s1: "memp_malloc demo_pools 0 demo_memp = (536900020, s1)"
      "memp_tab s1 0 = 536900004" "memp_next s1 = memp_next demo_memp"
    using demo_memp_tab by (simp add: memp_malloc_def do_memp_malloc_pool_def demo_pools_def MEMP_SIZE_def)
  obtain s2 where s2: "memp_malloc demo_pools 0 s1 = (536900004, s2)"
    using s1(2) by (simp add: memp_malloc_def do_memp_malloc_pool_def demo_pools_def MEMP_SIZE_def)
  have t: "0 < length demo_pools" by (simp add: demo_pools_def)
  have "client (pool_alloc demo_pools 0) (memp_free demo_pools 0) (\<lambda>_. True) (memp_init demo_pools ?m)
      s1 (insert 536900020 {})"
    by (rule client.got [where h = "memp_init demo_pools ?m" and r = "()"])
       (simp_all add: client.start pool_alloc_def s1(1) demo_memp_def [symmetric])
  from memp_malloc_safe [OF demo_pools_wf t this s2] show ?thesis
    using s1(1) s2 by (simp add: demo_pools_def)
qed

text \<open>
  The pools are independent: allocating from or releasing to one pool keeps the invariant of all of
  them and the elements in use of every other, and the user of an element may overwrite all of it,
  the link field included, without harming any pool.
\<close>
theorem memp_pools_independent:
  assumes "memp_inv pools s" "t < length pools" "u < length pools" "u \<noteq> t"
  shows "memp_inv pools (snd (memp_malloc pools t s)) \<and>
    memp_used pools u (snd (memp_malloc pools t s)) = memp_used pools u s \<and>
    (\<forall>x \<in> memp_used pools t s. memp_inv pools (memp_free pools t x s) \<and>
      memp_used pools u (memp_free pools t x s) = memp_used pools u s) \<and>
    (\<forall>x \<in> memp_used pools t s. \<forall>v. memp_inv pools (s\<lparr>memp_next := (memp_next s)(x := v)\<rparr>) \<and>
      memp_used pools u (s\<lparr>memp_next := (memp_next s)(x := v)\<rparr>) = memp_used pools u s)"
proof (intro conjI ballI allI)
  show "memp_inv pools (snd (memp_malloc pools t s))" by (rule memp_malloc_inv [OF assms(1,2)])
  show "memp_used pools u (snd (memp_malloc pools t s)) = memp_used pools u s"
    by (rule memp_malloc_other [OF assms(1,2,4)])
next
  fix x assume x: "x \<in> memp_used pools t s"
  show "memp_inv pools (memp_free pools t x s)"
    "memp_used pools u (memp_free pools t x s) = memp_used pools u s"
    using memp_free_used [OF assms(1,2) x] assms(3,4) by blast+
next
  fix x v assume x: "x \<in> memp_used pools t s"
  let ?s = "s\<lparr>memp_next := (memp_next s)(x := v)\<rparr>"
  have fl: "free_list pools ?s w ys" if "w < length pools" "free_list pools s w ys" for w ys
  proof -
    have "x \<notin> set ys"
    proof (cases "w = t")
      case True
      then show ?thesis using x memp_used_eq that(2) by blast
    next
      case False
      have "elems (pools ! w) \<inter> elems (pools ! t) = {}"
        using assms(1,2) that(1) False by (intro elems_disjoint) (auto simp: memp_inv_def)
      then show ?thesis using x that(2) by (auto simp: memp_used_def free_list_def)
    qed
    then show ?thesis using free_list_cong [OF that(2), of ?s] by auto
  qed
  show "memp_inv pools ?s" using assms(1) fl unfolding memp_inv_def by blast
  obtain ys where ys: "free_list pools s u ys" using assms(1,3) by (auto simp: memp_inv_def)
  show "memp_used pools u ?s = memp_used pools u s"
    unfolding memp_used_eq [OF ys] memp_used_eq [OF fl [OF assms(3) ys]] ..
qed

theorem memp_pools_independent_witness:
  "memp_used demo_pools 1 (snd (memp_malloc demo_pools 0 demo_memp)) = {}"
proof -
  have l: "0 < length demo_pools" "1 < length demo_pools" by (simp_all add: demo_pools_def)
  have "memp_inv demo_pools demo_memp" "memp_used demo_pools 1 demo_memp = {}"
    using memp_init_inv [OF demo_pools_wf] l(2) unfolding demo_memp_def by blast+
  then show ?thesis using memp_pools_independent [of demo_pools demo_memp 0 1] l by simp
qed

end
