(* ===== verification/Lwip_Base.thy ===== *)
theory Lwip_Base
  imports Lwip_Mem Lwip_Memp
begin

text \<open>
  Vocabulary of the lwIP components: error codes, the \<open>u16_t\<close> truncations written out over natural
  numbers, byte memory indexed by address, and the state that the packet buffers, the timers and the
  interface driver share.
\<close>

section \<open>Error codes\<close>

datatype err_t = ERR_OK | ERR_MEM | ERR_BUF | ERR_TIMEOUT | ERR_RTE | ERR_INPROGRESS | ERR_VAL
  | ERR_WOULDBLOCK | ERR_USE | ERR_ALREADY | ERR_ISCONN | ERR_CONN | ERR_IF | ERR_ABRT | ERR_RST
  | ERR_CLSD | ERR_ARG

section \<open>Sixteen-bit arithmetic\<close>

definition u16_of :: "nat \<Rightarrow> nat" where
  "u16_of n = n mod 65536"

definition u16_sub :: "nat \<Rightarrow> nat \<Rightarrow> nat" where
  "u16_sub a b = (a + 65536 - b) mod 65536"

lemma u16_of_small [simp]: "n < 65536 \<Longrightarrow> u16_of n = n"
  by (simp add: u16_of_def)

lemma u16_sub_le: "b \<le> a \<Longrightarrow> a < 65536 \<Longrightarrow> u16_sub a b = a - b"
proof -
  assume "b \<le> a" "a < 65536"
  then have "a + 65536 - b = (a - b) + 65536" by simp
  then show ?thesis using \<open>a < 65536\<close> by (simp only: u16_sub_def mod_add_self2) simp
qed

section \<open>Byte memory\<close>

type_synonym bytes = "nat \<Rightarrow> u8"

definition get_bytes :: "bytes \<Rightarrow> nat \<Rightarrow> nat \<Rightarrow> u8 list" where
  "get_bytes m a n = map m [a..<a + n]"

definition put_bytes :: "nat \<Rightarrow> u8 list \<Rightarrow> bytes \<Rightarrow> bytes" where
  "put_bytes a bs m = (\<lambda>b. if a \<le> b \<and> b < a + length bs then bs ! (b - a) else m b)"

text \<open>\<open>MEMCPY\<close> of lwIP, between regions that do not overlap.\<close>

definition MEMCPY :: "nat \<Rightarrow> nat \<Rightarrow> nat \<Rightarrow> bytes \<Rightarrow> bytes" where
  "MEMCPY dst src n m = put_bytes dst (get_bytes m src n) m"

lemma length_get_bytes [simp]: "length (get_bytes m a n) = n"
  by (simp add: get_bytes_def)

lemma get_bytes_0 [simp]: "get_bytes m a 0 = []"
  by (simp add: get_bytes_def)

lemma get_bytes_nth [simp]: "i < n \<Longrightarrow> get_bytes m a n ! i = m (a + i)"
  by (simp add: get_bytes_def)

lemma get_bytes_add: "get_bytes m a (n + k) = get_bytes m a n @ get_bytes m (a + n) k"
  by (rule nth_equalityI) (auto simp: nth_append)

lemma take_get_bytes: "n \<le> k \<Longrightarrow> take n (get_bytes m a k) = get_bytes m a n"
  by (rule nth_equalityI) auto

lemma drop_get_bytes: "drop n (get_bytes m a k) = get_bytes m (a + n) (k - n)"
  by (rule nth_equalityI) (auto simp: add.assoc)

lemma put_bytes_Nil [simp]: "put_bytes a [] m = m"
  by (rule ext) (auto simp: put_bytes_def)

lemma put_bytes_in: "a \<le> b \<Longrightarrow> b < a + length bs \<Longrightarrow> put_bytes a bs m b = bs ! (b - a)"
  by (simp add: put_bytes_def)

lemma put_bytes_out: "b < a \<or> a + length bs \<le> b \<Longrightarrow> put_bytes a bs m b = m b"
  by (auto simp: put_bytes_def)

lemma get_put_same: "get_bytes (put_bytes a bs m) a (length bs) = bs"
  by (rule nth_equalityI) (auto simp: put_bytes_def)

lemma get_put_apart: "apart (a, length bs) (b, n) \<Longrightarrow> get_bytes (put_bytes a bs m) b n = get_bytes m b n"
  by (rule nth_equalityI) (auto simp: put_bytes_def apart_def)

lemma put_bytes_append: "put_bytes a (xs @ ys) m = put_bytes (a + length xs) ys (put_bytes a xs m)"
  by (rule ext) (auto simp: put_bytes_def nth_append)

lemma get_bytes_cong: "(\<And>i. i < n \<Longrightarrow> m (a + i) = m' (a + i)) \<Longrightarrow> get_bytes m a n = get_bytes m' a n"
  by (rule nth_equalityI) auto

section \<open>Shared state\<close>

text \<open>
  A \<open>struct pbuf\<close> is identified by its address. Its fields are kept apart from the bytes of the
  payloads, which the allocators never let overlap with them.
\<close>

record pbuf =
  pb_next :: nat
  pb_payload :: nat
  pb_tot_len :: nat
  pb_len :: nat
  pb_type_internal :: u8
  pb_flags :: u8
  pb_ref :: u8
  pb_if_idx :: u8

record net =
  pbufs :: "nat \<Rightarrow> pbuf"
  mem_bytes :: bytes
  mem_heap :: heap
  mem_pools :: memp_state

text \<open>
  What the packet buffers rely on from elsewhere: the table of pools, and the release function that
  the owner of a custom pbuf supplied.
\<close>

record pbuf_env =
  memp_pools :: "memp_desc list"
  custom_free_function :: "nat \<Rightarrow> net \<Rightarrow> net"

definition pb_upd :: "nat \<Rightarrow> (pbuf \<Rightarrow> pbuf) \<Rightarrow> net \<Rightarrow> net" where
  "pb_upd p f s = s\<lparr>pbufs := (pbufs s)(p := f (pbufs s p))\<rparr>"

lemma pb_upd_sel [simp]:
  "pbufs (pb_upd p f s) = (pbufs s)(p := f (pbufs s p))" "mem_bytes (pb_upd p f s) = mem_bytes s"
  "mem_heap (pb_upd p f s) = mem_heap s" "mem_pools (pb_upd p f s) = mem_pools s"
  by (simp_all add: pb_upd_def)

text \<open>The order of the pools in \<open>memp_std.h\<close> under this configuration.\<close>

definition MEMP_SYS_TIMEOUT :: nat where "MEMP_SYS_TIMEOUT = 6"
definition MEMP_PBUF :: nat where "MEMP_PBUF = 7"
definition MEMP_PBUF_POOL :: nat where "MEMP_PBUF_POOL = 8"

end
