(* ===== verification/Lwip_Pbuf.thy ===== *)
theory Lwip_Pbuf
  imports Lwip_Base
begin

text \<open>
  The packet buffers of \<open>lwIP/core/pbuf.c\<close>. A loop over a chain of pbufs runs forever on a cyclic
  chain, and the places where the code follows a link without testing it fault on a chain that is too
  short: operations with such loops return an option, in which \<open>None\<close> is a run that does not
  come back.
\<close>

section \<open>Types and layers\<close>

definition SIZEOF_STRUCT_PBUF :: nat where "SIZEOF_STRUCT_PBUF = LWIP_MEM_ALIGN_SIZE 16"
definition PBUF_POOL_BUFSIZE_ALIGNED :: nat where "PBUF_POOL_BUFSIZE_ALIGNED = LWIP_MEM_ALIGN_SIZE 500"

definition PBUF_TRANSPORT :: nat where "PBUF_TRANSPORT = 0 + 14 + 20 + 20"
definition PBUF_IP :: nat where "PBUF_IP = 0 + 14 + 20"
definition PBUF_LINK :: nat where "PBUF_LINK = 0 + 14"
definition PBUF_RAW :: nat where "PBUF_RAW = 0"

definition PBUF_TYPE_FLAG_STRUCT_DATA_CONTIGUOUS :: u32 where
  "PBUF_TYPE_FLAG_STRUCT_DATA_CONTIGUOUS = 0x80"
definition PBUF_TYPE_FLAG_DATA_VOLATILE :: u32 where "PBUF_TYPE_FLAG_DATA_VOLATILE = 0x40"
definition PBUF_TYPE_ALLOC_SRC_MASK :: u32 where "PBUF_TYPE_ALLOC_SRC_MASK = 0x0F"
definition PBUF_ALLOC_FLAG_RX :: u32 where "PBUF_ALLOC_FLAG_RX = 0x0100"
definition PBUF_ALLOC_FLAG_DATA_CONTIGUOUS :: u32 where "PBUF_ALLOC_FLAG_DATA_CONTIGUOUS = 0x0200"
definition PBUF_TYPE_ALLOC_SRC_MASK_STD_HEAP :: u32 where "PBUF_TYPE_ALLOC_SRC_MASK_STD_HEAP = 0x00"
definition PBUF_TYPE_ALLOC_SRC_MASK_STD_MEMP_PBUF :: u32 where
  "PBUF_TYPE_ALLOC_SRC_MASK_STD_MEMP_PBUF = 0x01"
definition PBUF_TYPE_ALLOC_SRC_MASK_STD_MEMP_PBUF_POOL :: u32 where
  "PBUF_TYPE_ALLOC_SRC_MASK_STD_MEMP_PBUF_POOL = 0x02"

definition PBUF_RAM :: u32 where
  "PBUF_RAM = PBUF_ALLOC_FLAG_DATA_CONTIGUOUS OR PBUF_TYPE_FLAG_STRUCT_DATA_CONTIGUOUS OR
    PBUF_TYPE_ALLOC_SRC_MASK_STD_HEAP"
definition PBUF_ROM :: u32 where "PBUF_ROM = PBUF_TYPE_ALLOC_SRC_MASK_STD_MEMP_PBUF"
definition PBUF_REF :: u32 where
  "PBUF_REF = PBUF_TYPE_FLAG_DATA_VOLATILE OR PBUF_TYPE_ALLOC_SRC_MASK_STD_MEMP_PBUF"
definition PBUF_POOL :: u32 where
  "PBUF_POOL = PBUF_ALLOC_FLAG_RX OR PBUF_TYPE_FLAG_STRUCT_DATA_CONTIGUOUS OR
    PBUF_TYPE_ALLOC_SRC_MASK_STD_MEMP_PBUF_POOL"

definition PBUF_FLAG_IS_CUSTOM :: u8 where "PBUF_FLAG_IS_CUSTOM = 0x02"

definition pbuf_get_allocsrc :: "pbuf \<Rightarrow> u32" where
  "pbuf_get_allocsrc p = ucast (pb_type_internal p) AND PBUF_TYPE_ALLOC_SRC_MASK"

definition pbuf_match_allocsrc :: "pbuf \<Rightarrow> u32 \<Rightarrow> bool" where
  "pbuf_match_allocsrc p type \<longleftrightarrow> pbuf_get_allocsrc p = type AND PBUF_TYPE_ALLOC_SRC_MASK"

section \<open>Release\<close>

definition pbuf_dealloc :: "pbuf_env \<Rightarrow> nat \<Rightarrow> net \<Rightarrow> net" where
  "pbuf_dealloc E p s =
    (let alloc_src = pbuf_get_allocsrc (pbufs s p)
     in if pb_flags (pbufs s p) AND PBUF_FLAG_IS_CUSTOM \<noteq> 0 then custom_free_function E p s
        else if alloc_src = PBUF_TYPE_ALLOC_SRC_MASK_STD_MEMP_PBUF_POOL
        then s\<lparr>mem_pools := memp_free (memp_pools E) MEMP_PBUF_POOL p (mem_pools s)\<rparr>
        else if alloc_src = PBUF_TYPE_ALLOC_SRC_MASK_STD_MEMP_PBUF
        then s\<lparr>mem_pools := memp_free (memp_pools E) MEMP_PBUF p (mem_pools s)\<rparr>
        else if alloc_src = PBUF_TYPE_ALLOC_SRC_MASK_STD_HEAP
        then s\<lparr>mem_heap := mem_free p (mem_heap s)\<rparr>
        else s)"

partial_function (option) pbuf_free_loop :: "pbuf_env \<Rightarrow> nat \<Rightarrow> u8 \<Rightarrow> net \<Rightarrow> (u8 \<times> net) option" where
  "pbuf_free_loop E p count s =
    (if p \<noteq> 0 then
       let ref = pb_ref (pbufs s p) - 1;
           s = pb_upd p (\<lambda>b. b\<lparr>pb_ref := ref\<rparr>) s
       in if ref = 0 then
            let q = pb_next (pbufs s p)
            in pbuf_free_loop E q (count + 1) (pbuf_dealloc E p s)
          else Some (count, s)
     else Some (count, s))"

definition pbuf_free :: "pbuf_env \<Rightarrow> nat \<Rightarrow> net \<Rightarrow> (u8 \<times> net) option" where
  "pbuf_free E p s = (if p = 0 then Some (0, s) else pbuf_free_loop E p 0 s)"

section \<open>Allocation\<close>

definition pbuf_init_alloced_pbuf :: "nat \<Rightarrow> nat \<Rightarrow> nat \<Rightarrow> nat \<Rightarrow> u32 \<Rightarrow> u8 \<Rightarrow> net \<Rightarrow> net" where
  "pbuf_init_alloced_pbuf p payload tot_len len type flags s =
    pb_upd p (\<lambda>_. \<lparr>pb_next = 0, pb_payload = payload, pb_tot_len = tot_len, pb_len = len,
      pb_type_internal = ucast type, pb_flags = flags, pb_ref = 1, pb_if_idx = 0\<rparr>) s"

definition pbuf_alloc_reference :: "pbuf_env \<Rightarrow> nat \<Rightarrow> nat \<Rightarrow> u32 \<Rightarrow> net \<Rightarrow> nat \<times> net" where
  "pbuf_alloc_reference E payload len type s =
    (case memp_malloc (memp_pools E) MEMP_PBUF (mem_pools s) of (p, m) \<Rightarrow>
       let s = s\<lparr>mem_pools := m\<rparr>
       in if p = 0 then (0, s) else (p, pbuf_init_alloced_pbuf p payload len len type 0 s))"

text \<open>The \<open>do ... while (rem_len > 0)\<close> of the \<open>PBUF_POOL\<close> branch.\<close>

partial_function (option) pbuf_alloc_pool ::
    "pbuf_env \<Rightarrow> nat \<Rightarrow> nat \<Rightarrow> nat \<Rightarrow> nat \<Rightarrow> net \<Rightarrow> (nat \<times> net) option" where
  "pbuf_alloc_pool E p lst rem_len offset s =
    (let r = memp_malloc (memp_pools E) MEMP_PBUF_POOL (mem_pools s);
         q = fst r;
         s = s\<lparr>mem_pools := snd r\<rparr>
     in if q = 0 then
          if p \<noteq> 0 then map_option (\<lambda>r. (0, snd r)) (pbuf_free E p s) else Some (0, s)
        else
          let qlen = min rem_len (u16_of (usub32 PBUF_POOL_BUFSIZE_ALIGNED (LWIP_MEM_ALIGN_SIZE offset)));
              s = pbuf_init_alloced_pbuf q (LWIP_MEM_ALIGN (q + SIZEOF_STRUCT_PBUF + offset)) rem_len qlen
                    PBUF_POOL 0 s;
              s = (if p = 0 then s else pb_upd lst (\<lambda>b. b\<lparr>pb_next := q\<rparr>) s);
              p = (if p = 0 then q else p);
              rem_len = u16_sub rem_len qlen
          in if rem_len > 0 then pbuf_alloc_pool E p q rem_len 0 s else Some (p, s))"

definition pbuf_alloc :: "pbuf_env \<Rightarrow> nat \<Rightarrow> nat \<Rightarrow> u32 \<Rightarrow> net \<Rightarrow> (nat \<times> net) option" where
  "pbuf_alloc E layer len type s =
    (let offset = u16_of layer
     in if type = PBUF_REF \<or> type = PBUF_ROM then Some (pbuf_alloc_reference E 0 len type s)
        else if type = PBUF_POOL then pbuf_alloc_pool E 0 0 len offset s
        else if type = PBUF_RAM then
          let payload_len = mem_size_t (LWIP_MEM_ALIGN_SIZE offset + LWIP_MEM_ALIGN_SIZE len);
              alloc_len = mem_size_t (LWIP_MEM_ALIGN_SIZE SIZEOF_STRUCT_PBUF + payload_len)
          in if payload_len < LWIP_MEM_ALIGN_SIZE len \<or> alloc_len < LWIP_MEM_ALIGN_SIZE len then Some (0, s)
             else case mem_malloc alloc_len (mem_heap s) of
                    None \<Rightarrow> None
                  | Some (p, h) \<Rightarrow>
                      let s = s\<lparr>mem_heap := h\<rparr>
                      in if p = 0 then Some (0, s)
                         else Some (p, pbuf_init_alloced_pbuf p
                           (LWIP_MEM_ALIGN (p + SIZEOF_STRUCT_PBUF + offset)) len len type 0 s)
        else Some (0, s))"

definition pbuf_alloced_custom :: "nat \<Rightarrow> nat \<Rightarrow> u32 \<Rightarrow> nat \<Rightarrow> nat \<Rightarrow> nat \<Rightarrow> net \<Rightarrow> nat \<times> net" where
  "pbuf_alloced_custom l len type p payload_mem payload_mem_len s =
    (let offset = u16_of l
     in if LWIP_MEM_ALIGN_SIZE offset + len > payload_mem_len then (0, s)
        else let payload = (if payload_mem \<noteq> 0 then payload_mem + LWIP_MEM_ALIGN_SIZE offset else 0)
             in (p, pbuf_init_alloced_pbuf p payload len len type PBUF_FLAG_IS_CUSTOM s))"

section \<open>Shrinking\<close>

text \<open>The walk to the pbuf that becomes the last one, shortening the total lengths on the way.\<close>

partial_function (option) realloc_walk :: "nat \<Rightarrow> nat \<Rightarrow> nat \<Rightarrow> net \<Rightarrow> (nat \<times> nat \<times> net) option" where
  "realloc_walk shrink rem_len q s =
    (if q = 0 then None
     else if rem_len > pb_len (pbufs s q) then
       let rem_len = u16_sub rem_len (pb_len (pbufs s q));
           s = pb_upd q (\<lambda>b. b\<lparr>pb_tot_len := u16_sub (pb_tot_len b) shrink\<rparr>) s
       in realloc_walk shrink rem_len (pb_next (pbufs s q)) s
     else Some (q, rem_len, s))"

definition realloc_trim :: "nat \<Rightarrow> nat \<Rightarrow> net \<Rightarrow> nat \<times> net" where
  "realloc_trim q rem_len s =
    (if pbuf_match_allocsrc (pbufs s q) PBUF_TYPE_ALLOC_SRC_MASK_STD_HEAP \<and> rem_len \<noteq> pb_len (pbufs s q) \<and>
        pb_flags (pbufs s q) AND PBUF_FLAG_IS_CUSTOM = 0
     then case mem_trim q (mem_size_t (usub32 (pb_payload (pbufs s q)) q + rem_len)) (mem_heap s) of
            (q, h) \<Rightarrow> (q, s\<lparr>mem_heap := h\<rparr>)
     else (q, s))"

definition pbuf_realloc :: "pbuf_env \<Rightarrow> nat \<Rightarrow> nat \<Rightarrow> net \<Rightarrow> net option" where
  "pbuf_realloc E p new_len s =
    (if new_len \<ge> pb_tot_len (pbufs s p) then Some s
     else let shrink = u16_sub (pb_tot_len (pbufs s p)) new_len
     in case realloc_walk shrink new_len p s of
          None \<Rightarrow> None
        | Some (q, rem_len, s) \<Rightarrow>
            (case realloc_trim q rem_len s of (q, s) \<Rightarrow>
               if q = 0 then None
               else let s = pb_upd q (\<lambda>b. b\<lparr>pb_len := rem_len, pb_tot_len := rem_len\<rparr>) s
               in case (if pb_next (pbufs s q) \<noteq> 0
                        then map_option snd (pbuf_free E (pb_next (pbufs s q)) s) else Some s) of
                    None \<Rightarrow> None
                  | Some s \<Rightarrow> Some (pb_upd q (\<lambda>b. b\<lparr>pb_next := 0\<rparr>) s)))"

section \<open>Headers\<close>

text \<open>The result is the \<open>u8_t\<close> the code returns: zero on success. Pointers wrap at 32 bits.\<close>

definition pbuf_add_header_impl :: "nat \<Rightarrow> nat \<Rightarrow> bool \<Rightarrow> net \<Rightarrow> nat \<times> net" where
  "pbuf_add_header_impl p header_size_increment force s =
    (if p = 0 \<or> header_size_increment > 0xFFFF then (1, s)
     else if header_size_increment = 0 then (0, s)
     else let increment_magnitude = u16_of header_size_increment
     in if u16_of (increment_magnitude + pb_tot_len (pbufs s p)) < increment_magnitude then (1, s)
     else let payload = usub32 (pb_payload (pbufs s p)) header_size_increment;
              upd = pb_upd p (\<lambda>b. b\<lparr>pb_payload := payload,
                pb_len := u16_of (pb_len b + increment_magnitude),
                pb_tot_len := u16_of (pb_tot_len b + increment_magnitude)\<rparr>) s
     in if ucast (pb_type_internal (pbufs s p)) AND PBUF_TYPE_FLAG_STRUCT_DATA_CONTIGUOUS \<noteq> 0
        then if payload < p + SIZEOF_STRUCT_PBUF then (1, s) else (0, upd)
        else if force then (0, upd) else (1, s))"

definition pbuf_add_header :: "nat \<Rightarrow> nat \<Rightarrow> net \<Rightarrow> nat \<times> net" where
  "pbuf_add_header p header_size_increment s = pbuf_add_header_impl p header_size_increment False s"

definition pbuf_add_header_force :: "nat \<Rightarrow> nat \<Rightarrow> net \<Rightarrow> nat \<times> net" where
  "pbuf_add_header_force p header_size_increment s = pbuf_add_header_impl p header_size_increment True s"

definition pbuf_remove_header :: "nat \<Rightarrow> nat \<Rightarrow> net \<Rightarrow> nat \<times> net" where
  "pbuf_remove_header p header_size_decrement s =
    (if p = 0 \<or> header_size_decrement > 0xFFFF then (1, s)
     else if header_size_decrement = 0 then (0, s)
     else let increment_magnitude = u16_of header_size_decrement
     in if \<not> increment_magnitude \<le> pb_len (pbufs s p) then (1, s)
     else (0, pb_upd p (\<lambda>b. b\<lparr>pb_payload := pb_payload b + header_size_decrement,
             pb_len := u16_sub (pb_len b) increment_magnitude,
             pb_tot_len := u16_sub (pb_tot_len b) increment_magnitude\<rparr>) s))"

definition pbuf_header_impl :: "nat \<Rightarrow> int \<Rightarrow> bool \<Rightarrow> net \<Rightarrow> nat \<times> net" where
  "pbuf_header_impl p header_size_increment force s =
    (if header_size_increment < 0 then pbuf_remove_header p (nat (- header_size_increment)) s
     else pbuf_add_header_impl p (nat header_size_increment) force s)"

definition pbuf_header :: "nat \<Rightarrow> int \<Rightarrow> net \<Rightarrow> nat \<times> net" where
  "pbuf_header p header_size_increment s = pbuf_header_impl p header_size_increment False s"

definition pbuf_header_force :: "nat \<Rightarrow> int \<Rightarrow> net \<Rightarrow> nat \<times> net" where
  "pbuf_header_force p header_size_increment s = pbuf_header_impl p header_size_increment True s"

partial_function (option) pbuf_free_header_loop :: "pbuf_env \<Rightarrow> nat \<Rightarrow> nat \<Rightarrow> net \<Rightarrow> (nat \<times> net) option" where
  "pbuf_free_header_loop E free_left p s =
    (if free_left \<noteq> 0 \<and> p \<noteq> 0 then
       if free_left \<ge> pb_len (pbufs s p) then
         let f = p;
             free_left = u16_sub free_left (pb_len (pbufs s p));
             p = pb_next (pbufs s p);
             s = pb_upd f (\<lambda>b. b\<lparr>pb_next := 0\<rparr>) s
         in Option.bind (pbuf_free E f s) (\<lambda>r. pbuf_free_header_loop E free_left p (snd r))
       else pbuf_free_header_loop E 0 p (snd (pbuf_remove_header p free_left s))
     else Some (p, s))"

definition pbuf_free_header :: "pbuf_env \<Rightarrow> nat \<Rightarrow> nat \<Rightarrow> net \<Rightarrow> (nat \<times> net) option" where
  "pbuf_free_header E q sz s = pbuf_free_header_loop E sz q s"

section \<open>Chains\<close>

partial_function (option) pbuf_clen_loop :: "net \<Rightarrow> nat \<Rightarrow> nat \<Rightarrow> nat option" where
  "pbuf_clen_loop s len p =
    (if p \<noteq> 0 then pbuf_clen_loop s (u16_of (len + 1)) (pb_next (pbufs s p)) else Some len)"

definition pbuf_clen :: "nat \<Rightarrow> net \<Rightarrow> nat option" where
  "pbuf_clen p s = pbuf_clen_loop s 0 p"

definition pbuf_ref :: "nat \<Rightarrow> net \<Rightarrow> net" where
  "pbuf_ref p s = (if p \<noteq> 0 then pb_upd p (\<lambda>b. b\<lparr>pb_ref := pb_ref b + 1\<rparr>) s else s)"

partial_function (option) pbuf_cat_loop :: "nat \<Rightarrow> nat \<Rightarrow> net \<Rightarrow> (nat \<times> net) option" where
  "pbuf_cat_loop t p s =
    (if pb_next (pbufs s p) \<noteq> 0 then
       let s = pb_upd p (\<lambda>b. b\<lparr>pb_tot_len := u16_of (pb_tot_len b + pb_tot_len (pbufs s t))\<rparr>) s
       in pbuf_cat_loop t (pb_next (pbufs s p)) s
     else Some (p, s))"

definition pbuf_cat :: "nat \<Rightarrow> nat \<Rightarrow> net \<Rightarrow> net option" where
  "pbuf_cat h t s =
    (if \<not> (h \<noteq> 0 \<and> t \<noteq> 0) then Some s
     else case pbuf_cat_loop t h s of
            None \<Rightarrow> None
          | Some (p, s) \<Rightarrow>
              let s = pb_upd p (\<lambda>b. b\<lparr>pb_tot_len := u16_of (pb_tot_len b + pb_tot_len (pbufs s t))\<rparr>) s
              in Some (pb_upd p (\<lambda>b. b\<lparr>pb_next := t\<rparr>) s))"

definition pbuf_chain :: "nat \<Rightarrow> nat \<Rightarrow> net \<Rightarrow> net option" where
  "pbuf_chain h t s = map_option (pbuf_ref t) (pbuf_cat h t s)"

definition pbuf_dechain :: "pbuf_env \<Rightarrow> nat \<Rightarrow> net \<Rightarrow> (nat \<times> net) option" where
  "pbuf_dechain E p s =
    (let q = pb_next (pbufs s p)
     in if q \<noteq> 0 then
          let s = pb_upd q (\<lambda>b. b\<lparr>pb_tot_len := u16_sub (pb_tot_len (pbufs s p)) (pb_len (pbufs s p))\<rparr>) s;
              s = pb_upd p (\<lambda>b. b\<lparr>pb_next := 0\<rparr>) s;
              s = pb_upd p (\<lambda>b. b\<lparr>pb_tot_len := pb_len b\<rparr>) s
          in map_option (\<lambda>(tail_gone, s). (if tail_gone > 0 then 0 else q, s)) (pbuf_free E q s)
        else Some (0, s))"

section \<open>Copying\<close>

text \<open>\<open>size_t\<close> differences are taken modulo \<open>2^32\<close>, as the code does.\<close>

partial_function (option) copy_pbuf_loop ::
    "nat \<Rightarrow> nat \<Rightarrow> nat \<Rightarrow> nat \<Rightarrow> nat \<Rightarrow> net \<Rightarrow> (err_t \<times> net) option" where
  "copy_pbuf_loop p_to offset_to p_from offset_from copy_len s =
    (if p_to = 0 \<or> p_from = 0 then None
     else
       let len_calc = (if usub32 (pb_len (pbufs s p_to)) offset_to \<ge> usub32 (pb_len (pbufs s p_from)) offset_from
                       then usub32 (pb_len (pbufs s p_from)) offset_from
                       else usub32 (pb_len (pbufs s p_to)) offset_to);
           len = u16_of (min copy_len len_calc);
           s = s\<lparr>mem_bytes := MEMCPY (pb_payload (pbufs s p_to) + offset_to)
                 (pb_payload (pbufs s p_from) + offset_from) len (mem_bytes s)\<rparr>;
           offset_to = offset_to + len;
           offset_from = offset_from + len;
           copy_len = u16_sub copy_len len;
           next_from = offset_from \<ge> pb_len (pbufs s p_from);
           next_to = offset_to = pb_len (pbufs s p_to);
           p_from' = (if next_from then pb_next (pbufs s p_from) else p_from);
           p_to' = (if next_to then pb_next (pbufs s p_to) else p_to);
           offset_from = (if next_from then 0 else offset_from);
           offset_to = (if next_to then 0 else offset_to)
       in if next_from \<and> \<not> (p_from' \<noteq> 0 \<or> copy_len = 0) then Some (ERR_ARG, s)
          else if next_to \<and> \<not> (p_to' \<noteq> 0 \<or> copy_len = 0) then Some (ERR_ARG, s)
          else if p_from' \<noteq> 0 \<and> pb_len (pbufs s p_from') = pb_tot_len (pbufs s p_from') \<and>
            \<not> pb_next (pbufs s p_from') = 0 then Some (ERR_VAL, s)
          else if p_to' \<noteq> 0 \<and> pb_len (pbufs s p_to') = pb_tot_len (pbufs s p_to') \<and>
            \<not> pb_next (pbufs s p_to') = 0 then Some (ERR_VAL, s)
          else if copy_len \<noteq> 0 then copy_pbuf_loop p_to' offset_to p_from' offset_from copy_len s
          else Some (ERR_OK, s))"

definition pbuf_copy_partial_pbuf :: "nat \<Rightarrow> nat \<Rightarrow> nat \<Rightarrow> nat \<Rightarrow> net \<Rightarrow> (err_t \<times> net) option" where
  "pbuf_copy_partial_pbuf p_to p_from copy_len offset s =
    (if \<not> (p_from \<noteq> 0 \<and> pb_tot_len (pbufs s p_from) \<ge> copy_len) then Some (ERR_ARG, s)
     else if \<not> (p_to \<noteq> 0 \<and> pb_tot_len (pbufs s p_to) \<ge> offset + copy_len) then Some (ERR_ARG, s)
     else copy_pbuf_loop p_to offset p_from 0 copy_len s)"

definition pbuf_copy :: "nat \<Rightarrow> nat \<Rightarrow> net \<Rightarrow> (err_t \<times> net) option" where
  "pbuf_copy p_to p_from s =
    (if \<not> p_from \<noteq> 0 then Some (ERR_ARG, s)
     else pbuf_copy_partial_pbuf p_to p_from (pb_tot_len (pbufs s p_from)) 0 s)"

partial_function (option) copy_partial_loop ::
    "nat \<Rightarrow> nat \<Rightarrow> nat \<Rightarrow> nat \<Rightarrow> nat \<Rightarrow> nat \<Rightarrow> net \<Rightarrow> (nat \<times> net) option" where
  "copy_partial_loop dataptr p len offset left copied_total s =
    (if len \<noteq> 0 \<and> p \<noteq> 0 then
       if offset \<noteq> 0 \<and> offset \<ge> pb_len (pbufs s p) then
         copy_partial_loop dataptr (pb_next (pbufs s p)) len (u16_sub offset (pb_len (pbufs s p))) left copied_total s
       else
         let buf_copy_len = u16_sub (pb_len (pbufs s p)) offset;
             buf_copy_len = (if buf_copy_len > len then len else buf_copy_len);
             s = s\<lparr>mem_bytes := MEMCPY (dataptr + left) (pb_payload (pbufs s p) + offset) buf_copy_len (mem_bytes s)\<rparr>
         in copy_partial_loop dataptr (pb_next (pbufs s p)) (u16_sub len buf_copy_len) 0
              (u16_of (left + buf_copy_len)) (u16_of (copied_total + buf_copy_len)) s
     else Some (copied_total, s))"

definition pbuf_copy_partial :: "nat \<Rightarrow> nat \<Rightarrow> nat \<Rightarrow> nat \<Rightarrow> net \<Rightarrow> (nat \<times> net) option" where
  "pbuf_copy_partial buf dataptr len offset s =
    (if \<not> buf \<noteq> 0 then Some (0, s) else if \<not> dataptr \<noteq> 0 then Some (0, s)
     else copy_partial_loop dataptr buf len offset 0 0 s)"

partial_function (option) skip_loop :: "net \<Rightarrow> nat \<Rightarrow> nat \<Rightarrow> (nat \<times> nat) option" where
  "skip_loop s q offset_left =
    (if q \<noteq> 0 \<and> pb_len (pbufs s q) \<le> offset_left
     then skip_loop s (pb_next (pbufs s q)) (u16_sub offset_left (pb_len (pbufs s q)))
     else Some (q, offset_left))"

text \<open>The pbuf that holds the byte at \<open>in_offset\<close> and the offset inside it.\<close>

definition pbuf_skip_const :: "nat \<Rightarrow> nat \<Rightarrow> net \<Rightarrow> (nat \<times> nat) option" where
  "pbuf_skip_const in_p in_offset s = skip_loop s in_p in_offset"

definition pbuf_skip :: "nat \<Rightarrow> nat \<Rightarrow> net \<Rightarrow> (nat \<times> nat) option" where
  "pbuf_skip in_p in_offset s = pbuf_skip_const in_p in_offset s"

definition pbuf_get_contiguous :: "nat \<Rightarrow> nat \<Rightarrow> nat \<Rightarrow> nat \<Rightarrow> nat \<Rightarrow> net \<Rightarrow> (nat \<times> net) option" where
  "pbuf_get_contiguous p buffer bufsize len offset s =
    (if \<not> p \<noteq> 0 then Some (0, s) else if \<not> buffer \<noteq> 0 then Some (0, s) else if \<not> bufsize \<ge> len then Some (0, s)
     else case pbuf_skip_const p offset s of
            None \<Rightarrow> None
          | Some (q, out_offset) \<Rightarrow>
              if q \<noteq> 0 then
                if pb_len (pbufs s q) \<ge> out_offset + len then Some (pb_payload (pbufs s q) + out_offset, s)
                else map_option (\<lambda>(n, s). (if n \<noteq> len then 0 else buffer, s))
                       (pbuf_copy_partial q buffer len out_offset s)
              else Some (0, s))"

partial_function (option) take_loop :: "nat \<Rightarrow> nat \<Rightarrow> nat \<Rightarrow> nat \<Rightarrow> net \<Rightarrow> net option" where
  "take_loop dataptr p total_copy_len copied_total s =
    (if total_copy_len \<noteq> 0 then
       if p = 0 then None
       else
         let buf_copy_len = (if total_copy_len > pb_len (pbufs s p) then pb_len (pbufs s p) else total_copy_len);
             s = s\<lparr>mem_bytes := MEMCPY (pb_payload (pbufs s p)) (dataptr + copied_total) buf_copy_len (mem_bytes s)\<rparr>
         in take_loop dataptr (pb_next (pbufs s p)) (total_copy_len - buf_copy_len) (copied_total + buf_copy_len) s
     else Some s)"

definition pbuf_take :: "nat \<Rightarrow> nat \<Rightarrow> nat \<Rightarrow> net \<Rightarrow> (err_t \<times> net) option" where
  "pbuf_take buf dataptr len s =
    (if \<not> buf \<noteq> 0 then Some (ERR_ARG, s) else if \<not> dataptr \<noteq> 0 then Some (ERR_ARG, s)
     else if \<not> pb_tot_len (pbufs s buf) \<ge> len then Some (ERR_MEM, s)
     else map_option (\<lambda>s. (ERR_OK, s)) (take_loop dataptr buf len 0 s))"

definition pbuf_take_at :: "nat \<Rightarrow> nat \<Rightarrow> nat \<Rightarrow> nat \<Rightarrow> net \<Rightarrow> (err_t \<times> net) option" where
  "pbuf_take_at buf dataptr len offset s =
    (case pbuf_skip buf offset s of
       None \<Rightarrow> None
     | Some (q, target_offset) \<Rightarrow>
         if q \<noteq> 0 \<and> pb_tot_len (pbufs s q) \<ge> target_offset + len then
           let first_copy_len = u16_of (min (pb_len (pbufs s q) - target_offset) len);
               s = s\<lparr>mem_bytes := MEMCPY (pb_payload (pbufs s q) + target_offset) dataptr first_copy_len (mem_bytes s)\<rparr>;
               remaining_len = u16_sub len first_copy_len
           in if remaining_len > 0 then pbuf_take (pb_next (pbufs s q)) (dataptr + first_copy_len) remaining_len s
              else Some (ERR_OK, s)
         else Some (ERR_MEM, s))"

definition pbuf_clone :: "pbuf_env \<Rightarrow> nat \<Rightarrow> u32 \<Rightarrow> nat \<Rightarrow> net \<Rightarrow> (nat \<times> net) option" where
  "pbuf_clone E layer type p s =
    (case pbuf_alloc E layer (pb_tot_len (pbufs s p)) type s of
       None \<Rightarrow> None
     | Some (q, s) \<Rightarrow> if q = 0 then Some (0, s) else map_option (\<lambda>r. (q, snd r)) (pbuf_copy q p s))"

definition pbuf_coalesce :: "pbuf_env \<Rightarrow> nat \<Rightarrow> nat \<Rightarrow> net \<Rightarrow> (nat \<times> net) option" where
  "pbuf_coalesce E p layer s =
    (if pb_next (pbufs s p) = 0 then Some (p, s)
     else case pbuf_clone E layer PBUF_RAM p s of
            None \<Rightarrow> None
          | Some (q, s) \<Rightarrow> if q = 0 then Some (p, s) else map_option (\<lambda>r. (q, snd r)) (pbuf_free E p s))"

section \<open>Access by offset\<close>

definition pbuf_try_get_at :: "nat \<Rightarrow> nat \<Rightarrow> net \<Rightarrow> int option" where
  "pbuf_try_get_at p offset s =
    (case pbuf_skip_const p offset s of
       None \<Rightarrow> None
     | Some (q, q_idx) \<Rightarrow>
         Some (if q \<noteq> 0 \<and> pb_len (pbufs s q) > q_idx then uint (mem_bytes s (pb_payload (pbufs s q) + q_idx)) else -1))"

definition pbuf_get_at :: "nat \<Rightarrow> nat \<Rightarrow> net \<Rightarrow> u8 option" where
  "pbuf_get_at p offset s =
    map_option (\<lambda>ret. if ret \<ge> 0 then word_of_int ret else 0) (pbuf_try_get_at p offset s)"

definition pbuf_put_at :: "nat \<Rightarrow> nat \<Rightarrow> u8 \<Rightarrow> net \<Rightarrow> net option" where
  "pbuf_put_at p offset data s =
    (case pbuf_skip p offset s of
       None \<Rightarrow> None
     | Some (q, q_idx) \<Rightarrow>
         Some (if q \<noteq> 0 \<and> pb_len (pbufs s q) > q_idx
               then s\<lparr>mem_bytes := (mem_bytes s)(pb_payload (pbufs s q) + q_idx := data)\<rparr> else s))"

text \<open>The comparison loop, with \<open>k\<close> rounds left.\<close>

fun memcmp_loop :: "net \<Rightarrow> nat \<Rightarrow> nat \<Rightarrow> nat \<Rightarrow> nat \<Rightarrow> nat \<Rightarrow> nat option" where
  "memcmp_loop s q strt s2 i 0 = Some 0"
| "memcmp_loop s q strt s2 i (Suc k) =
    (case pbuf_get_at q (u16_of (strt + i)) s of
       None \<Rightarrow> None
     | Some a \<Rightarrow> if a \<noteq> mem_bytes s (s2 + i) then Some (u16_of (min (i + 1) 0xFFFF))
                 else memcmp_loop s q strt s2 (i + 1) k)"

definition pbuf_memcmp :: "nat \<Rightarrow> nat \<Rightarrow> nat \<Rightarrow> nat \<Rightarrow> net \<Rightarrow> nat option" where
  "pbuf_memcmp p offset s2 n s =
    (if pb_tot_len (pbufs s p) < offset + n then Some 0xffff
     else case skip_loop s p offset of
            None \<Rightarrow> None
          | Some (q, strt) \<Rightarrow> memcmp_loop s q strt s2 0 n)"

partial_function (option) memfind_loop :: "nat \<Rightarrow> nat \<Rightarrow> nat \<Rightarrow> nat \<Rightarrow> net \<Rightarrow> nat \<Rightarrow> nat option" where
  "memfind_loop p mem mem_len max_cmp_start s i =
    (if i \<le> max_cmp_start then
       case pbuf_memcmp p i mem mem_len s of
         None \<Rightarrow> None
       | Some diff \<Rightarrow> if diff = 0 then Some i
                      else memfind_loop p mem mem_len max_cmp_start s (u16_of (i + 1))
     else Some 0xFFFF)"

definition pbuf_memfind :: "nat \<Rightarrow> nat \<Rightarrow> nat \<Rightarrow> nat \<Rightarrow> net \<Rightarrow> nat option" where
  "pbuf_memfind p mem mem_len start_offset s =
    (let max_cmp_start = u16_sub (pb_tot_len (pbufs s p)) mem_len
     in if pb_tot_len (pbufs s p) \<ge> mem_len + start_offset
        then memfind_loop p mem mem_len max_cmp_start s start_offset else Some 0xFFFF)"

text \<open>\<open>strlen\<close> of the C library; it runs on when the string has no terminating zero.\<close>

partial_function (option) strlen :: "bytes \<Rightarrow> nat \<Rightarrow> nat \<Rightarrow> nat option" where
  "strlen m a n = (if m (a + n) = 0 then Some n else strlen m a (n + 1))"

definition pbuf_strstr :: "nat \<Rightarrow> nat \<Rightarrow> net \<Rightarrow> nat option" where
  "pbuf_strstr p substr s =
    (if substr = 0 \<or> mem_bytes s substr = 0 \<or> pb_tot_len (pbufs s p) = 0xFFFF then Some 0xFFFF
     else case strlen (mem_bytes s) substr 0 of
            None \<Rightarrow> None
          | Some substr_len \<Rightarrow>
              if substr_len \<ge> 0xFFFF then Some 0xFFFF else pbuf_memfind p substr (u16_of substr_len) 0 s)"

end
