(* ===== verification/Lwip_Packet.thy ===== *)
theory Lwip_Packet
  imports Lwip_Pbuf
begin

text \<open>
  Packets: well-formed chains of pbufs and the bytes they hold. The read accesses by offset and the
  searches are shown to work on those bytes as if they were contiguous.
\<close>

section \<open>Packets\<close>

definition pchain :: "net \<Rightarrow> nat \<Rightarrow> nat list \<Rightarrow> bool" where
  "pchain s p xs \<longleftrightarrow> chain (\<lambda>a. pb_next (pbufs s a)) p xs"

definition plen :: "(nat \<Rightarrow> pbuf) \<Rightarrow> nat list \<Rightarrow> nat" where
  "plen B xs = sum_list (map (\<lambda>a. pb_len (B a)) xs)"

fun tots :: "(nat \<Rightarrow> pbuf) \<Rightarrow> nat list \<Rightarrow> bool" where
  "tots B [] = True"
| "tots B (x # xs) = (pb_tot_len (B x) = pb_len (B x) + plen B xs \<and> tots B xs)"

definition pdata :: "net \<Rightarrow> nat list \<Rightarrow> u8 list" where
  "pdata s xs = concat (map (\<lambda>a. get_bytes (mem_bytes s) (pb_payload (pbufs s a)) (pb_len (pbufs s a))) xs)"

text \<open>The pbufs of \<open>xs\<close>, from \<open>p\<close> to the end of the chain, form one packet with the \<open>tot_len\<close> invariant.\<close>

definition packet :: "net \<Rightarrow> nat \<Rightarrow> nat list \<Rightarrow> bool" where
  "packet s p xs \<longleftrightarrow> pchain s p xs \<and> tots (pbufs s) xs \<and> plen (pbufs s) xs < 65536"

lemma plen_simps [simp]:
  "plen B [] = 0" "plen B (x # xs) = pb_len (B x) + plen B xs" "plen B (xs @ ys) = plen B xs + plen B ys"
  by (simp_all add: plen_def)

lemma pdata_simps [simp]:
  "pdata s [] = []"
  "pdata s (x # xs) = get_bytes (mem_bytes s) (pb_payload (pbufs s x)) (pb_len (pbufs s x)) @ pdata s xs"
  "pdata s (xs @ ys) = pdata s xs @ pdata s ys"
  by (simp_all add: pdata_def)

lemma length_pdata [simp]: "length (pdata s xs) = plen (pbufs s) xs"
  by (induction xs) auto

lemma pchain_simps [simp]:
  "pchain s p [] \<longleftrightarrow> p = 0"
  "pchain s p (x # xs) \<longleftrightarrow> p = x \<and> p \<noteq> 0 \<and> pchain s (pb_next (pbufs s x)) xs"
  by (simp_all add: pchain_def)

lemma pchain_0 [simp]: "pchain s 0 xs \<longleftrightarrow> xs = []"
  by (cases xs) auto

lemma pchain_head: "pchain s p xs \<Longrightarrow> p \<noteq> 0 \<Longrightarrow> \<exists>ys. xs = p # ys"
  by (cases xs) auto

lemma pchain_nonnull: "pchain s p xs \<Longrightarrow> 0 \<notin> set xs"
  unfolding pchain_def by (rule chain_nonnull)

lemma pchain_distinct: "pchain s p xs \<Longrightarrow> distinct xs"
  unfolding pchain_def by (rule chain_distinct)

lemma pchain_append:
  "pchain s p (xs @ ys) \<longleftrightarrow>
    (case xs of [] \<Rightarrow> pchain s p ys
     | _ \<Rightarrow> p = hd xs \<and> 0 \<notin> set xs \<and> (\<forall>i. Suc i < length xs \<longrightarrow> pb_next (pbufs s (xs ! i)) = xs ! Suc i) \<and>
         pchain s (pb_next (pbufs s (last xs))) ys)"
proof (induction xs arbitrary: p)
  case (Cons x xs)
  show ?case
  proof (cases xs)
    case Nil
    then show ?thesis by auto
  next
    case (Cons z zs)
    have "(\<forall>i. Suc i < length (x # xs) \<longrightarrow> pb_next (pbufs s ((x # xs) ! i)) = (x # xs) ! Suc i) \<longleftrightarrow>
        pb_next (pbufs s x) = z \<and> (\<forall>i. Suc i < length xs \<longrightarrow> pb_next (pbufs s (xs ! i)) = xs ! Suc i)"
      unfolding local.Cons by (auto simp: nth_Cons split: nat.splits)
    then show ?thesis using Cons.IH [of "pb_next (pbufs s x)"] by (auto simp: local.Cons)
  qed
qed simp

lemma pchain_cong:
  assumes "\<forall>a \<in> set xs. pb_next (pbufs s' a) = pb_next (pbufs s a)"
  shows "pchain s' p xs = pchain s p xs"
  unfolding pchain_def using assms by (intro chain_cong) auto

lemma tots_cong:
  assumes "\<forall>a \<in> set xs. pb_len (B' a) = pb_len (B a) \<and> pb_tot_len (B' a) = pb_tot_len (B a)"
  shows "plen B' xs = plen B xs" "tots B' xs = tots B xs"
  using assms by (induction xs) auto

lemma packet_bytes [simp]: "packet (s\<lparr>mem_bytes := m\<rparr>) p xs = packet s p xs"
proof -
  have "pchain (s\<lparr>mem_bytes := m\<rparr>) p xs = pchain s p xs" by (rule pchain_cong) simp
  then show ?thesis by (simp add: packet_def)
qed

lemma packet_tl: "packet s p (x # xs) \<Longrightarrow> packet s (pb_next (pbufs s x)) xs"
  by (auto simp: packet_def)

lemma packet_tot: "packet s p (x # xs) \<Longrightarrow> pb_tot_len (pbufs s p) = plen (pbufs s) (x # xs)"
  by (auto simp: packet_def)

lemma packet_tot_len: "packet s p xs \<Longrightarrow> p \<noteq> 0 \<Longrightarrow> pb_tot_len (pbufs s p) = plen (pbufs s) xs"
  by (cases xs) (auto simp: packet_def)

section \<open>Skipping to an offset\<close>

lemma skip_loop_chain:
  assumes "pchain s p xs" "off < 65536"
  shows "off < plen (pbufs s) xs \<Longrightarrow> \<exists>ys q zs. xs = ys @ q # zs \<and> plen (pbufs s) ys \<le> off \<and>
      skip_loop s p off = Some (q, off - plen (pbufs s) ys) \<and> off - plen (pbufs s) ys < pb_len (pbufs s q) \<and> q \<noteq> 0 \<and>
      pchain s q (q # zs)"
    "plen (pbufs s) xs \<le> off \<Longrightarrow> skip_loop s p off = Some (0, off - plen (pbufs s) xs)"
proof -
  have "(off < plen (pbufs s) xs \<longrightarrow> (\<exists>ys q zs. xs = ys @ q # zs \<and> plen (pbufs s) ys \<le> off \<and>
      skip_loop s p off = Some (q, off - plen (pbufs s) ys) \<and> off - plen (pbufs s) ys < pb_len (pbufs s q) \<and> q \<noteq> 0 \<and>
      pchain s q (q # zs))) \<and>
    (plen (pbufs s) xs \<le> off \<longrightarrow> skip_loop s p off = Some (0, off - plen (pbufs s) xs))"
    using assms
  proof (induction xs arbitrary: p off)
    case Nil
    then show ?case by (subst skip_loop.simps) simp
  next
    case (Cons x xs)
    have p: "p = x" "p \<noteq> 0" "pchain s (pb_next (pbufs s x)) xs" using Cons.prems by auto
    show ?case
    proof (cases "pb_len (pbufs s x) \<le> off")
      case False
      then have "skip_loop s p off = Some (x, off)" using p by (subst skip_loop.simps) simp
      then show ?thesis
        using False p by (intro conjI impI exI [of _ "[]"] exI [of _ x] exI [of _ xs]) auto
    next
      case True
      have step: "skip_loop s p off = skip_loop s (pb_next (pbufs s x)) (off - pb_len (pbufs s x))"
        using True p Cons.prems(2) by (subst skip_loop.simps) (simp add: u16_sub_le)
      have "off - pb_len (pbufs s x) < 65536" using Cons.prems(2) by simp
      note IH = Cons.IH [OF p(3) this]
      show ?thesis
      proof (intro conjI impI)
        assume "off < plen (pbufs s) (x # xs)"
        then obtain ys q zs where *: "xs = ys @ q # zs" "plen (pbufs s) ys \<le> off - pb_len (pbufs s x)"
            "skip_loop s (pb_next (pbufs s x)) (off - pb_len (pbufs s x)) =
              Some (q, off - pb_len (pbufs s x) - plen (pbufs s) ys)"
            "off - pb_len (pbufs s x) - plen (pbufs s) ys < pb_len (pbufs s q)" "q \<noteq> 0" "pchain s q (q # zs)"
          using IH True by auto
        then show "\<exists>ys q zs. x # xs = ys @ q # zs \<and> plen (pbufs s) ys \<le> off \<and>
            skip_loop s p off = Some (q, off - plen (pbufs s) ys) \<and>
            off - plen (pbufs s) ys < pb_len (pbufs s q) \<and> q \<noteq> 0 \<and> pchain s q (q # zs)"
          using step True by (intro exI [of _ "x # ys"] exI [of _ q] exI [of _ zs]) auto
      next
        assume "plen (pbufs s) (x # xs) \<le> off"
        then show "skip_loop s p off = Some (0, off - plen (pbufs s) (x # xs))"
          using IH step by auto
      qed
    qed
  qed
  then show "off < plen (pbufs s) xs \<Longrightarrow> \<exists>ys q zs. xs = ys @ q # zs \<and> plen (pbufs s) ys \<le> off \<and>
      skip_loop s p off = Some (q, off - plen (pbufs s) ys) \<and> off - plen (pbufs s) ys < pb_len (pbufs s q) \<and> q \<noteq> 0 \<and>
      pchain s q (q # zs)"
    "plen (pbufs s) xs \<le> off \<Longrightarrow> skip_loop s p off = Some (0, off - plen (pbufs s) xs)" by blast+
qed

lemma pdata_nth:
  assumes "off - plen (pbufs s) ys < pb_len (pbufs s q)" "plen (pbufs s) ys \<le> off"
  shows "pdata s (ys @ q # zs) ! off = mem_bytes s (pb_payload (pbufs s q) + (off - plen (pbufs s) ys))"
  using assms by (simp add: nth_append)

lemma pbuf_try_get_at_data:
  assumes "pchain s p xs" "off < 65536"
  shows "pbuf_try_get_at p off s =
    Some (if off < plen (pbufs s) xs then uint (pdata s xs ! off) else -1)"
proof (cases "off < plen (pbufs s) xs")
  case True
  then obtain ys q zs where "xs = ys @ q # zs" "plen (pbufs s) ys \<le> off"
      "skip_loop s p off = Some (q, off - plen (pbufs s) ys)" "off - plen (pbufs s) ys < pb_len (pbufs s q)" "q \<noteq> 0"
    using skip_loop_chain(1) [OF assms] by blast
  then show ?thesis
    using True pdata_nth by (simp add: pbuf_try_get_at_def pbuf_skip_const_def)
next
  case False
  then show ?thesis
    using skip_loop_chain(2) [OF assms] by (simp add: pbuf_try_get_at_def pbuf_skip_const_def)
qed

lemma pbuf_get_at_data:
  assumes "pchain s p xs" "off < 65536"
  shows "pbuf_get_at p off s = Some (if off < plen (pbufs s) xs then pdata s xs ! off else 0)"
  using pbuf_try_get_at_data [OF assms] by (simp add: pbuf_get_at_def)

section \<open>Comparison and search\<close>

text \<open>
  The specification of the comparison: zero on equality, otherwise the position of the first difference
  counted from one, cut off at \<open>0xFFFF\<close>.
\<close>

fun first_diff :: "nat \<Rightarrow> u8 list \<Rightarrow> u8 list \<Rightarrow> nat" where
  "first_diff i (a # as) (b # bs) = (if a \<noteq> b then min (i + 1) 0xFFFF else first_diff (i + 1) as bs)"
| "first_diff i _ _ = 0"

lemma first_diff_0: "length as = length bs \<Longrightarrow> first_diff i as bs = 0 \<longleftrightarrow> as = bs"
  by (induction i as bs rule: first_diff.induct) auto

lemma memcmp_loop_data:
  assumes "pchain s q xs" "strt + i + k \<le> plen (pbufs s) xs" "plen (pbufs s) xs < 65536"
  shows "memcmp_loop s q strt s2 i k =
    Some (first_diff i (take k (drop (strt + i) (pdata s xs))) (get_bytes (mem_bytes s) (s2 + i) k))"
  using assms(2)
proof (induction k arbitrary: i)
  case (Suc k)
  have lt: "strt + i < plen (pbufs s) xs" using Suc.prems by simp
  have get: "pbuf_get_at q (u16_of (strt + i)) s = Some (pdata s xs ! (strt + i))"
    using pbuf_get_at_data [OF assms(1)] lt assms(3) by simp
  have d: "take (Suc k) (drop (strt + i) (pdata s xs)) =
      pdata s xs ! (strt + i) # take k (drop (strt + (i + 1)) (pdata s xs))"
    using lt by (metis Cons_nth_drop_Suc add.assoc Suc_eq_plus1 length_pdata take_Suc_Cons)
  have b: "get_bytes (mem_bytes s) (s2 + i) (Suc k) = mem_bytes s (s2 + i) # get_bytes (mem_bytes s) (s2 + (i + 1)) k"
    using get_bytes_add [of "mem_bytes s" "s2 + i" 1 k] by (simp add: get_bytes_def add.assoc)
  have "strt + (i + 1) + k \<le> plen (pbufs s) xs" using Suc.prems by simp
  then show ?case using Suc.IH [of "i + 1"] by (simp add: get d b)
qed simp

text \<open>Skipping the pbufs in front of the window does not change the window.\<close>

lemma drop_pdata_front: "plen (pbufs s) ys \<le> off \<Longrightarrow> drop off (pdata s (ys @ zs)) = drop (off - plen (pbufs s) ys) (pdata s zs)"
  by simp

lemma pbuf_memcmp_data:
  assumes "packet s p xs" "p \<noteq> 0" "off + n \<le> plen (pbufs s) xs"
  shows "pbuf_memcmp p off s2 n s =
    Some (first_diff 0 (take n (drop off (pdata s xs))) (get_bytes (mem_bytes s) s2 n))"
proof -
  have ch: "pchain s p xs" and lt: "plen (pbufs s) xs < 65536" using assms(1) by (auto simp: packet_def)
  have tot: "pb_tot_len (pbufs s p) = plen (pbufs s) xs" by (rule packet_tot_len [OF assms(1,2)])
  have off: "off < 65536" using assms(3) lt by simp
  show ?thesis
  proof (cases "off < plen (pbufs s) xs")
    case True
    then obtain ys q zs where *: "xs = ys @ q # zs" "plen (pbufs s) ys \<le> off"
        "skip_loop s p off = Some (q, off - plen (pbufs s) ys)" "pchain s q (q # zs)"
      using skip_loop_chain(1) [OF ch off] by blast
    have "memcmp_loop s q (off - plen (pbufs s) ys) s2 0 n =
        Some (first_diff 0 (take n (drop (off - plen (pbufs s) ys + 0) (pdata s (q # zs))))
          (get_bytes (mem_bytes s) (s2 + 0) n))"
      by (rule memcmp_loop_data [OF *(4)]) (use assms(3) lt *(1,2) in simp_all)
    moreover have "drop off (pdata s xs) = drop (off - plen (pbufs s) ys) (pdata s (q # zs))"
      unfolding *(1) by (rule drop_pdata_front [OF *(2)])
    ultimately show ?thesis
      using assms(3) tot *(3) by (simp add: pbuf_memcmp_def)
  next
    case False
    then have "n = 0" "skip_loop s p off = Some (0, off - plen (pbufs s) xs)"
      using skip_loop_chain(2) [OF ch off] assms(3) by auto
    then show ?thesis using assms(3) tot by (simp add: pbuf_memcmp_def)
  qed
qed

lemma memfind_loop_data:
  fixes mem :: nat
  assumes "packet s p xs" "p \<noteq> 0" "n \<le> plen (pbufs s) xs" "0 < n"
  defines "d \<equiv> pdata s xs" and "w \<equiv> get_bytes (mem_bytes s) mem n" and "mx \<equiv> plen (pbufs s) xs - n"
  shows "i \<le> Suc mx \<Longrightarrow> memfind_loop p mem n mx s i =
    Some (case find (\<lambda>j. take n (drop j d) = w) [i..<Suc mx] of None \<Rightarrow> 0xFFFF | Some j \<Rightarrow> j)"
proof (induction "Suc mx - i" arbitrary: i)
  case 0
  then show ?case by (subst memfind_loop.simps) simp
next
  case (Suc k)
  have lt: "plen (pbufs s) xs < 65536" using assms(1) by (simp add: packet_def)
  have i: "i \<le> mx" using Suc(2) by simp
  then have cmp: "pbuf_memcmp p i mem n s = Some (first_diff 0 (take n (drop i d)) w)"
    using pbuf_memcmp_data [OF assms(1,2), of i n mem] assms(3) unfolding d_def w_def mx_def by simp
  have z: "first_diff 0 (take n (drop i d)) w = 0 \<longleftrightarrow> take n (drop i d) = w"
    using i assms(3) by (intro first_diff_0) (simp add: d_def w_def mx_def)
  have up: "[i..<Suc mx] = i # [Suc i..<Suc mx]" using i by (simp add: upt_rec)
  have "u16_of (i + 1) = Suc i" using i lt assms(4) by (simp add: mx_def)
  then show ?case
    using i cmp z up Suc(1) [of "Suc i"] Suc(2) by (subst memfind_loop.simps) simp
qed

end
