(* ===== verification/Lwip_Packet_Copy.thy ===== *)
theory Lwip_Packet_Copy
  imports Lwip_Packet
begin

text \<open>
  The copying operations on packets: out of a packet into a buffer, from a buffer into a packet, and
  from packet to packet.
\<close>

section \<open>Regions\<close>

text \<open>The bytes of a pbuf's payload.\<close>

definition pext :: "net \<Rightarrow> nat \<Rightarrow> nat \<times> nat" where
  "pext s a = (pb_payload (pbufs s a), pb_len (pbufs s a))"

definition separate :: "net \<Rightarrow> nat list \<Rightarrow> bool" where
  "separate s xs \<longleftrightarrow> sorted_wrt (\<lambda>a b. apart (pext s a) (pext s b)) xs"

definition within :: "nat \<Rightarrow> nat \<times> nat \<Rightarrow> bool" where
  "within b x \<longleftrightarrow> fst x \<le> b \<and> b < fst x + snd x"

lemma apart_sym: "apart x y = apart y x"
  by (auto simp: apart_def)

lemma apart_shrink: "apart (a, n) y \<Longrightarrow> a \<le> a' \<Longrightarrow> a' + n' \<le> a + n \<Longrightarrow> apart (a', n') y"
  by (auto simp: apart_def)

lemma apart_within: "apart x y \<Longrightarrow> within b x \<Longrightarrow> \<not> within b y"
  by (auto simp: apart_def within_def)

lemma pext_bytes [simp]: "pext (s\<lparr>mem_bytes := m\<rparr>) a = pext s a"
  by (simp add: pext_def)

lemma separate_bytes [simp]: "separate (s\<lparr>mem_bytes := m\<rparr>) xs = separate s xs"
  by (simp add: separate_def)

lemma separate_Cons: "separate s (x # xs) \<longleftrightarrow> (\<forall>a \<in> set xs. apart (pext s x) (pext s a)) \<and> separate s xs"
  by (simp add: separate_def)

lemma pdata_put:
  assumes "\<forall>x \<in> set xs. apart (a, length bs) (pext s x)"
  shows "pdata (s\<lparr>mem_bytes := put_bytes a bs (mem_bytes s)\<rparr>) xs = pdata s xs"
  using assms by (induction xs) (auto simp: pext_def get_put_apart)

lemma pdata_cong:
  assumes "\<And>b a. a \<in> set xs \<Longrightarrow> within b (pext s a) \<Longrightarrow> m b = mem_bytes s b"
  shows "pdata (s\<lparr>mem_bytes := m\<rparr>) xs = pdata s xs"
proof -
  have "get_bytes m (pb_payload (pbufs s a)) (pb_len (pbufs s a)) =
      get_bytes (mem_bytes s) (pb_payload (pbufs s a)) (pb_len (pbufs s a))" if "a \<in> set xs" for a
    using assms [OF that] by (intro get_bytes_cong) (simp add: pext_def within_def)
  then show ?thesis by (simp add: pdata_def cong: map_cong)
qed

section \<open>From a packet into a buffer\<close>

lemma copy_partial_loop_data:
  assumes "pchain s p xs" "plen (pbufs s) xs < 65536" "off < 65536"
    and "left + len < 65536" "tot + len < 65536"
    and "\<forall>x \<in> set xs. apart (dataptr + left, len) (pext s x)"
  shows "copy_partial_loop dataptr p len off left tot s =
    Some (tot + length (take len (drop off (pdata s xs))),
      s\<lparr>mem_bytes := put_bytes (dataptr + left) (take len (drop off (pdata s xs))) (mem_bytes s)\<rparr>)"
  using assms
proof (induction xs arbitrary: p len off left tot s)
  case Nil
  then show ?case by (subst copy_partial_loop.simps) simp
next
  case (Cons x xs)
  have p: "p = x" "p \<noteq> 0" "pchain s (pb_next (pbufs s x)) xs" using Cons.prems(1) by auto
  have lx: "pb_len (pbufs s x) + plen (pbufs s) xs < 65536" using Cons.prems(2) by simp
  consider "len = 0" | "len \<noteq> 0" "off \<noteq> 0" "pb_len (pbufs s x) \<le> off"
    | "len \<noteq> 0" "\<not> (off \<noteq> 0 \<and> pb_len (pbufs s x) \<le> off)"
    by blast
  then show ?case
  proof cases
    case 1
    then show ?thesis by (subst copy_partial_loop.simps) simp
  next
    case 2
    have "copy_partial_loop dataptr p len off left tot s =
        copy_partial_loop dataptr (pb_next (pbufs s x)) len (off - pb_len (pbufs s x)) left tot s"
      using 2 p Cons.prems(3) by (subst copy_partial_loop.simps) (simp add: u16_sub_le)
    also have "\<dots> = Some (tot + length (take len (drop (off - pb_len (pbufs s x)) (pdata s xs))),
      s\<lparr>mem_bytes := put_bytes (dataptr + left) (take len (drop (off - pb_len (pbufs s x)) (pdata s xs))) (mem_bytes s)\<rparr>)"
      by (rule Cons.IH [OF p(3)]) (use Cons.prems lx in auto)
    finally show ?thesis using 2(3) by simp
  next
    case 3
    have off: "off \<le> pb_len (pbufs s x)" using 3 by auto
    define n where "n = min (pb_len (pbufs s x) - off) len"
    define chunk where "chunk = get_bytes (mem_bytes s) (pb_payload (pbufs s x) + off) n"
    define s1 where "s1 = s\<lparr>mem_bytes := put_bytes (dataptr + left) chunk (mem_bytes s)\<rparr>"
    have n: "n \<le> len" "length chunk = n" by (simp_all add: n_def chunk_def)
    have "u16_sub (pb_len (pbufs s x)) off = pb_len (pbufs s x) - off" using off lx by (simp add: u16_sub_le)
    then have step: "copy_partial_loop dataptr p len off left tot s =
        copy_partial_loop dataptr (pb_next (pbufs s1 x)) (len - n) 0 (left + n) (tot + n) s1"
      using 3 p Cons.prems(4,5) n(1) lx
      by (subst copy_partial_loop.simps)
         (auto simp: u16_sub_le s1_def chunk_def n_def MEMCPY_def min_def Let_def split: if_splits)
    have "pchain s1 (pb_next (pbufs s1 x)) xs"
      using p(3) pchain_cong [of xs s1 s] by (simp add: s1_def)
    moreover have ap: "\<forall>y \<in> set xs. apart (dataptr + left, len) (pext s y)" using Cons.prems(6) by simp
    have "apart (dataptr + (left + n), len - n) (pext s1 y)" if "y \<in> set xs" for y
      by (rule apart_shrink [of "dataptr + left" len]) (use ap that n(1) in \<open>auto simp: s1_def\<close>)
    ultimately have "copy_partial_loop dataptr (pb_next (pbufs s1 x)) (len - n) 0 (left + n) (tot + n) s1 =
      Some (tot + n + length (take (len - n) (drop 0 (pdata s1 xs))),
        s1\<lparr>mem_bytes := put_bytes (dataptr + (left + n)) (take (len - n) (drop 0 (pdata s1 xs))) (mem_bytes s1)\<rparr>)"
      using Cons.prems(4,5) n(1) lx by (intro Cons.IH) (auto simp: s1_def)
    moreover have "pdata s1 xs = pdata s xs"
      unfolding s1_def using ap n by (intro pdata_put) (auto intro: apart_shrink)
    moreover have "take len (drop off (pdata s (x # xs))) = chunk @ take (len - n) (pdata s xs)"
      using off by (auto simp: chunk_def n_def drop_get_bytes min_def take_get_bytes)
    ultimately show ?thesis
      using n step by (simp add: put_bytes_append s1_def add.assoc)
  qed
qed

section \<open>From a buffer into a packet\<close>

lemma take_loop_data:
  assumes "pchain s p xs" "n \<le> plen (pbufs s) xs" "separate s xs"
    and "\<forall>x \<in> set xs. apart (pext s x) (dataptr + c, n)"
  shows "\<exists>m. take_loop dataptr p n c s = Some (s\<lparr>mem_bytes := m\<rparr>) \<and>
    pdata (s\<lparr>mem_bytes := m\<rparr>) xs = get_bytes (mem_bytes s) (dataptr + c) n @ drop n (pdata s xs) \<and>
    (\<forall>b. (\<forall>x \<in> set xs. \<not> within b (pext s x)) \<longrightarrow> m b = mem_bytes s b)"
  using assms
proof (induction xs arbitrary: p n c s)
  case Nil
  then show ?case by (subst take_loop.simps) (auto intro!: exI [of _ "mem_bytes s"])
next
  case (Cons x xs)
  have p: "p = x" "p \<noteq> 0" "pchain s (pb_next (pbufs s x)) xs" using Cons.prems(1) by auto
  show ?case
  proof (cases "n = 0")
    case True
    then show ?thesis by (subst take_loop.simps) (auto intro!: exI [of _ "mem_bytes s"])
  next
    case False
    define k where "k = min n (pb_len (pbufs s x))"
    define chunk where "chunk = get_bytes (mem_bytes s) (dataptr + c) k"
    define s1 where "s1 = s\<lparr>mem_bytes := put_bytes (pb_payload (pbufs s x)) chunk (mem_bytes s)\<rparr>"
    have k: "k \<le> n" "k \<le> pb_len (pbufs s x)" "length chunk = k" by (simp_all add: k_def chunk_def)
    have step: "take_loop dataptr p n c s = take_loop dataptr (pb_next (pbufs s1 x)) (n - k) (c + k) s1"
      using False p by (subst take_loop.simps) (auto simp: s1_def chunk_def k_def MEMCPY_def min_def Let_def)
    have src: "apart (pext s x) (dataptr + c, n)" "\<forall>y \<in> set xs. apart (pext s y) (dataptr + c, n)"
      using Cons.prems(4) by auto
    have sep: "\<forall>y \<in> set xs. apart (pext s x) (pext s y)" "separate s xs"
      using Cons.prems(3) by (simp_all add: separate_Cons)
    have "pchain s1 (pb_next (pbufs s1 x)) xs"
      using p(3) pchain_cong [of xs s1 s] by (simp add: s1_def)
    moreover have "n - k \<le> plen (pbufs s1) xs" using Cons.prems(2) by (simp add: s1_def k_def)
    moreover have "\<forall>y \<in> set xs. apart (pext s1 y) (dataptr + (c + k), n - k)"
      using src(2) k(1) by (auto simp: s1_def apart_sym [of "pext s _"] intro: apart_shrink)
    ultimately obtain m where m: "take_loop dataptr (pb_next (pbufs s1 x)) (n - k) (c + k) s1 = Some (s1\<lparr>mem_bytes := m\<rparr>)"
        "pdata (s1\<lparr>mem_bytes := m\<rparr>) xs =
          get_bytes (mem_bytes s1) (dataptr + (c + k)) (n - k) @ drop (n - k) (pdata s1 xs)"
        "\<forall>b. (\<forall>y \<in> set xs. \<not> within b (pext s1 y)) \<longrightarrow> m b = mem_bytes s1 b"
      using Cons.IH [of s1 "pb_next (pbufs s1 x)" "n - k" "c + k"] sep(2) by (auto simp: s1_def)
    have ext: "(pb_payload (pbufs s x), length chunk) = (fst (pext s x), k)" by (simp add: pext_def k(3))
    have d1: "pdata s1 xs = pdata s xs"
      unfolding s1_def using sep(1) k by (intro pdata_put) (auto simp: pext_def intro: apart_shrink)
    have d2: "get_bytes (mem_bytes s1) (dataptr + (c + k)) (n - k) = get_bytes (mem_bytes s) (dataptr + (c + k)) (n - k)"
      unfolding s1_def using src(1) k by (simp add: pext_def) (intro get_put_apart, auto simp: apart_def)
    have d3: "get_bytes m (pb_payload (pbufs s x)) (pb_len (pbufs s x)) =
        chunk @ drop k (get_bytes (mem_bytes s) (pb_payload (pbufs s x)) (pb_len (pbufs s x)))"
    proof -
      have "get_bytes m (pb_payload (pbufs s x)) (pb_len (pbufs s x)) =
          get_bytes (mem_bytes s1) (pb_payload (pbufs s x)) (pb_len (pbufs s x))"
      proof (rule get_bytes_cong)
        fix i assume "i < pb_len (pbufs s x)"
        then have "within (pb_payload (pbufs s x) + i) (pext s x)" by (simp add: within_def pext_def)
        then have "\<forall>y \<in> set xs. \<not> within (pb_payload (pbufs s x) + i) (pext s1 y)"
          using sep(1) apart_within by (simp add: s1_def) blast
        then show "m (pb_payload (pbufs s x) + i) = mem_bytes s1 (pb_payload (pbufs s x) + i)" using m(3) by blast
      qed
      also have "\<dots> = chunk @ drop k (get_bytes (mem_bytes s) (pb_payload (pbufs s x)) (pb_len (pbufs s x)))"
        using k by (intro nth_equalityI) (auto simp: s1_def put_bytes_def nth_append)
      finally show ?thesis .
    qed
    have "get_bytes (mem_bytes s) (dataptr + c) n = chunk @ get_bytes (mem_bytes s) (dataptr + (c + k)) (n - k)"
      using get_bytes_add [of "mem_bytes s" "dataptr + c" k "n - k"] k(1) by (simp add: chunk_def add.assoc)
    moreover have "drop k (get_bytes (mem_bytes s) (pb_payload (pbufs s x)) (pb_len (pbufs s x))) = [] \<or> n - k = 0"
      by (auto simp: k_def)
    ultimately have "pdata (s\<lparr>mem_bytes := m\<rparr>) (x # xs) = get_bytes (mem_bytes s) (dataptr + c) n @ drop n (pdata s (x # xs))"
      using m(2) d1 d2 d3 k by (auto simp: s1_def k_def min_def split: if_splits)
    moreover have "m b = mem_bytes s b" if "\<forall>y \<in> set (x # xs). \<not> within b (pext s y)" for b
      using m(3) that k by (auto simp: s1_def put_bytes_def within_def pext_def)
    ultimately show ?thesis using step m(1) by (auto simp: s1_def)
  qed
qed

section \<open>From packet to packet\<close>

definition overlay :: "u8 list \<Rightarrow> nat \<Rightarrow> u8 list \<Rightarrow> u8 list" where
  "overlay d k bs = take k d @ bs @ drop (k + length bs) d"

lemma overlay_overlay:
  "k + length as \<le> length d \<Longrightarrow> overlay (overlay d k as) (k + length as) bs = overlay d k (as @ bs)"
  by (simp add: overlay_def ac_simps)

lemma separate_append:
  "separate s (xs @ ys) \<longleftrightarrow> separate s xs \<and> separate s ys \<and> (\<forall>x \<in> set xs. \<forall>y \<in> set ys. apart (pext s x) (pext s y))"
  by (simp add: separate_def sorted_wrt_append)

text \<open>Bytes written into the payload of one pbuf appear at its place in the packet.\<close>

lemma pdata_overlay:
  assumes "separate s (us @ t # ts)" "off + length bs \<le> pb_len (pbufs s t)"
  shows "pdata (s\<lparr>mem_bytes := put_bytes (pb_payload (pbufs s t) + off) bs (mem_bytes s)\<rparr>) (us @ t # ts) =
    overlay (pdata s (us @ t # ts)) (plen (pbufs s) us + off) bs"
proof -
  let ?s = "s\<lparr>mem_bytes := put_bytes (pb_payload (pbufs s t) + off) bs (mem_bytes s)\<rparr>"
  let ?r = "(pb_payload (pbufs s t) + off, length bs)"
  have "apart ?r (pext s x)" if "x \<in> set us \<union> set ts" for x
    using assms that by (auto simp: separate_append separate_Cons pext_def apart_def)
  then have "pdata ?s us = pdata s us" "pdata ?s ts = pdata s ts" by (auto intro: pdata_put)
  moreover have "get_bytes (put_bytes (pb_payload (pbufs s t) + off) bs (mem_bytes s)) (pb_payload (pbufs s t)) (pb_len (pbufs s t)) =
      overlay (get_bytes (mem_bytes s) (pb_payload (pbufs s t)) (pb_len (pbufs s t))) off bs"
    using assms(2) by (intro nth_equalityI) (auto simp: overlay_def nth_append put_bytes_def)
  ultimately show ?thesis using assms(2) by (simp add: overlay_def)
qed

definition positive :: "net \<Rightarrow> nat list \<Rightarrow> bool" where
  "positive s xs \<longleftrightarrow> (\<forall>x \<in> set xs. 0 < pb_len (pbufs s x))"

lemma positive_simps [simp]:
  "positive s []" "positive s (x # xs) \<longleftrightarrow> 0 < pb_len (pbufs s x) \<and> positive s xs"
  "positive s (xs @ ys) \<longleftrightarrow> positive s xs \<and> positive s ys" "positive (s\<lparr>mem_bytes := m\<rparr>) xs \<longleftrightarrow> positive s xs"
  by (auto simp: positive_def)

lemma positive_plen: "positive s xs \<Longrightarrow> plen (pbufs s) xs = 0 \<longleftrightarrow> xs = []"
  by (cases xs) auto

text \<open>The check against packet queues passes on a packet without empty pbufs.\<close>

lemma no_queue:
  assumes "pchain s p xs" "tots (pbufs s) xs" "positive s xs"
  shows "\<not> (p \<noteq> 0 \<and> pb_len (pbufs s p) = pb_tot_len (pbufs s p) \<and> \<not> pb_next (pbufs s p) = 0)"
proof (cases xs)
  case (Cons x ys)
  then show ?thesis using assms positive_plen [of s ys] by auto
qed (use assms in simp)

text \<open>Where the loop goes after \<open>k\<close> bytes of the current pbuf: on in it, or to the next one.\<close>

lemma advance:
  assumes "pchain s t (t # ts)" "tots (pbufs s) (t # ts)" "positive s (t # ts)"
    and "off + k \<le> pb_len (pbufs s t)" "off + k + r \<le> plen (pbufs s) (t # ts)"
  defines "p \<equiv> (if off + k = pb_len (pbufs s t) then pb_next (pbufs s t) else t)"
    and "off' \<equiv> (if off + k = pb_len (pbufs s t) then 0 else off + k)"
  obtains us' ts' where "pchain s p ts'" "tots (pbufs s) ts'" "t # ts = us' @ ts'"
    "plen (pbufs s) us' + off' = off + k" "off' + r \<le> plen (pbufs s) ts'"
    "r = 0 \<or> p \<noteq> 0 \<and> (\<exists>vs. ts' = p # vs) \<and> off' < pb_len (pbufs s p)"
proof (cases "off + k = pb_len (pbufs s t)")
  case True
  have "pchain s (pb_next (pbufs s t)) ts" using assms(1) by simp
  moreover have "r = 0 \<or> ts \<noteq> []" using True assms(5) by auto
  ultimately show thesis
    using True assms(2,3,5) that [of ts "[t]"] by (cases ts) (auto simp: p_def off'_def)
next
  case False
  then show thesis using assms that [of "t # ts" "[]"] by (auto simp: p_def off'_def)
qed

text \<open>One round of the loop, in terms of what is left to do.\<close>

lemma copy_pbuf_step:
  assumes "t \<noteq> 0" "f \<noteq> 0" "ot < pb_len (pbufs s t)" "off < pb_len (pbufs s f)"
    and small: "pb_len (pbufs s t) < 65536" "pb_len (pbufs s f) < 65536" "n < 65536"
    and k_def: "k = min n (min (pb_len (pbufs s t) - ot) (pb_len (pbufs s f) - off))"
    and s1_def: "s1 = s\<lparr>mem_bytes := MEMCPY (pb_payload (pbufs s t) + ot) (pb_payload (pbufs s f) + off) k (mem_bytes s)\<rparr>"
    and f'_def: "f' = (if off + k = pb_len (pbufs s f) then pb_next (pbufs s f) else f)"
    and off'_def: "off' = (if off + k = pb_len (pbufs s f) then 0 else off + k)"
    and t'_def: "t' = (if ot + k = pb_len (pbufs s t) then pb_next (pbufs s t) else t)"
    and ot'_def: "ot' = (if ot + k = pb_len (pbufs s t) then 0 else ot + k)"
    and more: "f' \<noteq> 0 \<or> n - k = 0" "t' \<noteq> 0 \<or> n - k = 0"
    and queue: "\<not> (f' \<noteq> 0 \<and> pb_len (pbufs s f') = pb_tot_len (pbufs s f') \<and> \<not> pb_next (pbufs s f') = 0)"
      "\<not> (t' \<noteq> 0 \<and> pb_len (pbufs s t') = pb_tot_len (pbufs s t') \<and> \<not> pb_next (pbufs s t') = 0)"
  shows "copy_pbuf_loop t ot f off n s =
    (if n - k \<noteq> 0 then copy_pbuf_loop t' ot' f' off' (n - k) s1 else Some (ERR_OK, s1))"
proof -
  have "usub32 (pb_len (pbufs s t)) ot = pb_len (pbufs s t) - ot" "usub32 (pb_len (pbufs s f)) off = pb_len (pbufs s f) - off"
    using assms(3,4) small by (simp_all add: usub32_le)
  then have len: "u16_of (min n (if usub32 (pb_len (pbufs s f)) off \<le> usub32 (pb_len (pbufs s t)) ot
      then usub32 (pb_len (pbufs s f)) off else usub32 (pb_len (pbufs s t)) ot)) = k"
    using small by (auto simp: k_def min_def)
  have k: "k \<le> n" "off + k \<le> pb_len (pbufs s f)" "ot + k \<le> pb_len (pbufs s t)" using assms(3,4) by (auto simp: k_def)
  have n: "u16_sub n k = n - k" using k(1) small(3) by (rule u16_sub_le)
  have ge: "off + k \<ge> pb_len (pbufs s f) \<longleftrightarrow> off + k = pb_len (pbufs s f)" using k(2) by auto
  have B: "pbufs s1 = pbufs s" by (simp add: s1_def)
  note fold = s1_def [symmetric] B ge f'_def [symmetric] t'_def [symmetric] ot'_def [symmetric] off'_def [symmetric]
  have c: "\<not> (off + k = pb_len (pbufs s f) \<and> \<not> (f' \<noteq> 0 \<or> n - k = 0))"
    "\<not> (ot + k = pb_len (pbufs s t) \<and> \<not> (t' \<noteq> 0 \<or> n - k = 0))" using more by simp_all
  show ?thesis
    by (subst copy_pbuf_loop.simps)
       (simp only: assms(1,2) len n simp_thms if_False Let_def fold if_not_P [OF c(1)] if_not_P [OF c(2)]
        if_not_P [OF queue(1)] if_not_P [OF queue(2)])
qed

lemma copy_pbuf_loop_data:
  assumes "pchain s t (t # ts)" "tots (pbufs s) (t # ts)" "positive s (t # ts)" "plen (pbufs s) (t # ts) < 65536"
    and "pchain s f (f # fs)" "tots (pbufs s) (f # fs)" "positive s (f # fs)" "plen (pbufs s) (f # fs) < 65536"
    and "separate s (us @ t # ts)" "\<forall>x \<in> set (us @ t # ts). \<forall>y \<in> set (vs @ f # fs). apart (pext s x) (pext s y)"
    and "ot < pb_len (pbufs s t)" "off < pb_len (pbufs s f)"
    and "ot + n \<le> plen (pbufs s) (t # ts)" "off + n \<le> plen (pbufs s) (f # fs)" "0 < n"
  shows "\<exists>m. copy_pbuf_loop t ot f off n s = Some (ERR_OK, s\<lparr>mem_bytes := m\<rparr>) \<and>
    pdata (s\<lparr>mem_bytes := m\<rparr>) (us @ t # ts) = overlay (pdata s (us @ t # ts)) (plen (pbufs s) us + ot)
      (take n (drop (plen (pbufs s) vs + off) (pdata s (vs @ f # fs)))) \<and>
    (\<forall>b. (\<forall>x \<in> set (us @ t # ts). \<not> within b (pext s x)) \<longrightarrow> m b = mem_bytes s b)"
  using assms
proof (induction n arbitrary: us t ts vs f fs ot off s rule: less_induct)
  case (less n)
  define T F where "T = us @ t # ts" and "F = vs @ f # fs"
  define k where "k = min n (min (pb_len (pbufs s t) - ot) (pb_len (pbufs s f) - off))"
  define chunk where "chunk = get_bytes (mem_bytes s) (pb_payload (pbufs s f) + off) k"
  define m1 where "m1 = MEMCPY (pb_payload (pbufs s t) + ot) (pb_payload (pbufs s f) + off) k (mem_bytes s)"
  let ?s1 = "s\<lparr>mem_bytes := m1\<rparr>"
  define t' where "t' = (if ot + k = pb_len (pbufs s t) then pb_next (pbufs s t) else t)"
  define ot' where "ot' = (if ot + k = pb_len (pbufs s t) then 0 else ot + k)"
  define f' where "f' = (if off + k = pb_len (pbufs s f) then pb_next (pbufs s f) else f)"
  define off' where "off' = (if off + k = pb_len (pbufs s f) then 0 else off + k)"
  have k: "0 < k" "k \<le> n" "ot + k \<le> pb_len (pbufs s t)" "off + k \<le> pb_len (pbufs s f)" "length chunk = k"
    using less.prems(11,12,15) by (auto simp: k_def chunk_def)
  obtain us' ts' where T': "pchain s t' ts'" "tots (pbufs s) ts'" "t # ts = us' @ ts'"
      "plen (pbufs s) us' + ot' = ot + k" "ot' + (n - k) \<le> plen (pbufs s) ts'"
      "n - k = 0 \<or> t' \<noteq> 0 \<and> (\<exists>vs. ts' = t' # vs) \<and> ot' < pb_len (pbufs s t')"
    unfolding t'_def ot'_def
    by (rule advance [OF less.prems(1-3) k(3), of "n - k"]) (use less.prems(13) k(2) in auto)
  obtain vs' fs' where F': "pchain s f' fs'" "tots (pbufs s) fs'" "f # fs = vs' @ fs'"
      "plen (pbufs s) vs' + off' = off + k" "off' + (n - k) \<le> plen (pbufs s) fs'"
      "n - k = 0 \<or> f' \<noteq> 0 \<and> (\<exists>vs. fs' = f' # vs) \<and> off' < pb_len (pbufs s f')"
    unfolding f'_def off'_def
    by (rule advance [OF less.prems(5-7) k(4), of "n - k"]) (use less.prems(14) k(2) in auto)
  have pos: "positive s ts'" "positive s fs'"
    using less.prems(3,7) unfolding T'(3) F'(3) by simp_all
  have step: "copy_pbuf_loop t ot f off n s =
      (if n - k \<noteq> 0 then copy_pbuf_loop t' ot' f' off' (n - k) ?s1 else Some (ERR_OK, ?s1))"
  proof (rule copy_pbuf_step [OF _ _ less.prems(11,12) _ _ _ k_def _ f'_def off'_def t'_def ot'_def])
    show "?s1 = s\<lparr>mem_bytes := MEMCPY (pb_payload (pbufs s t) + ot) (pb_payload (pbufs s f) + off) k (mem_bytes s)\<rparr>"
      by (simp add: m1_def)
    show "t \<noteq> 0" "f \<noteq> 0" "pb_len (pbufs s t) < 65536" "pb_len (pbufs s f) < 65536" "n < 65536"
      using less.prems(1,4,5,8,13) by auto
    show "f' \<noteq> 0 \<or> n - k = 0" "t' \<noteq> 0 \<or> n - k = 0" using T'(6) F'(6) by auto
    show "\<not> (f' \<noteq> 0 \<and> pb_len (pbufs s f') = pb_tot_len (pbufs s f') \<and> \<not> pb_next (pbufs s f') = 0)"
      by (rule no_queue [OF F'(1,2) pos(2)])
    show "\<not> (t' \<noteq> 0 \<and> pb_len (pbufs s t') = pb_tot_len (pbufs s t') \<and> \<not> pb_next (pbufs s t') = 0)"
      by (rule no_queue [OF T'(1,2) pos(1)])
  qed
  have m1: "m1 = put_bytes (pb_payload (pbufs s t) + ot) chunk (mem_bytes s)"
    by (simp add: m1_def MEMCPY_def chunk_def)
  have data1: "pdata ?s1 T = overlay (pdata s T) (plen (pbufs s) us + ot) chunk"
    unfolding T_def m1 using less.prems(9) k by (intro pdata_overlay) simp_all
  have "apart (pb_payload (pbufs s t) + ot, length chunk) (pext s y)" if "y \<in> set F" for y
    using less.prems(10) that k(3,5) by (auto simp: F_def pext_def intro: apart_shrink)
  then have data2: "pdata ?s1 F = pdata s F" unfolding m1 by (intro pdata_put) simp
  have chunk: "chunk = take k (drop (plen (pbufs s) vs + off) (pdata s F))"
    using k(4) by (simp add: F_def chunk_def drop_get_bytes take_get_bytes)
  have out1: "m1 b = mem_bytes s b" if "\<not> within b (pext s t)" for b
    using that k(3,5) unfolding m1 by (intro put_bytes_out) (auto simp: within_def pext_def)
  show ?case
  proof (cases "n - k = 0")
    case True
    then have "n = k" using k(2) by simp
    then show ?thesis
      using step data1 out1 unfolding chunk T_def F_def by (intro exI [of _ m1]) auto
  next
    case False
    obtain ts'' fs'' where ne: "ts' = t' # ts''" "fs' = f' # fs''" "ot' < pb_len (pbufs s t')" "off' < pb_len (pbufs s f')"
      using T'(6) F'(6) False by blast
    have eqT: "(us @ us') @ t' # ts'' = T" using T'(3) ne(1) by (simp add: T_def)
    have eqF: "(vs @ vs') @ f' # fs'' = F" using F'(3) ne(2) by (simp add: F_def)
    have len: "plen (pbufs s) (t' # ts'') < 65536" "plen (pbufs s) (f' # fs'') < 65536"
      using less.prems(4,8) unfolding T'(3) F'(3) ne(1,2) by auto
    have "pchain ?s1 t' (t' # ts'')" "pchain ?s1 f' (f' # fs'')"
      using T'(1) F'(1) pchain_cong [of _ ?s1 s] unfolding ne(1,2) by simp_all
    then obtain m where m: "copy_pbuf_loop t' ot' f' off' (n - k) ?s1 = Some (ERR_OK, ?s1\<lparr>mem_bytes := m\<rparr>)"
        "pdata (?s1\<lparr>mem_bytes := m\<rparr>) T = overlay (pdata ?s1 T) (plen (pbufs ?s1) (us @ us') + ot')
          (take (n - k) (drop (plen (pbufs ?s1) (vs @ vs') + off') (pdata ?s1 F)))"
        "\<forall>b. (\<forall>x \<in> set T. \<not> within b (pext ?s1 x)) \<longrightarrow> m b = mem_bytes ?s1 b"
      using less.IH [of "n - k" ?s1 t' ts'' f' fs'' "us @ us'" "vs @ vs'" ot' off'] k less.prems(9,10) T' F' ne len pos False
      unfolding eqT eqF T_def F_def by auto
    have "plen (pbufs s) us + ot + length chunk \<le> length (pdata s T)"
      using k(3,5) by (simp add: T_def)
    moreover have "pdata (?s1\<lparr>mem_bytes := m\<rparr>) T =
        overlay (overlay (pdata s T) (plen (pbufs s) us + ot) chunk) (plen (pbufs s) us + ot + length chunk)
          (take (n - k) (drop (plen (pbufs s) vs + off + k) (pdata s F)))"
      using m(2) T'(4) F'(4) k(5) by (simp add: data1 data2 add.assoc)
    ultimately have "pdata (?s1\<lparr>mem_bytes := m\<rparr>) T = overlay (pdata s T) (plen (pbufs s) us + ot)
        (chunk @ take (n - k) (drop (plen (pbufs s) vs + off + k) (pdata s F)))"
      by (simp only: overlay_overlay)
    moreover have "chunk @ take (n - k) (drop (plen (pbufs s) vs + off + k) (pdata s F)) =
        take n (drop (plen (pbufs s) vs + off) (pdata s F))"
      unfolding chunk using k(2) by (metis add.commute drop_drop le_add_diff_inverse take_add)
    ultimately show ?thesis
      using step False m(1,3) out1 unfolding T_def F_def by (intro exI [of _ m]) auto
  qed
qed

end
