(* ===== verification/Lwip_Packet_Life.thy ===== *)
theory Lwip_Packet_Life
  imports Lwip_Packet_Copy Lwip_Heap_Spec
begin

text \<open>
  The life of packets: how pbufs are chained, counted, released and allocated, and what that does to
  the pools and the heap behind them.
\<close>

section \<open>Chaining\<close>

definition bump :: "nat \<Rightarrow> nat list \<Rightarrow> (nat \<Rightarrow> pbuf) \<Rightarrow> nat \<Rightarrow> pbuf" where
  "bump k xs B = (\<lambda>a. if a \<in> set xs then (B a)\<lparr>pb_tot_len := u16_of (pb_tot_len (B a) + k)\<rparr> else B a)"

lemma pbuf_cat_loop_eq:
  assumes "pchain s p (xs @ [z])" "t \<notin> set xs"
  shows "pbuf_cat_loop t p s = Some (z, s\<lparr>pbufs := bump (pb_tot_len (pbufs s t)) xs (pbufs s)\<rparr>)"
  using assms
proof (induction xs arbitrary: p s)
  case Nil
  then show ?case by (subst pbuf_cat_loop.simps) (simp add: bump_def)
next
  case (Cons x xs)
  let ?k = "pb_tot_len (pbufs s t)"
  let ?s = "pb_upd x (\<lambda>b. b\<lparr>pb_tot_len := u16_of (pb_tot_len b + ?k)\<rparr>) s"
  have p: "p = x" "pchain s (pb_next (pbufs s x)) (xs @ [z])" using Cons.prems(1) by auto
  have nz: "pb_next (pbufs s x) \<noteq> 0" using p(2) by (cases xs) auto
  have x: "x \<notin> set xs" using pchain_distinct [OF Cons.prems(1)] by simp
  have "pchain ?s (pb_next (pbufs s x)) (xs @ [z])"
    using p(2) pchain_cong [of "xs @ [z]" ?s s] by simp
  then have "pbuf_cat_loop t (pb_next (pbufs s x)) ?s =
      Some (z, ?s\<lparr>pbufs := bump (pb_tot_len (pbufs ?s t)) xs (pbufs ?s)\<rparr>)"
    by (rule Cons.IH) (use Cons.prems(2) in simp)
  moreover have "pb_tot_len (pbufs ?s t) = ?k" using Cons.prems(2) by auto
  moreover have "bump ?k xs (pbufs ?s) = bump ?k (x # xs) (pbufs s)" using x by (auto simp: bump_def)
  ultimately show ?case
    using nz p(1) by (subst pbuf_cat_loop.simps) (simp add: pb_upd_def)
qed

text \<open>The pbufs after \<open>pbuf_cat\<close> of the chains \<open>xs\<close> and \<open>t # ys\<close>.\<close>

lemma pbuf_cat_eq:
  assumes "pchain s h (xs @ [z])" "t \<noteq> 0" "t \<notin> set (xs @ [z])"
  shows "pbuf_cat h t s = Some (s\<lparr>pbufs :=
    (bump (pb_tot_len (pbufs s t)) (xs @ [z]) (pbufs s))(z :=
      (bump (pb_tot_len (pbufs s t)) (xs @ [z]) (pbufs s) z)\<lparr>pb_next := t\<rparr>)\<rparr>)"
proof -
  have "h \<noteq> 0" using assms(1) by (cases xs) auto
  moreover have "z \<notin> set xs" using pchain_distinct [OF assms(1)] by simp
  moreover have "pbuf_cat_loop t h s = Some (z, s\<lparr>pbufs := bump (pb_tot_len (pbufs s t)) xs (pbufs s)\<rparr>)"
    using assms by (intro pbuf_cat_loop_eq) simp_all
  ultimately show ?thesis
    using assms(2,3) by (auto simp: pbuf_cat_def pb_upd_def bump_def fun_eq_iff)
qed

lemma pchain_relink:
  assumes "pchain s h (xs @ [z])" "pchain s t ys" "z \<notin> set ys"
    and "\<forall>a. a \<noteq> z \<longrightarrow> pb_next (B a) = pb_next (pbufs s a)" "pb_next (B z) = t"
  shows "pchain (s\<lparr>pbufs := B\<rparr>) h (xs @ z # ys)"
  using assms(1)
proof (induction xs arbitrary: h)
  case Nil
  have "pchain (s\<lparr>pbufs := B\<rparr>) t ys = pchain s t ys"
    by (rule pchain_cong) (use assms(3,4) in auto)
  then show ?case using Nil assms(2,5) by simp
next
  case (Cons x xs)
  then have "x \<noteq> z" using pchain_distinct [OF Cons.prems] by auto
  then show ?case using Cons assms(4) by simp
qed

lemma pbuf_cat_packet:
  assumes h: "packet s h xs" "h \<noteq> 0" and t: "packet s t ys" "t \<noteq> 0"
    and disj: "set xs \<inter> set ys = {}" and len: "plen (pbufs s) xs + plen (pbufs s) ys < 65536"
  shows "\<exists>s'. pbuf_cat h t s = Some s' \<and> packet s' h (xs @ ys) \<and> pdata s' (xs @ ys) = pdata s xs @ pdata s ys \<and>
    (\<forall>a. a \<notin> set xs \<longrightarrow> pbufs s' a = pbufs s a) \<and> (\<forall>a. pb_ref (pbufs s' a) = pb_ref (pbufs s a)) \<and>
    mem_bytes s' = mem_bytes s \<and> mem_heap s' = mem_heap s \<and> mem_pools s' = mem_pools s"
proof -
  have ch: "pchain s h xs" "pchain s t ys" using h t by (simp_all add: packet_def)
  obtain us z where xs: "xs = us @ [z]" using ch(1) h(2) by (cases xs rule: rev_cases) auto
  have t_in: "t \<in> set ys" using ch(2) t(2) by (cases ys) auto
  define k where "k = plen (pbufs s) ys"
  have k: "pb_tot_len (pbufs s t) = k" using packet_tot_len [OF t] by (simp add: k_def)
  define B where "B = (bump k xs (pbufs s))(z := (bump k xs (pbufs s) z)\<lparr>pb_next := t\<rparr>)"
  have cat: "pbuf_cat h t s = Some (s\<lparr>pbufs := B\<rparr>)"
    using pbuf_cat_eq [of s h us z t] ch(1) t(2) disj t_in unfolding xs k B_def by auto
  have same: "pb_len (B a) = pb_len (pbufs s a)" "pb_payload (B a) = pb_payload (pbufs s a)"
    "pb_ref (B a) = pb_ref (pbufs s a)" for a
    by (auto simp: B_def bump_def)
  have chain: "pchain (s\<lparr>pbufs := B\<rparr>) h (xs @ ys)"
    using pchain_relink [of s h us z t ys B] ch disj by (auto simp: xs B_def bump_def)
  have out: "B a = pbufs s a" if "a \<notin> set xs" for a using that by (auto simp: B_def bump_def xs)
  have lenB: "plen B zs = plen (pbufs s) zs" for zs by (simp add: plen_def same)
  have "tots B (ws @ ys)" if "set ws \<subseteq> set xs" "tots (pbufs s) ws" "plen (pbufs s) ws + k < 65536" for ws
    using that
  proof (induction ws)
    case Nil
    have "\<forall>a \<in> set ys. B a = pbufs s a" using out disj by auto
    then show ?case using tots_cong(2) [of ys B "pbufs s"] t(1) by (simp add: packet_def)
  next
    case (Cons w ws)
    have "pb_tot_len (B w) = u16_of (pb_tot_len (pbufs s w) + k)" using Cons.prems(1) by (auto simp: B_def bump_def)
    then show ?case using Cons by (simp add: lenB same k_def)
  qed
  then have "tots B (xs @ ys)" using h(1) len by (simp add: packet_def k_def)
  then have "packet (s\<lparr>pbufs := B\<rparr>) h (xs @ ys)"
    using chain len by (simp add: packet_def lenB)
  moreover have "pdata (s\<lparr>pbufs := B\<rparr>) (xs @ ys) = pdata s (xs @ ys)"
    by (simp add: pdata_def same)
  ultimately show ?thesis using cat out same by auto
qed

section \<open>Release\<close>

definition plain :: "net \<Rightarrow> nat list \<Rightarrow> bool" where
  "plain s xs \<longleftrightarrow> (\<forall>a \<in> set xs. pb_flags (pbufs s a) AND PBUF_FLAG_IS_CUSTOM = 0)"

lemma plain_simps [simp]: "plain s []" "plain s (x # xs) \<longleftrightarrow> pb_flags (pbufs s x) AND PBUF_FLAG_IS_CUSTOM = 0 \<and> plain s xs"
  by (auto simp: plain_def)

lemma pbuf_dealloc_frame:
  assumes "pb_flags (pbufs s p) AND PBUF_FLAG_IS_CUSTOM = 0"
  shows "pbufs (pbuf_dealloc E p s) = pbufs s" "mem_bytes (pbuf_dealloc E p s) = mem_bytes s"
  using assms by (simp_all add: pbuf_dealloc_def Let_def)

text \<open>The pbufs \<open>xs\<close>, whose last reference is dropped, are given back one by one.\<close>

fun release_all :: "pbuf_env \<Rightarrow> nat list \<Rightarrow> net \<Rightarrow> net" where
  "release_all E [] s = s"
| "release_all E (x # xs) s = release_all E xs (pbuf_dealloc E x (pb_upd x (\<lambda>b. b\<lparr>pb_ref := 0\<rparr>) s))"

definition drop_ref :: "nat list \<Rightarrow> net \<Rightarrow> net" where
  "drop_ref xs s = (case xs of [] \<Rightarrow> s | x # _ \<Rightarrow> pb_upd x (\<lambda>b. b\<lparr>pb_ref := pb_ref b - 1\<rparr>) s)"

lemma release_all_pbufs:
  assumes "plain s xs"
  shows "pbufs (release_all E xs s) = (\<lambda>a. if a \<in> set xs then (pbufs s a)\<lparr>pb_ref := 0\<rparr> else pbufs s a) \<and>
    mem_bytes (release_all E xs s) = mem_bytes s"
  using assms
proof (induction xs arbitrary: s)
  case (Cons x xs)
  let ?s = "pbuf_dealloc E x (pb_upd x (\<lambda>b. b\<lparr>pb_ref := 0\<rparr>) s)"
  have fr: "pbufs ?s = (pbufs s)(x := (pbufs s x)\<lparr>pb_ref := 0\<rparr>)" "mem_bytes ?s = mem_bytes s"
    using Cons.prems pbuf_dealloc_frame [of "pb_upd x (\<lambda>b. b\<lparr>pb_ref := 0\<rparr>) s" x E] by simp_all
  then have "plain ?s xs" using Cons.prems by (auto simp: plain_def)
  from Cons.IH [OF this] show ?case by (auto simp: fr fun_eq_iff)
qed simp

lemma pbuf_free_loop_eq:
  assumes "pchain s p xs" "plain s xs"
  defines "us \<equiv> takeWhile (\<lambda>a. pb_ref (pbufs s a) = 1) xs"
    and "vs \<equiv> dropWhile (\<lambda>a. pb_ref (pbufs s a) = 1) xs"
  shows "pbuf_free_loop E p c s = Some (c + of_nat (length us), drop_ref vs (release_all E us s))"
  using assms(1,2) unfolding us_def vs_def
proof (induction xs arbitrary: p c s)
  case Nil
  then show ?case by (subst pbuf_free_loop.simps) (simp add: drop_ref_def)
next
  case (Cons x xs)
  have p: "p = x" "p \<noteq> 0" "pchain s (pb_next (pbufs s x)) xs" using Cons.prems(1) by auto
  have x: "x \<notin> set xs" using pchain_distinct [OF Cons.prems(1)] by simp
  show ?case
  proof (cases "pb_ref (pbufs s x) = 1")
    case True
    let ?s = "pbuf_dealloc E x (pb_upd x (\<lambda>b. b\<lparr>pb_ref := 0\<rparr>) s)"
    have fr: "pbufs ?s = (pbufs s)(x := (pbufs s x)\<lparr>pb_ref := 0\<rparr>)"
      using Cons.prems(2) pbuf_dealloc_frame [of "pb_upd x (\<lambda>b. b\<lparr>pb_ref := 0\<rparr>) s" x E] by simp
    have "pchain ?s (pb_next (pbufs s x)) xs" using p(3) pchain_cong [of xs ?s s] by (simp add: fr)
    moreover have "plain ?s xs" using Cons.prems(2) by (auto simp: plain_def fr)
    moreover have "takeWhile (\<lambda>a. pb_ref (pbufs ?s a) = 1) xs = takeWhile (\<lambda>a. pb_ref (pbufs s a) = 1) xs"
      "dropWhile (\<lambda>a. pb_ref (pbufs ?s a) = 1) xs = dropWhile (\<lambda>a. pb_ref (pbufs s a) = 1) xs"
      using x by (intro takeWhile_cong dropWhile_cong; auto simp: fr)+
    ultimately have "pbuf_free_loop E (pb_next (pbufs s x)) (c + 1) ?s =
        Some (c + 1 + of_nat (length (takeWhile (\<lambda>a. pb_ref (pbufs s a) = 1) xs)),
          drop_ref (dropWhile (\<lambda>a. pb_ref (pbufs s a) = 1) xs)
            (release_all E (takeWhile (\<lambda>a. pb_ref (pbufs s a) = 1) xs) ?s))"
      using Cons.IH by simp
    then show ?thesis
      using True p by (subst pbuf_free_loop.simps) (simp add: Let_def add.assoc)
  next
    case False
    then have "pb_ref (pbufs s x) - 1 \<noteq> 0" by simp
    then show ?thesis
      using False p by (subst pbuf_free_loop.simps) (simp add: Let_def drop_ref_def)
  qed
qed

section \<open>Storage\<close>

definition pool_used :: "pbuf_env \<Rightarrow> net \<Rightarrow> nat set" where
  "pool_used E s = memp_used (memp_pools E) MEMP_PBUF_POOL (mem_pools s)"

definition ref_used :: "pbuf_env \<Rightarrow> net \<Rightarrow> nat set" where
  "ref_used E s = memp_used (memp_pools E) MEMP_PBUF (mem_pools s)"

definition net_inv :: "pbuf_env \<Rightarrow> net \<Rightarrow> bool" where
  "net_inv E s \<longleftrightarrow> memp_inv (memp_pools E) (mem_pools s) \<and> heap_inv (mem_heap s) \<and>
    MEMP_PBUF_POOL < length (memp_pools E) \<and>
    SIZEOF_STRUCT_PBUF + PBUF_POOL_BUFSIZE_ALIGNED \<le> memp_size (memp_pools E ! MEMP_PBUF_POOL)"

definition from_pool :: "net \<Rightarrow> nat \<Rightarrow> bool" where
  "from_pool s a \<longleftrightarrow> pbuf_get_allocsrc (pbufs s a) = PBUF_TYPE_ALLOC_SRC_MASK_STD_MEMP_PBUF_POOL"

definition from_ref :: "net \<Rightarrow> nat \<Rightarrow> bool" where
  "from_ref s a \<longleftrightarrow> pbuf_get_allocsrc (pbufs s a) = PBUF_TYPE_ALLOC_SRC_MASK_STD_MEMP_PBUF"

definition from_heap :: "net \<Rightarrow> nat \<Rightarrow> bool" where
  "from_heap s a \<longleftrightarrow> pbuf_get_allocsrc (pbufs s a) = PBUF_TYPE_ALLOC_SRC_MASK_STD_HEAP"

lemmas alloc_srcs = PBUF_TYPE_ALLOC_SRC_MASK_STD_MEMP_PBUF_POOL_def PBUF_TYPE_ALLOC_SRC_MASK_STD_MEMP_PBUF_def
  PBUF_TYPE_ALLOC_SRC_MASK_STD_HEAP_def

text \<open>A pbuf is held when the place it came from counts it as allocated.\<close>

definition held :: "pbuf_env \<Rightarrow> net \<Rightarrow> nat \<Rightarrow> bool" where
  "held E s a \<longleftrightarrow> (from_pool s a \<longrightarrow> a \<in> pool_used E s) \<and> (from_ref s a \<longrightarrow> a \<in> ref_used E s) \<and>
    (from_heap s a \<longrightarrow> a \<in> fst ` heap_live (mem_heap s))"

lemma memp_types: "MEMP_PBUF \<noteq> MEMP_PBUF_POOL" "MEMP_PBUF_POOL < n \<Longrightarrow> MEMP_PBUF < n"
  by (simp_all add: MEMP_PBUF_def MEMP_PBUF_POOL_def)

lemma pbuf_dealloc_storage:
  assumes inv: "net_inv E s" and "pb_flags (pbufs s a) AND PBUF_FLAG_IS_CUSTOM = 0" and held: "held E s a"
  shows "net_inv E (pbuf_dealloc E a s)"
    "pool_used E (pbuf_dealloc E a s) = pool_used E s - {b. b = a \<and> from_pool s b}"
    "ref_used E (pbuf_dealloc E a s) = ref_used E s - {b. b = a \<and> from_ref s b}"
    "heap_live (mem_heap (pbuf_dealloc E a s)) = heap_live (mem_heap s) - {x. fst x = a \<and> from_heap s (fst x)}"
proof -
  have mi: "memp_inv (memp_pools E) (mem_pools s)" "MEMP_PBUF_POOL < length (memp_pools E)"
    and hi: "heap_inv (mem_heap s)" using inv by (simp_all add: net_inv_def)
  have lt: "MEMP_PBUF < length (memp_pools E)" using memp_types(2) [OF mi(2)] .
  consider (pool) "from_pool s a" | (ref) "from_ref s a" | (heap) "from_heap s a"
    | (other) "\<not> from_pool s a" "\<not> from_ref s a" "\<not> from_heap s a" by blast
  then have "net_inv E (pbuf_dealloc E a s) \<and>
    pool_used E (pbuf_dealloc E a s) = pool_used E s - {b. b = a \<and> from_pool s b} \<and>
    ref_used E (pbuf_dealloc E a s) = ref_used E s - {b. b = a \<and> from_ref s b} \<and>
    heap_live (mem_heap (pbuf_dealloc E a s)) = heap_live (mem_heap s) - {x. fst x = a \<and> from_heap s (fst x)}"
  proof cases
    case pool
    then have u: "a \<in> memp_used (memp_pools E) MEMP_PBUF_POOL (mem_pools s)" using held by (simp add: held_def pool_used_def)
    have d: "pbuf_dealloc E a s = s\<lparr>mem_pools := memp_free (memp_pools E) MEMP_PBUF_POOL a (mem_pools s)\<rparr>"
      "\<not> from_ref s a" "\<not> from_heap s a"
      using pool assms(2) by (simp_all add: pbuf_dealloc_def from_pool_def from_ref_def from_heap_def alloc_srcs)
    show ?thesis
      using memp_free_used [OF mi u] lt memp_types(1) inv pool d(2,3)
      by (auto simp: d(1) net_inv_def pool_used_def ref_used_def)
  next
    case ref
    then have u: "a \<in> memp_used (memp_pools E) MEMP_PBUF (mem_pools s)" using held by (simp add: held_def ref_used_def)
    have d: "pbuf_dealloc E a s = s\<lparr>mem_pools := memp_free (memp_pools E) MEMP_PBUF a (mem_pools s)\<rparr>"
      "\<not> from_pool s a" "\<not> from_heap s a"
      using ref assms(2) by (simp_all add: pbuf_dealloc_def from_pool_def from_ref_def from_heap_def alloc_srcs)
    show ?thesis
      using memp_free_used [OF mi(1) lt u] mi(2) memp_types(1) inv ref d(2,3)
      by (auto simp: d(1) net_inv_def pool_used_def ref_used_def)
  next
    case heap
    then obtain m where m: "(a, m) \<in> heap_live (mem_heap s)" using held by (auto simp: held_def)
    have d: "pbuf_dealloc E a s = s\<lparr>mem_heap := mem_free a (mem_heap s)\<rparr>" "\<not> from_pool s a" "\<not> from_ref s a"
      using heap assms(2) by (simp_all add: pbuf_dealloc_def from_pool_def from_ref_def from_heap_def alloc_srcs)
    have "heap_live (mem_heap s) - {(a, m)} = heap_live (mem_heap s) - {x. fst x = a \<and> from_heap s (fst x)}"
    proof -
      have "(x = (a, m)) = (fst x = a \<and> from_heap s (fst x))" if "x \<in> heap_live (mem_heap s)" for x
        using heap.live_fst [OF hi m, of "snd x"] that heap by (cases x) auto
      then show ?thesis by blast
    qed
    then show ?thesis
      using heap_free_live [OF hi m] inv d(2,3) by (auto simp: d(1) net_inv_def pool_used_def ref_used_def)
  next
    case other
    then have "pbuf_dealloc E a s = s"
      using assms(2) by (simp add: pbuf_dealloc_def from_pool_def from_ref_def from_heap_def)
    then show ?thesis using other inv by auto
  qed
  then show "net_inv E (pbuf_dealloc E a s)"
    "pool_used E (pbuf_dealloc E a s) = pool_used E s - {b. b = a \<and> from_pool s b}"
    "ref_used E (pbuf_dealloc E a s) = ref_used E s - {b. b = a \<and> from_ref s b}"
    "heap_live (mem_heap (pbuf_dealloc E a s)) = heap_live (mem_heap s) - {x. fst x = a \<and> from_heap s (fst x)}"
    by blast+
qed

text \<open>Storage does not depend on the fields of the pbufs.\<close>

lemma storage_pb_upd [simp]:
  "net_inv E (pb_upd p f s) = net_inv E s" "pool_used E (pb_upd p f s) = pool_used E s"
  "ref_used E (pb_upd p f s) = ref_used E s"
  by (simp_all add: net_inv_def pool_used_def ref_used_def)

lemma sources_cong:
  assumes "pb_type_internal (pbufs s' a) = pb_type_internal (pbufs s a)"
  shows "from_pool s' a = from_pool s a" "from_ref s' a = from_ref s a" "from_heap s' a = from_heap s a"
  using assms by (simp_all add: from_pool_def from_ref_def from_heap_def pbuf_get_allocsrc_def)

lemma fst_image_diff: "a \<noteq> x \<Longrightarrow> a \<in> fst ` (L - {y. fst y = x \<and> P y}) \<longleftrightarrow> a \<in> fst ` L"
  by (auto simp: image_iff)

lemma release_all_storage:
  assumes "net_inv E s" "plain s xs" "distinct xs" "\<forall>a \<in> set xs. held E s a"
  shows "net_inv E (release_all E xs s) \<and>
    pool_used E (release_all E xs s) = pool_used E s - {a \<in> set xs. from_pool s a} \<and>
    ref_used E (release_all E xs s) = ref_used E s - {a \<in> set xs. from_ref s a} \<and>
    heap_live (mem_heap (release_all E xs s)) = heap_live (mem_heap s) - {x. fst x \<in> set xs \<and> from_heap s (fst x)}"
  using assms
proof (induction xs arbitrary: s)
  case (Cons x xs)
  let ?s = "pb_upd x (\<lambda>b. b\<lparr>pb_ref := 0\<rparr>) s"
  let ?d = "pbuf_dealloc E x ?s"
  have plain: "pb_flags (pbufs ?s x) AND PBUF_FLAG_IS_CUSTOM = 0" using Cons.prems(2) by simp
  have src: "from_pool ?s a = from_pool s a" "from_ref ?s a = from_ref s a" "from_heap ?s a = from_heap s a" for a
    by (rule sources_cong; simp)+
  have "held E ?s x" using Cons.prems(4) by (simp add: held_def src)
  note d = pbuf_dealloc_storage [OF _ plain this]
  have B: "pbufs ?d = pbufs ?s" using pbuf_dealloc_frame(1) [OF plain] .
  have src': "from_pool ?d a = from_pool s a" "from_ref ?d a = from_ref s a" "from_heap ?d a = from_heap s a" for a
    by (rule sources_cong; simp add: B)+
  have inv: "net_inv E ?d" using d(1) Cons.prems(1) by simp
  have u: "pool_used E ?d = pool_used E s - {b. b = x \<and> from_pool s b}"
    "ref_used E ?d = ref_used E s - {b. b = x \<and> from_ref s b}"
    "heap_live (mem_heap ?d) = heap_live (mem_heap s) - {y. fst y = x \<and> from_heap s (fst y)}"
    using d(2-4) Cons.prems(1) by (simp_all add: src)
  have "plain ?d xs" using Cons.prems(2) by (auto simp: plain_def B)
  moreover have "\<forall>a \<in> set xs. held E ?d a"
  proof
    fix a assume "a \<in> set xs"
    then have "a \<noteq> x" "held E s a" using Cons.prems(3,4) by auto
    then show "held E ?d a" unfolding held_def src' u by (simp add: fst_image_diff)
  qed
  ultimately have "net_inv E (release_all E xs ?d) \<and>
    pool_used E (release_all E xs ?d) = pool_used E ?d - {a \<in> set xs. from_pool ?d a} \<and>
    ref_used E (release_all E xs ?d) = ref_used E ?d - {a \<in> set xs. from_ref ?d a} \<and>
    heap_live (mem_heap (release_all E xs ?d)) = heap_live (mem_heap ?d) - {y. fst y \<in> set xs \<and> from_heap ?d (fst y)}"
    using Cons.IH [OF inv] Cons.prems(3) by simp
  then show ?case unfolding src' u by (auto simp: u)
qed simp

end
