(* ===== verification/Lwip_Packet_Alloc.thy ===== *)
theory Lwip_Packet_Alloc
  imports Lwip_Packet_Life
begin

text \<open>Allocation of packets: the \<open>PBUF_POOL\<close> loop and the \<open>PBUF_RAM\<close> branch of \<open>pbuf_alloc\<close>.\<close>

section \<open>Packets under construction\<close>

lemma pbuf_consts [simp]: "SIZEOF_STRUCT_PBUF = 16" "PBUF_POOL_BUFSIZE_ALIGNED = 500"
  by (simp_all add: SIZEOF_STRUCT_PBUF_def PBUF_POOL_BUFSIZE_ALIGNED_def LWIP_MEM_ALIGN_SIZE_def)

lemmas pbuf_types = PBUF_POOL_def PBUF_RAM_def PBUF_ROM_def PBUF_REF_def PBUF_ALLOC_FLAG_RX_def
  PBUF_ALLOC_FLAG_DATA_CONTIGUOUS_def PBUF_TYPE_FLAG_STRUCT_DATA_CONTIGUOUS_def PBUF_TYPE_FLAG_DATA_VOLATILE_def
  PBUF_TYPE_ALLOC_SRC_MASK_def alloc_srcs

text \<open>A pbuf fresh from the pool: one reference, and a payload inside the element behind the \<open>struct\<close>.\<close>

definition pool_pbuf :: "net \<Rightarrow> nat \<Rightarrow> bool" where
  "pool_pbuf s a \<longleftrightarrow> pb_ref (pbufs s a) = 1 \<and> pb_flags (pbufs s a) = 0 \<and> pb_type_internal (pbufs s a) = ucast PBUF_POOL \<and>
    4 dvd pb_payload (pbufs s a) \<and> a + 16 \<le> pb_payload (pbufs s a) \<and>
    pb_payload (pbufs s a) + pb_len (pbufs s a) \<le> a + 516"

fun totsr :: "(nat \<Rightarrow> pbuf) \<Rightarrow> nat list \<Rightarrow> nat \<Rightarrow> bool" where
  "totsr B [] r = True"
| "totsr B (x # xs) r = (pb_tot_len (B x) = pb_len (B x) + plen B xs + r \<and> totsr B xs r)"

text \<open>The chain \<open>xs\<close> was allocated on top of \<open>U\<close>, and \<open>r\<close> bytes are still missing.\<close>

definition building :: "pbuf_env \<Rightarrow> nat set \<Rightarrow> net \<Rightarrow> nat \<Rightarrow> nat \<Rightarrow> nat list \<Rightarrow> nat \<Rightarrow> bool" where
  "building E U s p lst xs r \<longleftrightarrow> pchain s p xs \<and> (xs \<noteq> [] \<longrightarrow> lst = last xs) \<and>
    pool_used E s = U \<union> set xs \<and> U \<inter> set xs = {} \<and> (\<forall>a \<in> set xs. pool_pbuf s a) \<and> totsr (pbufs s) xs r"

lemma totsr_0: "totsr B xs 0 = tots B xs"
  by (induction xs) auto

lemma totsr_snoc:
  "totsr B (xs @ [x]) r \<longleftrightarrow> totsr B xs (pb_len (B x) + r) \<and> pb_tot_len (B x) = pb_len (B x) + r"
  by (induction xs) auto

lemma totsr_cong:
  "\<forall>a \<in> set xs. pb_len (B' a) = pb_len (B a) \<and> pb_tot_len (B' a) = pb_tot_len (B a) \<Longrightarrow> totsr B' xs r = totsr B xs r"
proof (induction xs)
  case (Cons x xs)
  then show ?case using tots_cong(1) [of xs B' B] by simp
qed simp

lemma align_payload: "4 dvd q \<Longrightarrow> LWIP_MEM_ALIGN (q + 16 + off) = q + 16 + LWIP_MEM_ALIGN_SIZE off"
proof -
  assume "4 dvd q"
  then obtain k where "q = 4 * k" by auto
  moreover have "(4 * k + 16 + off + 3) div 4 = k + 4 + (off + 3) div 4" by presburger
  ultimately show ?thesis by (simp add: LWIP_MEM_ALIGN_def LWIP_MEM_ALIGN_SIZE_def)
qed

lemma align_size_bounds: "off \<le> 54 \<Longrightarrow> LWIP_MEM_ALIGN_SIZE off \<le> 56" "4 dvd LWIP_MEM_ALIGN_SIZE off"
  by (auto simp: LWIP_MEM_ALIGN_SIZE_def)

lemma pool_pbuf_source:
  assumes "pool_pbuf s a"
  shows "from_pool s a" "\<not> from_ref s a" "\<not> from_heap s a" "pb_flags (pbufs s a) AND PBUF_FLAG_IS_CUSTOM = 0"
  using assms by (simp_all add: pool_pbuf_def from_pool_def from_ref_def from_heap_def pbuf_get_allocsrc_def pbuf_types)

text \<open>Linking a fresh element to the end of the chain.\<close>

definition grow :: "nat \<Rightarrow> nat \<Rightarrow> nat \<Rightarrow> nat \<Rightarrow> nat \<Rightarrow> nat \<Rightarrow> net \<Rightarrow> net" where
  "grow p lst q off rem qlen s =
    (let s = pbuf_init_alloced_pbuf q (LWIP_MEM_ALIGN (q + SIZEOF_STRUCT_PBUF + off)) rem qlen PBUF_POOL 0 s
     in if p = 0 then s else pb_upd lst (\<lambda>b. b\<lparr>pb_next := q\<rparr>) s)"

lemma grow_storage [simp]:
  "net_inv E (grow p lst q off rem qlen s) = net_inv E s" "pool_used E (grow p lst q off rem qlen s) = pool_used E s"
  "ref_used E (grow p lst q off rem qlen s) = ref_used E s" "mem_bytes (grow p lst q off rem qlen s) = mem_bytes s"
  "mem_heap (grow p lst q off rem qlen s) = mem_heap s"
  by (simp_all add: grow_def pbuf_init_alloced_pbuf_def Let_def)

lemma grow_pbufs:
  assumes "p \<noteq> 0 \<longrightarrow> lst \<noteq> q"
  shows "pbufs (grow p lst q off rem qlen s) q = \<lparr>pb_next = 0, pb_payload = LWIP_MEM_ALIGN (q + SIZEOF_STRUCT_PBUF + off),
      pb_tot_len = rem, pb_len = qlen, pb_type_internal = ucast PBUF_POOL, pb_flags = 0, pb_ref = 1, pb_if_idx = 0\<rparr>"
    "p \<noteq> 0 \<Longrightarrow> pbufs (grow p lst q off rem qlen s) lst = (pbufs s lst)\<lparr>pb_next := q\<rparr>"
    "a \<noteq> q \<Longrightarrow> p \<noteq> 0 \<longrightarrow> a \<noteq> lst \<Longrightarrow> pbufs (grow p lst q off rem qlen s) a = pbufs s a"
  using assms by (auto simp: grow_def pbuf_init_alloced_pbuf_def Let_def)

lemma pchain_snoc:
  assumes "pchain s p xs" "xs \<noteq> []" "q \<noteq> 0" "\<forall>a \<in> set xs. a \<noteq> last xs \<longrightarrow> pb_next (pbufs s' a) = pb_next (pbufs s a)"
    "pb_next (pbufs s' (last xs)) = q" "pb_next (pbufs s' q) = 0"
  shows "pchain s' p (xs @ [q])"
  using assms
proof (induction xs arbitrary: p)
  case (Cons x xs)
  show ?case
  proof (cases xs)
    case Nil
    then show ?thesis using Cons.prems by simp
  next
    case (Cons y ys)
    have "x \<noteq> last xs" using pchain_distinct [OF Cons.prems(1)] local.Cons by (metis distinct.simps(2) last_in_set list.distinct(1))
    then show ?thesis using Cons.IH [of "pb_next (pbufs s x)"] Cons.prems local.Cons by auto
  qed
qed simp

lemma building_grow:
  assumes b: "building E U s p lst xs rem" and q: "q \<noteq> 0" "4 dvd q" "q \<notin> U \<union> set xs"
    and qlen: "qlen \<le> rem" "LWIP_MEM_ALIGN_SIZE off + qlen \<le> 500"
    and s1: "pbufs s1 = pbufs s" "pool_used E s1 = insert q (pool_used E s)"
  shows "building E U (grow p lst q off rem qlen s1) (if p = 0 then q else p) q (xs @ [q]) (rem - qlen)"
    "plen (pbufs (grow p lst q off rem qlen s1)) (xs @ [q]) = plen (pbufs s) xs + qlen"
proof -
  let ?s = "grow p lst q off rem qlen s1"
  have ch: "pchain s p xs" and lst: "xs \<noteq> [] \<longrightarrow> lst = last xs" and U: "U \<inter> set xs = {}"
    and pp: "\<forall>a \<in> set xs. pool_pbuf s a" and tr: "totsr (pbufs s) xs rem" and used: "pool_used E s = U \<union> set xs"
    using b by (simp_all add: building_def)
  have p0: "p = 0 \<longleftrightarrow> xs = []" using ch by (cases xs) auto
  have lq: "p \<noteq> 0 \<longrightarrow> lst \<noteq> q" using p0 lst q(3) by (metis Un_iff last_in_set)
  note g = grow_pbufs [OF lq, where off = off and rem = rem and qlen = qlen and s = s1]
  have same: "pb_len (pbufs ?s a) = pb_len (pbufs s a) \<and> pb_tot_len (pbufs ?s a) = pb_tot_len (pbufs s a) \<and>
      pb_payload (pbufs ?s a) = pb_payload (pbufs s a) \<and> pb_ref (pbufs ?s a) = pb_ref (pbufs s a) \<and>
      pb_flags (pbufs ?s a) = pb_flags (pbufs s a) \<and> pb_type_internal (pbufs ?s a) = pb_type_internal (pbufs s a)"
    if "a \<in> set xs" for a
  proof -
    have "a \<noteq> q" "p \<noteq> 0" using that q(3) p0 by auto
    then show ?thesis using g(2) g(3) [of a] s1(1) by (cases "a = lst") auto
  qed
  have nxt: "\<forall>a \<in> set xs. a \<noteq> last xs \<longrightarrow> pb_next (pbufs ?s a) = pb_next (pbufs s a)"
  proof (intro ballI impI)
    fix a assume a: "a \<in> set xs" "a \<noteq> last xs"
    then have "a \<noteq> q" "xs \<noteq> []" using q(3) by auto
    then show "pb_next (pbufs ?s a) = pb_next (pbufs s a)" using g(3) [of a] a lst s1(1) by simp
  qed
  have "pchain ?s (if p = 0 then q else p) (xs @ [q])"
  proof (cases "xs = []")
    case True
    then show ?thesis using q(1) p0 g(1) by simp
  next
    case False
    then have "pb_next (pbufs ?s (last xs)) = q" using p0 lst g(2) by simp
    then show ?thesis using pchain_snoc [OF ch False q(1)] nxt g(1) False p0 pchain_distinct [OF ch] by simp
  qed
  moreover have "pool_pbuf ?s a" if "a \<in> set (xs @ [q])" for a
  proof (cases "a = q")
    case True
    have "4 dvd LWIP_MEM_ALIGN (q + 16 + off)" by (rule LWIP_MEM_ALIGN_props(1))
    then show ?thesis using True g(1) qlen align_payload [OF q(2)] by (simp add: pool_pbuf_def)
  next
    case False
    then have "a \<in> set xs" using that by simp
    then show ?thesis using same [of a] pp by (auto simp: pool_pbuf_def)
  qed
  moreover have "totsr (pbufs ?s) (xs @ [q]) (rem - qlen)"
    using tr totsr_cong [of xs "pbufs ?s" "pbufs s"] same g(1) qlen(1) by (simp add: totsr_snoc)
  ultimately show "building E U ?s (if p = 0 then q else p) q (xs @ [q]) (rem - qlen)"
    using used U q(3) s1(2) by (auto simp: building_def)
  show "plen (pbufs ?s) (xs @ [q]) = plen (pbufs s) xs + qlen"
    using tots_cong(1) [of xs "pbufs ?s" "pbufs s"] same g(1) by simp
qed

section \<open>The pool loop\<close>

lemma pbuf_alloc_pool_step:
  fixes rem off :: nat
  assumes "memp_malloc (memp_pools E) MEMP_PBUF_POOL (mem_pools s) = (q, m)"
  defines "s1 \<equiv> s\<lparr>mem_pools := m\<rparr>" and "qlen \<equiv> min rem (u16_of (usub32 500 (LWIP_MEM_ALIGN_SIZE off)))"
  shows "pbuf_alloc_pool E p lst rem off s =
    (if q = 0 then if p \<noteq> 0 then map_option (\<lambda>r. (0, snd r)) (pbuf_free E p s1) else Some (0, s1)
     else let s2 = grow p lst q off rem qlen s1; p = (if p = 0 then q else p); rem = u16_sub rem qlen
          in if rem > 0 then pbuf_alloc_pool E p q rem 0 s2 else Some (p, s2))"
  by (subst pbuf_alloc_pool.simps) (simp add: assms(1) Let_def s1_def qlen_def grow_def)

text \<open>When the pool runs dry the pbufs taken so far go back.\<close>

lemma building_free:
  assumes "building E U s p lst xs r" "net_inv E s" "p \<noteq> 0"
  shows "\<exists>n s'. pbuf_free E p s = Some (n, s') \<and> net_inv E s' \<and> pool_used E s' = U \<and> ref_used E s' = ref_used E s \<and>
    mem_bytes s' = mem_bytes s \<and> heap_live (mem_heap s') = heap_live (mem_heap s) \<and>
    (\<forall>a. a \<notin> set xs \<longrightarrow> pbufs s' a = pbufs s a)"
proof -
  have ch: "pchain s p xs" and U: "U \<inter> set xs = {}" and pp: "\<forall>a \<in> set xs. pool_pbuf s a" and used: "pool_used E s = U \<union> set xs"
    using assms(1) by (simp_all add: building_def)
  have plain: "plain s xs" using pp pool_pbuf_source(4) by (auto simp: plain_def)
  have one: "\<forall>a \<in> set xs. pb_ref (pbufs s a) = 1" using pp by (simp add: pool_pbuf_def)
  then have "pbuf_free E p s = Some (of_nat (length xs), release_all E xs s)"
    using pbuf_free_loop_eq [OF ch plain, of E 0] assms(3)
    by (simp add: pbuf_free_def takeWhile_eq_all_conv [THEN iffD2] drop_ref_def dropWhile_eq_Nil_conv [THEN iffD2])
  moreover have "\<forall>a \<in> set xs. held E s a"
    using pp pool_pbuf_source(1-3) used by (auto simp: held_def)
  then have "net_inv E (release_all E xs s) \<and> pool_used E (release_all E xs s) = pool_used E s - {a \<in> set xs. from_pool s a} \<and>
    ref_used E (release_all E xs s) = ref_used E s - {a \<in> set xs. from_ref s a} \<and>
    heap_live (mem_heap (release_all E xs s)) = heap_live (mem_heap s) - {x. fst x \<in> set xs \<and> from_heap s (fst x)}"
    by (rule release_all_storage [OF assms(2) plain pchain_distinct [OF ch]])
  moreover have "{a \<in> set xs. from_pool s a} = set xs" "{a \<in> set xs. from_ref s a} = {}"
    "{x :: nat \<times> nat. fst x \<in> set xs \<and> from_heap s (fst x)} = {}"
    using pp pool_pbuf_source(1-3) by auto
  moreover have "U \<union> set xs - set xs = U" using U by auto
  ultimately show ?thesis using release_all_pbufs [OF plain, of E] used by auto
qed

lemma pbuf_alloc_pool_spec:
  assumes "net_inv E s" "building E U s p lst xs rem" "plen (pbufs s) xs + rem < 65536" "off \<le> 54" "xs = [] \<or> 0 < rem"
  shows "\<exists>q s'. pbuf_alloc_pool E p lst rem off s = Some (q, s') \<and> net_inv E s' \<and> ref_used E s' = ref_used E s \<and>
    mem_bytes s' = mem_bytes s \<and> heap_live (mem_heap s') = heap_live (mem_heap s) \<and>
    (\<forall>a \<in> U. pbufs s' a = pbufs s a) \<and>
    (if q = 0 then pool_used E s' = U
     else \<exists>zs. building E U s' q (last zs) zs 0 \<and> zs \<noteq> [] \<and> plen (pbufs s') zs = plen (pbufs s) xs + rem)"
  using assms
proof (induction rem arbitrary: p lst xs off s rule: less_induct)
  case (less rem)
  have mi: "memp_inv (memp_pools E) (mem_pools s)" "MEMP_PBUF_POOL < length (memp_pools E)"
    and wf: "pools_wf (memp_pools E)" using less.prems(1) by (simp_all add: net_inv_def memp_inv_def)
  obtain q m where q: "memp_malloc (memp_pools E) MEMP_PBUF_POOL (mem_pools s) = (q, m)" by force
  note u = memp_malloc_used [OF mi q]
  have mi': "memp_inv (memp_pools E) m" using memp_malloc_inv [OF mi] q by simp
  let ?s1 = "s\<lparr>mem_pools := m\<rparr>"
  have inv1: "net_inv E ?s1" using less.prems(1) mi' by (simp add: net_inv_def)
  have ref1: "ref_used E ?s1 = ref_used E s"
    using memp_malloc_other [OF mi, of MEMP_PBUF] memp_types(1) q by (simp add: ref_used_def)
  have Us: "pool_used E s = U \<union> set xs" "U \<inter> set xs = {}" using less.prems(2) by (simp_all add: building_def)
  have p0: "p = 0 \<longleftrightarrow> xs = []" using less.prems(2) by (cases xs) (auto simp: building_def)
  define qlen where "qlen = min rem (u16_of (usub32 500 (LWIP_MEM_ALIGN_SIZE off)))"
  have off: "u16_of (usub32 500 (LWIP_MEM_ALIGN_SIZE off)) = 500 - LWIP_MEM_ALIGN_SIZE off" "LWIP_MEM_ALIGN_SIZE off \<le> 56"
    using align_size_bounds(1) [OF less.prems(4)] by (simp_all add: usub32_le)
  have qlen: "qlen \<le> rem" "LWIP_MEM_ALIGN_SIZE off + qlen \<le> 500" "0 < rem \<Longrightarrow> 0 < qlen"
    using off by (auto simp: qlen_def)
  note step = pbuf_alloc_pool_step [OF q, of p lst rem off, folded qlen_def]
  show ?case
  proof (cases "q = 0")
    case True
    have "m = mem_pools s" using u(3) True by simp
    then have s1: "?s1 = s" by simp
    show ?thesis
    proof (cases "p = 0")
      case p: True
      then show ?thesis using step True less.prems(1) Us p0 s1 by (auto intro!: exI [of _ s])
    next
      case False
      obtain n s' where "pbuf_free E p s = Some (n, s')" "net_inv E s'" "pool_used E s' = U" "ref_used E s' = ref_used E s"
          "mem_bytes s' = mem_bytes s" "heap_live (mem_heap s') = heap_live (mem_heap s)"
          "\<forall>a. a \<notin> set xs \<longrightarrow> pbufs s' a = pbufs s a"
        using building_free [OF less.prems(2,1) False] by blast
      then show ?thesis using step True False s1 Us(2) by auto
    qed
  next
    case False
    have qU: "q \<notin> U \<union> set xs" "pool_used E ?s1 = insert q (pool_used E s)" "q \<in> elems (memp_pools E ! MEMP_PBUF_POOL)"
      using u(2) [OF False] Us by (auto simp: pool_used_def)
    have q4: "4 dvd q" using elem_props(2) [OF wf mi(2) qU(3)] .
    let ?s2 = "grow p lst q off rem qlen ?s1"
    let ?p = "if p = 0 then q else p"
    note b = building_grow [OF less.prems(2) False q4 qU(1) qlen(1,2) _ qU(2)]
    have b1: "building E U ?s2 ?p q (xs @ [q]) (rem - qlen)" and b2: "plen (pbufs ?s2) (xs @ [q]) = plen (pbufs s) xs + qlen"
      using b by simp_all
    have fr: "pbufs ?s2 a = pbufs s a" if "a \<in> U" for a
    proof -
      have "p \<noteq> 0 \<longrightarrow> lst \<in> set xs" using less.prems(2) p0 by (auto simp: building_def)
      then show ?thesis using grow_pbufs(3) [of p lst q a off rem qlen ?s1] that qU(1) Us(2) by auto
    qed
    have sub: "u16_sub rem qlen = rem - qlen" using qlen(1) less.prems(3) by (intro u16_sub_le) simp_all
    show ?thesis
    proof (cases "rem - qlen > 0")
      case True
      have lt: "rem - qlen < rem" using True qlen(3) by simp
      obtain q' s' where r: "pbuf_alloc_pool E ?p q (rem - qlen) 0 ?s2 = Some (q', s')" "net_inv E s'"
          "ref_used E s' = ref_used E ?s2" "mem_bytes s' = mem_bytes ?s2"
          "heap_live (mem_heap s') = heap_live (mem_heap ?s2)" "\<forall>a \<in> U. pbufs s' a = pbufs ?s2 a"
          "if q' = 0 then pool_used E s' = U
           else \<exists>zs. building E U s' q' (last zs) zs 0 \<and> zs \<noteq> [] \<and>
             plen (pbufs s') zs = plen (pbufs ?s2) (xs @ [q]) + (rem - qlen)"
        using less.IH [OF lt _ b1, of 0] inv1 b2 less.prems(3) True qlen(1) by auto
      have "pbuf_alloc_pool E p lst rem off s = Some (q', s')"
        using step False True r(1) sub by (simp add: Let_def)
      moreover have "plen (pbufs ?s2) (xs @ [q]) + (rem - qlen) = plen (pbufs s) xs + rem" using b2 qlen(1) by simp
      ultimately show ?thesis using r(2-7) ref1 fr by auto
    next
      case F: False
      then have r0: "rem - qlen = 0" "qlen = rem" using qlen(1) by auto
      have "pbuf_alloc_pool E p lst rem off s = Some (?p, ?s2)"
        using step False F sub by (simp add: Let_def)
      moreover have "building E U ?s2 ?p (last (xs @ [q])) (xs @ [q]) 0" using b1 r0(1) by simp
      then have "\<exists>zs. building E U ?s2 ?p (last zs) zs 0 \<and> zs \<noteq> [] \<and> plen (pbufs ?s2) zs = plen (pbufs s) xs + rem"
        using b2 r0(2) by (intro exI [of _ "xs @ [q]"]) simp
      moreover have "?p \<noteq> 0" using False by simp
      ultimately show ?thesis using inv1 ref1 fr by (intro exI [of _ ?p] exI [of _ ?s2]) auto
    qed
  qed
qed

end
