(* ===== verification/Lwip_Packet_Size.thy ===== *)
theory Lwip_Packet_Size
  imports Lwip_Packet_Alloc
begin

text \<open>Changing the size of packets: headers in front of the payload, and truncation.\<close>

section \<open>Payloads of pool pbufs\<close>

lemma building_separate:
  assumes "building E U s p lst xs r" "net_inv E s"
  shows "separate s xs"
proof -
  have wf: "pools_wf (memp_pools E)" "MEMP_PBUF_POOL < length (memp_pools E)"
    and sz: "516 \<le> memp_size (memp_pools E ! MEMP_PBUF_POOL)"
    using assms(2) by (simp_all add: net_inv_def memp_inv_def)
  have el: "set xs \<subseteq> elems (memp_pools E ! MEMP_PBUF_POOL)"
    using assms(1) by (auto simp: building_def pool_used_def memp_used_def)
  have pp: "\<forall>a \<in> set xs. pool_pbuf s a" and d: "distinct xs"
    using assms(1) pchain_distinct by (auto simp: building_def)
  have "apart (pext s a) (pext s b)" if "a \<in> set xs" "b \<in> set xs" "a \<noteq> b" for a b
  proof -
    have "a \<in> elems (memp_pools E ! MEMP_PBUF_POOL)" "b \<in> elems (memp_pools E ! MEMP_PBUF_POOL)" using el that by auto
    from elems_apart [OF wf this that(3)] have "a + 516 \<le> b \<or> b + 516 \<le> a" using sz by (auto simp: apart_def)
    moreover have "pool_pbuf s a" "pool_pbuf s b" using pp that by auto
    ultimately show ?thesis by (auto simp: apart_def pext_def pool_pbuf_def)
  qed
  then show ?thesis using d unfolding separate_def
    by (induction xs) (auto simp: sorted_wrt_append)
qed

section \<open>Headers\<close>

definition contiguous :: "net \<Rightarrow> nat \<Rightarrow> bool" where
  "contiguous s p \<longleftrightarrow>
    (ucast (pb_type_internal (pbufs s p)) :: u32) AND PBUF_TYPE_FLAG_STRUCT_DATA_CONTIGUOUS \<noteq> 0"

lemma pbuf_add_header_eq:
  assumes "p \<noteq> 0" "0 < n" "n \<le> 65535" "contiguous s p" "n \<le> pb_payload (pbufs s p)"
    "pb_payload (pbufs s p) < 4294967296" "pb_tot_len (pbufs s p) < 65536"
  shows "pbuf_add_header p n s =
    (if pb_tot_len (pbufs s p) + n < 65536 \<and> p + 16 + n \<le> pb_payload (pbufs s p)
     then (0, pb_upd p (\<lambda>b. b\<lparr>pb_payload := pb_payload b - n, pb_len := u16_of (pb_len b + n),
       pb_tot_len := pb_tot_len b + n\<rparr>) s)
     else (1, s))"
proof -
  have u: "usub32 (pb_payload (pbufs s p)) n = pb_payload (pbufs s p) - n" using assms(5,6) by (rule usub32_le)
  have w: "u16_of (n + pb_tot_len (pbufs s p)) < n \<longleftrightarrow> \<not> pb_tot_len (pbufs s p) + n < 65536"
  proof (cases "pb_tot_len (pbufs s p) + n < 65536")
    case False
    then have "n + pb_tot_len (pbufs s p) = (n + pb_tot_len (pbufs s p) - 65536) + 65536" by simp
    then have "u16_of (n + pb_tot_len (pbufs s p)) = (n + pb_tot_len (pbufs s p) - 65536) mod 65536"
      unfolding u16_of_def by (metis mod_add_self2)
    also have "\<dots> = n + pb_tot_len (pbufs s p) - 65536" using assms(3,7) by (intro mod_less) simp
    finally show ?thesis using False assms(3,7) by simp
  qed simp
  have f: "pb_payload (pbufs s p) - n < p + 16 \<longleftrightarrow> \<not> p + 16 + n \<le> pb_payload (pbufs s p)" using assms(5) by auto
  have "ucast (pb_type_internal (pbufs s p)) AND PBUF_TYPE_FLAG_STRUCT_DATA_CONTIGUOUS \<noteq> 0"
    using assms(4) by (simp add: contiguous_def)
  then show ?thesis
    using assms(1-3) u w f
    by (auto simp: pbuf_add_header_def pbuf_add_header_impl_def Let_def pb_upd_def)
qed

lemma pbuf_remove_header_eq:
  assumes "p \<noteq> 0" "0 < n" "n \<le> pb_len (pbufs s p)" "pb_len (pbufs s p) \<le> pb_tot_len (pbufs s p)" "pb_tot_len (pbufs s p) < 65536"
  shows "pbuf_remove_header p n s = (0, pb_upd p (\<lambda>b. b\<lparr>pb_payload := pb_payload b + n, pb_len := pb_len b - n,
    pb_tot_len := pb_tot_len b - n\<rparr>) s)"
proof -
  have "u16_sub (pb_len (pbufs s p)) n = pb_len (pbufs s p) - n" "u16_sub (pb_tot_len (pbufs s p)) n = pb_tot_len (pbufs s p) - n"
    using assms by (simp_all add: u16_sub_le)
  then show ?thesis using assms by (simp add: pbuf_remove_header_def Let_def pb_upd_def)
qed

section \<open>Trimming a heap block that holds a pbuf\<close>

lemma extents_atrim:
  assumes "seg B 0 (ps @ (b, True) # qs) MEM_SIZE_ALIGNED" "n < start qs MEM_SIZE_ALIGNED - (b + 8)" "4 dvd n" "12 \<le> n"
  shows "\<exists>m. n \<le> m \<and> m \<le> start qs MEM_SIZE_ALIGNED - (b + 8) \<and> extents r (atrim ps b n qs) MEM_SIZE_ALIGNED =
    insert (r + b + 8, m) (extents r (ps @ (b, True) # qs) MEM_SIZE_ALIGNED - {(r + b + 8, start qs MEM_SIZE_ALIGNED - (b + 8))})"
proof -
  let ?m = "start qs MEM_SIZE_ALIGNED - (b + 8)"
  have seg: "seg B 0 ps b" "seg B b qs MEM_SIZE_ALIGNED" "b + 20 \<le> start qs MEM_SIZE_ALIGNED"
    using assms(1) by (simp_all add: seg_append)
  have ni: "(r + b + 8, m) \<notin> extents r ps b" "(r + b + 8, m) \<notin> extents r qs MEM_SIZE_ALIGNED" for m
    using extents_bounds [OF seg(1), of "r + b + 8" m r] extents_bounds [OF seg(2), of "r + b + 8" m r] seg(3)
    by auto
  have rest: "extents r (ps @ (b, True) # qs) MEM_SIZE_ALIGNED - {(r + b + 8, ?m)} = extents r ps b \<union> extents r qs MEM_SIZE_ALIGNED"
    using ni by (auto simp: extents_append)
  consider c t where "qs = (c, False) # t" | "qs = [] \<or> snd (hd qs)" "n + 20 \<le> ?m" | "qs = [] \<or> snd (hd qs)" "\<not> n + 20 \<le> ?m"
    by (cases rule: drop_free_cases [of qs]) auto
  then show ?thesis
  proof cases
    case (1 c t)
    then show ?thesis unfolding rest using assms(2)
      by (intro exI [of _ n]) (auto simp: atrim_def extents_append)
  next
    case 2
    then have "atrim ps b n qs = ps @ (b, True) # (b + 8 + n, False) # qs"
      unfolding atrim_def by (cases qs; cases "hd qs") auto
    then show ?thesis unfolding rest using assms(2) by (intro exI [of _ n]) (auto simp: extents_append)
  next
    case 3
    then have "atrim ps b n qs = ps @ (b, True) # qs"
      unfolding atrim_def by (cases qs; cases "hd qs") auto
    then show ?thesis unfolding rest using assms(2) by (intro exI [of _ ?m]) (auto simp: extents_append)
  qed
qed

lemma heap_trim_live:
  assumes "heap_inv h" "(p, m) \<in> heap_live h" "n \<le> m"
  shows "\<exists>h' m'. mem_trim p n h = (p, h') \<and> heap_inv h' \<and> n \<le> m' \<and> m' \<le> m \<and>
    heap_live h' = insert (p, m') (heap_live h - {(p, m)})"
proof -
  obtain xs where ok: "heap_ok h xs" using assms(1) by (auto simp: heap_inv_def)
  then obtain ps b qs where xs: "xs = ps @ (b, True) # qs" "p = ram h + b + 8"
      "m = start qs MEM_SIZE_ALIGNED - (b + 8)"
    using extents_split assms(2) unfolding heap_live_eq [OF ok] by blast
  have ok': "heap_ok h (ps @ (b, True) # qs)" using ok xs by simp
  note seg = heap_ok_seg [OF ok']
  note b = seg_blk [OF seg]
  have small: "n < 65536" using assms(3) xs(3) b(4) by simp
  have dv: "4 dvd m"
  proof -
    have "4 dvd start qs MEM_SIZE_ALIGNED"
    proof (cases qs)
      case Nil
      then show ?thesis by simp
    next
      case (Cons y t)
      have "seg (blk h) 0 ((ps @ [(b, True)]) @ y # t) MEM_SIZE_ALIGNED" using seg Cons by simp
      then show ?thesis using seg_blk(3) Cons by (cases y) fastforce
    qed
    moreover have "4 dvd b + 8" using b(3) by presburger
    ultimately show ?thesis unfolding xs(3) by (rule dvd_diff_nat)
  qed
  have fits: "request n \<le> m"
  proof -
    have "LWIP_MEM_ALIGN_SIZE n \<le> m" using dv assms(3) by (auto simp: LWIP_MEM_ALIGN_SIZE_def elim!: dvdE)
    moreover have "12 \<le> m" using b(2) xs(3) by simp
    ultimately show ?thesis by (simp add: request_def)
  qed
  obtain h' where h': "mem_trim p n h = (p, h')" "ram h' = ram h"
      "heap_ok h' (if request n = m then ps @ (b, True) # qs else atrim ps b (request n) qs)"
    using mem_trim_rep(2) [OF ok' small] fits unfolding xs(2,3) by auto
  show ?thesis
  proof (cases "request n = m")
    case True
    then have "heap_live h' = heap_live h"
      using heap_live_eq [OF ok'] heap_live_eq [of h' "ps @ (b, True) # qs"] h'(2,3) by simp
    then show ?thesis using h' True assms(2,3) by (intro exI [of _ h'] exI [of _ m]) (auto simp: heap_inv_def)
  next
    case False
    then have lt: "request n < start qs MEM_SIZE_ALIGNED - (b + 8)" using fits xs(3) by simp
    obtain m' where m': "request n \<le> m'" "m' \<le> m" "extents (ram h) (atrim ps b (request n) qs) MEM_SIZE_ALIGNED =
        insert (p, m') (extents (ram h) (ps @ (b, True) # qs) MEM_SIZE_ALIGNED - {(p, m)})"
      using extents_atrim [OF seg lt request_props(1,2), of "ram h"] unfolding xs(2,3) by blast
    have "heap_live h' = insert (p, m') (heap_live h - {(p, m)})"
      using heap_live_eq [OF ok'] heap_live_eq [of h' "atrim ps b (request n) qs"] h'(2,3) False m'(3) by simp
    then show ?thesis using h' False m'(1,2) request_props(3) [of n] by (intro exI [of _ h'] exI [of _ m']) (auto simp: heap_inv_def)
  qed
qed

section \<open>Truncation\<close>

text \<open>The total lengths of the pbufs in front shrink, and the walk ends at the pbuf that keeps \<open>k\<close> bytes.\<close>

definition shrunk :: "nat \<Rightarrow> nat list \<Rightarrow> (nat \<Rightarrow> pbuf) \<Rightarrow> nat \<Rightarrow> pbuf" where
  "shrunk k xs B = (\<lambda>a. if a \<in> set xs then (B a)\<lparr>pb_tot_len := pb_tot_len (B a) - k\<rparr> else B a)"

lemma realloc_walk_eq:
  assumes "pchain s p xs" "tots (pbufs s) xs" "plen (pbufs s) xs < 65536" "n + k = plen (pbufs s) xs" "xs \<noteq> []"
  shows "\<exists>us q vs. xs = us @ q # vs \<and> plen (pbufs s) us \<le> n \<and> n - plen (pbufs s) us \<le> pb_len (pbufs s q) \<and>
    realloc_walk k n p s = Some (q, n - plen (pbufs s) us, s\<lparr>pbufs := shrunk k us (pbufs s)\<rparr>)"
  using assms
proof (induction xs arbitrary: p n s)
  case (Cons x xs)
  have p: "p = x" "p \<noteq> 0" "pchain s (pb_next (pbufs s x)) xs" using Cons.prems(1) by auto
  have x: "x \<notin> set xs" using pchain_distinct [OF Cons.prems(1)] by simp
  show ?case
  proof (cases "pb_len (pbufs s x) < n")
    case False
    then have "realloc_walk k n p s = Some (x, n, s\<lparr>pbufs := shrunk k [] (pbufs s)\<rparr>)"
      using p by (subst realloc_walk.simps) (simp add: shrunk_def)
    then show ?thesis using False by (intro exI [of _ "[]"] exI [of _ x] exI [of _ xs]) simp
  next
    case True
    let ?s = "pb_upd x (\<lambda>b. b\<lparr>pb_tot_len := pb_tot_len b - k\<rparr>) s"
    let ?n = "n - pb_len (pbufs s x)"
    have tot: "u16_sub (pb_tot_len (pbufs s x)) k = pb_tot_len (pbufs s x) - k"
      using Cons.prems(2-4) by (intro u16_sub_le) simp_all
    have n: "u16_sub n (pb_len (pbufs s x)) = ?n" using True Cons.prems(3,4) by (intro u16_sub_le) simp_all
    have step: "realloc_walk k n p s = realloc_walk k ?n (pb_next (pbufs s x)) ?s"
      using True p tot n by (subst realloc_walk.simps) (simp add: pb_upd_def)
    have ne: "xs \<noteq> []" using True Cons.prems(4) by auto
    have same: "\<forall>a \<in> set xs. pbufs ?s a = pbufs s a" using x by auto
    have len: "plen (pbufs ?s) ys = plen (pbufs s) ys" for ys by (induction ys) auto
    have pc: "pchain ?s (pb_next (pbufs s x)) xs" using p(3) pchain_cong [of xs ?s s] same by simp
    have ts: "tots (pbufs ?s) xs" using tots_cong(2) [of xs "pbufs ?s" "pbufs s"] same Cons.prems(2) by auto
    have "plen (pbufs ?s) xs < 65536" "?n + k = plen (pbufs ?s) xs" using Cons.prems(3,4) True by (simp_all only: len) auto
    from Cons.IH [OF pc ts this ne] obtain us q vs where
      r: "xs = us @ q # vs" "plen (pbufs ?s) us \<le> ?n" "?n - plen (pbufs ?s) us \<le> pb_len (pbufs ?s q)"
        "realloc_walk k ?n (pb_next (pbufs s x)) ?s = Some (q, ?n - plen (pbufs ?s) us, ?s\<lparr>pbufs := shrunk k us (pbufs ?s)\<rparr>)"
      by blast
    have "shrunk k us (pbufs ?s) = shrunk k (x # us) (pbufs s)" using x r(1) by (auto simp: shrunk_def)
    moreover have "?s\<lparr>pbufs := B\<rparr> = s\<lparr>pbufs := B\<rparr>" for B by (simp add: pb_upd_def)
    ultimately have "realloc_walk k n p s = Some (q, n - plen (pbufs s) (x # us), s\<lparr>pbufs := shrunk k (x # us) (pbufs s)\<rparr>)"
      using step r(4) by (simp only: len) simp
    moreover have "plen (pbufs s) (x # us) \<le> n" "n - plen (pbufs s) (x # us) \<le> pb_len (pbufs s q)"
      using r(2,3) True by (simp_all only: len) (auto split: if_splits)
    ultimately show ?thesis using r(1) by (intro exI [of _ "x # us"] exI [of _ q] exI [of _ vs]) auto
  qed
qed simp

lemma tots_shrunk:
  assumes "tots B (us @ q # vs)" "pb_len (B' q) = r" "pb_tot_len (B' q) = r" "r + k = pb_len (B q) + plen B vs"
    and "\<forall>a \<in> set us. pb_len (B' a) = pb_len (B a) \<and> pb_tot_len (B' a) = pb_tot_len (B a) - k"
  shows "tots B' (us @ [q]) \<and> plen B' (us @ [q]) = plen B us + r"
  using assms(1,5)
proof (induction us)
  case Nil
  then show ?case using assms(2,3) by simp
next
  case (Cons u us)
  then show ?case using assms(4) by auto
qed

text \<open>A heap pbuf lies with its payload inside the block that \<open>mem_malloc\<close> returned for it.\<close>

definition heap_fit :: "net \<Rightarrow> nat \<Rightarrow> bool" where
  "heap_fit s a \<longleftrightarrow> (\<exists>m. (a, m) \<in> heap_live (mem_heap s) \<and> a \<le> pb_payload (pbufs s a) \<and>
    pb_payload (pbufs s a) < 4294967296 \<and> pb_payload (pbufs s a) + pb_len (pbufs s a) \<le> a + m)"

lemma realloc_trim_ok:
  assumes inv: "net_inv E s" and fit: "from_heap s q \<longrightarrow> heap_fit s q" and r: "r \<le> pb_len (pbufs s q)"
  shows "\<exists>h. realloc_trim q r s = (q, s\<lparr>mem_heap := h\<rparr>) \<and> heap_inv h \<and> fst ` heap_live h = fst ` heap_live (mem_heap s)"
proof (cases "from_heap s q \<and> r \<noteq> pb_len (pbufs s q) \<and> pb_flags (pbufs s q) AND PBUF_FLAG_IS_CUSTOM = 0")
  case True
  obtain m where m: "(q, m) \<in> heap_live (mem_heap s)" "q \<le> pb_payload (pbufs s q)" "pb_payload (pbufs s q) < 4294967296"
      "pb_payload (pbufs s q) + pb_len (pbufs s q) \<le> q + m"
    using fit True by (auto simp: heap_fit_def)
  have hi: "heap_inv (mem_heap s)" using inv by (simp add: net_inv_def)
  let ?n = "pb_payload (pbufs s q) - q + r"
  have le: "?n \<le> m" "m \<le> 30720" using m(2,4) r heap_live_bounds(2,3) [OF hi m(1)] by auto
  have "mem_size_t (usub32 (pb_payload (pbufs s q)) q + r) = ?n"
    using m(2,3) le by (simp add: usub32_le)
  moreover obtain h m' where h: "mem_trim q ?n (mem_heap s) = (q, h)" "heap_inv h"
      "heap_live h = insert (q, m') (heap_live (mem_heap s) - {(q, m)})"
    using heap_trim_live [OF hi m(1) le(1)] by blast
  moreover have "fst ` heap_live h = fst ` heap_live (mem_heap s)"
    using h(3) m(1) by (force simp: image_iff)
  ultimately show ?thesis
    using True by (intro exI [of _ h]) (simp add: realloc_trim_def pbuf_match_allocsrc_def from_heap_def pbuf_types)
next
  case False
  have "realloc_trim q r s = (q, s)"
    using False by (auto simp: realloc_trim_def pbuf_match_allocsrc_def from_heap_def pbuf_types)
  then show ?thesis using inv by (intro exI [of _ "mem_heap s"]) (simp add: net_inv_def)
qed

lemma pchain_split: "pchain s p (us @ vs) \<Longrightarrow> \<exists>q. pchain s q vs"
  by (induction us arbitrary: p) auto

text \<open>Cutting the chain behind \<open>q\<close>: the tail loses the reference that the chain held.\<close>

lemma cut_tail:
  assumes inv: "net_inv E s" and ch: "pchain s p vs" and plain: "plain s vs" and held: "\<forall>a \<in> set vs. held E s a"
  defines "us \<equiv> takeWhile (\<lambda>a. pb_ref (pbufs s a) = 1) vs"
  shows "\<exists>s'. (if p \<noteq> 0 then map_option snd (pbuf_free E p s) else Some s) = Some s' \<and> net_inv E s' \<and>
    mem_bytes s' = mem_bytes s \<and> (\<forall>a. a \<notin> set vs \<longrightarrow> pbufs s' a = pbufs s a) \<and>
    pool_used E s' = pool_used E s - {a \<in> set us. from_pool s a}"
proof (cases "p = 0")
  case True
  then have "vs = []" using ch by simp
  then show ?thesis using True inv by (auto simp: us_def)
next
  case False
  let ?ws = "dropWhile (\<lambda>a. pb_ref (pbufs s a) = 1) vs"
  let ?s = "drop_ref ?ws (release_all E us s)"
  have sub: "set us \<subseteq> set vs" by (auto simp: us_def dest: set_takeWhileD)
  have pl: "plain s us" using plain sub by (auto simp: plain_def)
  have "distinct us" using pchain_distinct [OF ch] by (simp add: us_def distinct_takeWhile)
  then have st: "net_inv E (release_all E us s)" "pool_used E (release_all E us s) = pool_used E s - {a \<in> set us. from_pool s a}"
    using release_all_storage [OF inv pl] held sub by auto
  have "pbuf_free E p s = Some (of_nat (length us), ?s)"
    using pbuf_free_loop_eq [OF ch plain, of E 0] False by (simp add: pbuf_free_def us_def)
  moreover have "net_inv E ?s" "pool_used E ?s = pool_used E s - {a \<in> set us. from_pool s a}" "mem_bytes ?s = mem_bytes s"
    using st release_all_pbufs [OF pl, of E] by (auto simp: drop_ref_def split: list.splits)
  moreover have "pbufs ?s a = pbufs s a" if "a \<notin> set vs" for a
  proof -
    have "set ?ws \<subseteq> set vs" by (auto dest: set_dropWhileD)
    then have "a \<notin> set us" "a \<notin> set ?ws" using that sub by auto
    then show ?thesis using release_all_pbufs [OF pl, of E] by (auto simp: drop_ref_def split: list.splits)
  qed
  ultimately show ?thesis using False by auto
qed

lemma pbuf_realloc_packet:
  assumes pk: "packet s p xs" "p \<noteq> 0" and n: "n < plen (pbufs s) xs" and inv: "net_inv E s" and plain: "plain s xs"
    and held: "\<forall>a \<in> set xs. held E s a" and fit: "\<forall>a \<in> set xs. from_heap s a \<longrightarrow> heap_fit s a"
  shows "\<exists>us q vs s'. xs = us @ q # vs \<and> pbuf_realloc E p n s = Some s' \<and> packet s' p (us @ [q]) \<and>
    pdata s' (us @ [q]) = take n (pdata s xs) \<and> net_inv E s' \<and> mem_bytes s' = mem_bytes s \<and>
    pool_used E s' = pool_used E s - {a \<in> set (takeWhile (\<lambda>a. pb_ref (pbufs s a) = 1) vs). from_pool s a}"
proof -
  have ch: "pchain s p xs" and ts: "tots (pbufs s) xs" and lt: "plen (pbufs s) xs < 65536" and ne: "xs \<noteq> []"
    using pk by (auto simp: packet_def)
  define k where "k = plen (pbufs s) xs - n"
  have nk: "n + k = plen (pbufs s) xs" using n by (simp add: k_def)
  obtain us q vs where w: "xs = us @ q # vs" "plen (pbufs s) us \<le> n" "n - plen (pbufs s) us \<le> pb_len (pbufs s q)"
      "realloc_walk k n p s = Some (q, n - plen (pbufs s) us, s\<lparr>pbufs := shrunk k us (pbufs s)\<rparr>)"
    using realloc_walk_eq [OF ch ts lt nk ne] by blast
  define r where "r = n - plen (pbufs s) us"
  define s1 where "s1 = s\<lparr>pbufs := shrunk k us (pbufs s)\<rparr>"
  have d: "distinct xs" using pchain_distinct [OF ch] .
  have B1: "pbufs s1 = shrunk k us (pbufs s)" by (simp add: s1_def)
  have q1: "pbufs s1 q = pbufs s q" using d w(1) by (auto simp: B1 shrunk_def)
  have src: "from_pool s1 a = from_pool s a" "from_ref s1 a = from_ref s a" "from_heap s1 a = from_heap s a" for a
    by (rule sources_cong; simp add: B1 shrunk_def)+
  have st1: "net_inv E s1" "pool_used E s1 = pool_used E s" "ref_used E s1 = ref_used E s"
    using inv by (simp_all add: s1_def net_inv_def pool_used_def ref_used_def)
  have "from_heap s1 q \<longrightarrow> heap_fit s1 q" using fit w(1) q1 src(3) by (auto simp: heap_fit_def s1_def)
  from realloc_trim_ok [OF st1(1) this, of r] obtain h where
    h: "realloc_trim q r s1 = (q, s1\<lparr>mem_heap := h\<rparr>)" "heap_inv h" "fst ` heap_live h = fst ` heap_live (mem_heap s)"
    using w(3) q1 by (auto simp: r_def s1_def)
  define s3 where "s3 = pb_upd q (\<lambda>b. b\<lparr>pb_len := r, pb_tot_len := r\<rparr>) (s1\<lparr>mem_heap := h\<rparr>)"
  have B3: "pbufs s3 = (pbufs s1)(q := (pbufs s q)\<lparr>pb_len := r, pb_tot_len := r\<rparr>)" by (simp add: s3_def q1)
  have st3: "net_inv E s3" "pool_used E s3 = pool_used E s" "ref_used E s3 = ref_used E s"
    using st1 h(2) by (simp_all add: s3_def net_inv_def pool_used_def ref_used_def)
  have vs3: "pbufs s3 a = pbufs s a" if "a \<in> set vs" for a using d w(1) that by (auto simp: B3 B1 shrunk_def)
  have ch3: "pchain s3 (pb_next (pbufs s3 q)) vs"
  proof -
    have "pchain s (pb_next (pbufs s q)) vs" using ch pchain_split [of s p us "q # vs"] w(1) by auto
    then show ?thesis using vs3 pchain_cong [of vs s3 s] by (simp add: B3)
  qed
  have src3: "from_pool s3 a = from_pool s a" "from_ref s3 a = from_ref s a" "from_heap s3 a = from_heap s a" for a
    by (rule sources_cong; simp add: B3 B1 shrunk_def)+
  have h3: "fst ` heap_live (mem_heap s3) = fst ` heap_live (mem_heap s)" using h(3) by (simp add: s3_def)
  have "\<forall>a \<in> set vs. held E s3 a" using held w(1) unfolding held_def src3 st3 h3 by auto
  moreover have "plain s3 vs" using plain vs3 w(1) by (auto simp: plain_def)
  ultimately obtain s4 where s4: "(if pb_next (pbufs s3 q) \<noteq> 0 then map_option snd (pbuf_free E (pb_next (pbufs s3 q)) s3) else Some s3) = Some s4"
      "net_inv E s4" "mem_bytes s4 = mem_bytes s3" "\<forall>a. a \<notin> set vs \<longrightarrow> pbufs s4 a = pbufs s3 a"
      "pool_used E s4 = pool_used E s3 - {a \<in> set (takeWhile (\<lambda>a. pb_ref (pbufs s3 a) = 1) vs). from_pool s3 a}"
    using cut_tail [OF st3(1) ch3] by blast
  define s5 where "s5 = pb_upd q (\<lambda>b. b\<lparr>pb_next := 0\<rparr>) s4"
  have realloc: "pbuf_realloc E p n s = Some s5"
  proof -
    have tot: "pb_tot_len (pbufs s p) = n + k" using packet_tot_len [OF pk] nk by simp
    moreover have "u16_sub (n + k) n = k" using nk lt by (subst u16_sub_le) simp_all
    moreover have "q \<noteq> 0" using pchain_nonnull [OF ch] w(1) by auto
    moreover have "0 < k" using n by (simp add: k_def)
    moreover note w(4) [folded r_def s1_def] h(1)
    ultimately have "pbuf_realloc E p n s =
        (case (if pb_next (pbufs s3 q) \<noteq> 0 then map_option snd (pbuf_free E (pb_next (pbufs s3 q)) s3) else Some s3) of
           None \<Rightarrow> None | Some s \<Rightarrow> Some (pb_upd q (\<lambda>b. b\<lparr>pb_next := 0\<rparr>) s))"
      unfolding pbuf_realloc_def s3_def by (simp only: Let_def prod.case option.case if_False if_True) simp
    then show ?thesis unfolding s4(1) by (simp add: s5_def)
  qed
  have nq: "q \<notin> set us" "q \<notin> set vs" "\<forall>a \<in> set us. a \<notin> set vs" using d w(1) by auto
  have B5: "pbufs s5 a = (if a = q then (pbufs s q)\<lparr>pb_len := r, pb_tot_len := r, pb_next := 0\<rparr> else shrunk k us (pbufs s) a)"
    if "a \<in> set (us @ [q])" for a
    using that nq s4(4) by (auto simp: s5_def B3 B1)
  have "pchain s5 p (us @ [q])"
  proof -
    have "pchain s p (us @ q # vs)" using ch w(1) by simp
    then have "\<forall>a \<in> set us. pb_next (pbufs s5 a) = pb_next (pbufs s a)" "pb_next (pbufs s5 q) = 0"
      using B5 nq by (auto simp: shrunk_def)
    then show ?thesis using \<open>pchain s p (us @ q # vs)\<close>
      by (induction us arbitrary: p) auto
  qed
  moreover have "tots (pbufs s5) (us @ [q]) \<and> plen (pbufs s5) (us @ [q]) = plen (pbufs s) us + r"
  proof (rule tots_shrunk)
    show "tots (pbufs s) (us @ q # vs)" using ts w(1) by simp
    show "pb_len (pbufs s5 q) = r" "pb_tot_len (pbufs s5 q) = r" using B5 by simp_all
    show "r + k = pb_len (pbufs s q) + plen (pbufs s) vs" using nk w(2) unfolding w(1) by (simp add: r_def)
    show "\<forall>a \<in> set us. pb_len (pbufs s5 a) = pb_len (pbufs s a) \<and> pb_tot_len (pbufs s5 a) = pb_tot_len (pbufs s a) - k"
      using B5 nq by (auto simp: shrunk_def)
  qed
  ultimately have "packet s5 p (us @ [q])" using n lt w(2) by (simp add: packet_def r_def)
  moreover have "pdata s5 (us @ [q]) = take n (pdata s xs)"
  proof -
    have m5: "mem_bytes s5 = mem_bytes s" using s4(3) by (simp add: s5_def s3_def s1_def)
    have "pdata s5 us = pdata s us"
      unfolding pdata_def m5 using B5 nq by (intro arg_cong [of _ _ concat] map_cong refl) (auto simp: shrunk_def)
    moreover have "get_bytes (mem_bytes s) (pb_payload (pbufs s q)) r = take r (get_bytes (mem_bytes s) (pb_payload (pbufs s q)) (pb_len (pbufs s q)))"
      using w(3) by (simp add: take_get_bytes r_def)
    ultimately show ?thesis using B5 w(2,3) unfolding w(1) by (simp add: m5 r_def)
  qed
  moreover have "net_inv E s5" "mem_bytes s5 = mem_bytes s" using s4(2,3) by (simp_all add: s5_def s3_def s1_def)
  moreover have "takeWhile (\<lambda>a. pb_ref (pbufs s3 a) = 1) vs = takeWhile (\<lambda>a. pb_ref (pbufs s a) = 1) vs"
    using vs3 by (intro takeWhile_cong) auto
  then have "pool_used E s5 = pool_used E s - {a \<in> set (takeWhile (\<lambda>a. pb_ref (pbufs s a) = 1) vs). from_pool s a}"
    using s4(5) by (simp add: s5_def st3 src3)
  ultimately show ?thesis using w(1) realloc by blast
qed

end
