(* ===== verification/Lwip_Pbuf_Spec.thy ===== *)
theory Lwip_Pbuf_Spec
  imports Lwip_Packet_Size
begin

text \<open>
  What \<open>lwIP/core/pbuf.c\<close> promises to its callers, over the abstraction of a packet as the list of its
  pbufs and the bytes they hold.
\<close>

section \<open>Instances\<close>

text \<open>A pool table of nine pools, in the order of \<open>memp_std.h\<close>, and the state after initialisation.\<close>

definition net_pools :: "memp_desc list" where
  "net_pools = map (\<lambda>i. \<lparr>memp_size = 516, memp_num = 3, memp_base = 536900000 + 4096 * i\<rparr>) [0..<9]"

definition net_env :: pbuf_env where
  "net_env = \<lparr>memp_pools = net_pools, custom_free_function = (\<lambda>_ s. s)\<rparr>"

definition null_pbuf :: pbuf where
  "null_pbuf = \<lparr>pb_next = 0, pb_payload = 0, pb_tot_len = 0, pb_len = 0, pb_type_internal = 0,
    pb_flags = 0, pb_ref = 0, pb_if_idx = 0\<rparr>"

definition net_boot :: net where
  "net_boot = \<lparr>pbufs = (\<lambda>_. null_pbuf), mem_bytes = of_nat, mem_heap = heap_boot,
    mem_pools = memp_init net_pools \<lparr>memp_tab = (\<lambda>_. 0), memp_next = (\<lambda>_. 0)\<rparr>\<rparr>"

text \<open>Two packets, of seven and of four bytes, each of two pbufs.\<close>

definition net_two :: net where
  "net_two = net_boot\<lparr>pbufs := (pbufs net_boot)
    (1000 := null_pbuf\<lparr>pb_next := 2000, pb_payload := 1100, pb_tot_len := 7, pb_len := 4, pb_type_internal := 0x80, pb_ref := 1\<rparr>,
     2000 := null_pbuf\<lparr>pb_payload := 2100, pb_tot_len := 3, pb_len := 3, pb_ref := 1\<rparr>,
     3000 := null_pbuf\<lparr>pb_next := 4000, pb_payload := 3100, pb_tot_len := 4, pb_len := 1, pb_ref := 1\<rparr>,
     4000 := null_pbuf\<lparr>pb_payload := 4100, pb_tot_len := 3, pb_len := 3, pb_ref := 1\<rparr>)\<rparr>"

lemma net_pools_wf: "pools_wf net_pools"
proof -
  have "net_pools ! t = \<lparr>memp_size = 516, memp_num = 3, memp_base = 536900000 + 4096 * t\<rparr>" if "t < 9" for t
    using that by (simp add: net_pools_def)
  moreover have "apart (536900000 + 4096 * t, 1548) (536900000 + 4096 * u, 1548)" if "t \<noteq> u" for t u :: nat
    using that by (auto simp: apart_def)
  moreover have "LWIP_MEM_ALIGN (536900000 + 4096 * t) = 536900000 + 4096 * t" for t
    using align_payload [of "536899984 + 4096 * t" 0] by (simp add: LWIP_MEM_ALIGN_SIZE_def)
  ultimately show ?thesis by (simp add: pools_wf_def net_pools_def)
qed

lemma net_boot_inv: "net_inv net_env net_boot" "pool_used net_env net_boot = {}"
proof -
  have t: "MEMP_PBUF_POOL < length net_pools" by (simp add: MEMP_PBUF_POOL_def net_pools_def)
  then show "net_inv net_env net_boot"
    using memp_init_inv(1) [OF net_pools_wf] boot_ok(1)
    by (auto simp: net_inv_def net_env_def net_boot_def heap_inv_def net_pools_def)
  show "pool_used net_env net_boot = {}"
    using memp_init_inv(2) [OF net_pools_wf t] by (simp add: pool_used_def net_env_def net_boot_def)
qed

lemma net_two_packets:
  "packet net_two 1000 [1000, 2000]" "packet net_two 3000 [3000, 4000]"
  "separate net_two [1000, 2000]" "separate net_two [3000, 4000]"
  by (simp_all add: packet_def net_two_def separate_def pext_def apart_def null_pbuf_def net_boot_def)

lemma net_two_sel:
  "pbufs net_two 1000 = null_pbuf\<lparr>pb_next := 2000, pb_payload := 1100, pb_tot_len := 7, pb_len := 4, pb_type_internal := 0x80, pb_ref := 1\<rparr>"
  "pbufs net_two 2000 = null_pbuf\<lparr>pb_payload := 2100, pb_tot_len := 3, pb_len := 3, pb_ref := 1\<rparr>"
  "pbufs net_two 3000 = null_pbuf\<lparr>pb_next := 4000, pb_payload := 3100, pb_tot_len := 4, pb_len := 1, pb_ref := 1\<rparr>"
  "pbufs net_two 4000 = null_pbuf\<lparr>pb_payload := 4100, pb_tot_len := 3, pb_len := 3, pb_ref := 1\<rparr>"
  "mem_bytes net_two = of_nat"
  by (simp_all add: net_two_def net_boot_def)

section \<open>Allocation and release\<close>

lemma pbuf_alloc_pool_fresh:
  assumes "net_inv E s" "layer \<in> {PBUF_TRANSPORT, PBUF_IP, PBUF_LINK, PBUF_RAW}" "len < 65536"
  shows "\<exists>p s'. pbuf_alloc E layer len PBUF_POOL s = Some (p, s') \<and> net_inv E s' \<and>
    (\<forall>a \<in> pool_used E s. pbufs s' a = pbufs s a) \<and>
    (if p = 0 then pool_used E s' = pool_used E s
     else \<exists>xs. packet s' p xs \<and> plen (pbufs s') xs = len \<and> separate s' xs \<and>
       pool_used E s' = pool_used E s \<union> set xs \<and> pool_used E s \<inter> set xs = {} \<and> (\<forall>a \<in> set xs. pool_pbuf s' a))"
proof -
  have off: "layer \<le> 54" using assms(2) by (auto simp: PBUF_TRANSPORT_def PBUF_IP_def PBUF_LINK_def PBUF_RAW_def)
  have "building E (pool_used E s) s 0 0 [] len" "plen (pbufs s) [] + len < 65536"
    using assms(3) by (simp_all add: building_def)
  from pbuf_alloc_pool_spec [OF assms(1) this off disjI1 [OF refl]] obtain p s' where
    r: "pbuf_alloc_pool E 0 0 len layer s = Some (p, s')" "net_inv E s'" "\<forall>a \<in> pool_used E s. pbufs s' a = pbufs s a"
      "if p = 0 then pool_used E s' = pool_used E s
       else \<exists>zs. building E (pool_used E s) s' p (last zs) zs 0 \<and> zs \<noteq> [] \<and> plen (pbufs s') zs = plen (pbufs s) [] + len"
    by blast
  have "pbuf_alloc E layer len PBUF_POOL s = Some (p, s')"
    using r(1) off by (simp add: pbuf_alloc_def pbuf_types)
  moreover have "\<exists>xs. packet s' p xs \<and> plen (pbufs s') xs = len \<and> separate s' xs \<and>
       pool_used E s' = pool_used E s \<union> set xs \<and> pool_used E s \<inter> set xs = {} \<and> (\<forall>a \<in> set xs. pool_pbuf s' a)" if p: "p \<noteq> 0"
  proof -
    obtain zs where zs: "building E (pool_used E s) s' p (last zs) zs 0" "plen (pbufs s') zs = len"
      using r(4) p by (simp only: if_False plen_simps add_0) blast
    then show ?thesis using building_separate [OF zs(1) r(2)] assms(3)
      by (intro exI [of _ zs]) (auto simp: building_def packet_def totsr_0)
  qed
  ultimately show ?thesis using r(2-4) by auto
qed

text \<open>
  C25. \<open>pbuf_alloc\<close> of a pool packet returns: either a packet of exactly the requested length, whose pbufs
  come fresh from the pool, carry one reference each and hold payloads that do not overlap, or
  \<open>NULL\<close>, with every pbuf taken on the way given back. No pbuf in use before is touched.
\<close>
theorem pbuf_alloc_pool_packet:
  assumes "net_inv E s" "layer \<in> {PBUF_TRANSPORT, PBUF_IP, PBUF_LINK, PBUF_RAW}" "len < 65536"
  shows "\<exists>p s'. pbuf_alloc E layer len PBUF_POOL s = Some (p, s') \<and> net_inv E s' \<and>
    (\<forall>a \<in> pool_used E s. pbufs s' a = pbufs s a) \<and>
    (if p = 0 then pool_used E s' = pool_used E s
     else \<exists>xs. packet s' p xs \<and> plen (pbufs s') xs = len \<and> separate s' xs \<and>
       pool_used E s' = pool_used E s \<union> set xs \<and> pool_used E s \<inter> set xs = {} \<and> (\<forall>a \<in> set xs. pool_pbuf s' a))"
  using pbuf_alloc_pool_fresh [OF assms] .

theorem pbuf_alloc_pool_packet_witness:
  "\<exists>p s'. pbuf_alloc net_env PBUF_TRANSPORT 700 PBUF_POOL net_boot = Some (p, s') \<and>
    (p \<noteq> 0 \<longrightarrow> (\<exists>xs. packet s' p xs \<and> plen (pbufs s') xs = 700 \<and> pool_used net_env s' = set xs))"
  using pbuf_alloc_pool_packet [OF net_boot_inv(1), of PBUF_TRANSPORT 700] by (auto simp: net_boot_inv(2)) blast

lemma pbuf_free_spec:
  assumes "net_inv E s" "pchain s p xs" "p \<noteq> 0" "plain s xs" "\<forall>a \<in> set xs. held E s a"
  shows "\<exists>us vs s'. xs = us @ vs \<and> (\<forall>a \<in> set us. pb_ref (pbufs s a) = 1) \<and> (vs \<noteq> [] \<longrightarrow> pb_ref (pbufs s (hd vs)) \<noteq> 1) \<and>
    pbuf_free E p s = Some (of_nat (length us), s') \<and> net_inv E s' \<and> mem_bytes s' = mem_bytes s \<and>
    pool_used E s' = pool_used E s - {a \<in> set us. from_pool s a} \<and>
    ref_used E s' = ref_used E s - {a \<in> set us. from_ref s a} \<and>
    heap_live (mem_heap s') = heap_live (mem_heap s) - {x. fst x \<in> set us \<and> from_heap s (fst x)} \<and>
    (vs \<noteq> [] \<longrightarrow> pbufs s' (hd vs) = (pbufs s (hd vs))\<lparr>pb_ref := pb_ref (pbufs s (hd vs)) - 1\<rparr>) \<and>
    (\<forall>a. a \<notin> set us \<and> (vs \<noteq> [] \<longrightarrow> a \<noteq> hd vs) \<longrightarrow> pbufs s' a = pbufs s a)"
proof -
  define us where "us = takeWhile (\<lambda>a. pb_ref (pbufs s a) = 1) xs"
  define vs where "vs = dropWhile (\<lambda>a. pb_ref (pbufs s a) = 1) xs"
  have xs: "xs = us @ vs" by (simp add: us_def vs_def)
  have one: "\<forall>a \<in> set us. pb_ref (pbufs s a) = 1" by (auto simp: us_def dest: set_takeWhileD)
  have two: "vs \<noteq> [] \<longrightarrow> pb_ref (pbufs s (hd vs)) \<noteq> 1" unfolding vs_def using hd_dropWhile by blast
  have pl: "plain s us" using assms(4) xs by (auto simp: plain_def)
  have d: "distinct us" "set us \<inter> set vs = {}" using pchain_distinct [OF assms(2)] xs by auto
  note st = release_all_storage [OF assms(1) pl d(1)] release_all_pbufs [OF pl, of E]
  have held: "\<forall>a \<in> set us. held E s a" using assms(5) xs by auto
  let ?s = "drop_ref vs (release_all E us s)"
  have "pbuf_free E p s = Some (of_nat (length us), ?s)"
    using pbuf_free_loop_eq [OF assms(2,4), of E 0] assms(3) by (simp add: pbuf_free_def us_def vs_def)
  moreover have "net_inv E ?s" "mem_bytes ?s = mem_bytes s" "pool_used E ?s = pool_used E s - {a \<in> set us. from_pool s a}"
    "ref_used E ?s = ref_used E s - {a \<in> set us. from_ref s a}"
    "heap_live (mem_heap ?s) = heap_live (mem_heap s) - {x. fst x \<in> set us \<and> from_heap s (fst x)}"
    using st held by (auto simp: drop_ref_def split: list.splits)
  moreover have "vs \<noteq> [] \<longrightarrow> pbufs ?s (hd vs) = (pbufs s (hd vs))\<lparr>pb_ref := pb_ref (pbufs s (hd vs)) - 1\<rparr>"
    using st(2) d(2) by (cases vs) (auto simp: drop_ref_def)
  moreover have "\<forall>a. a \<notin> set us \<and> (vs \<noteq> [] \<longrightarrow> a \<noteq> hd vs) \<longrightarrow> pbufs ?s a = pbufs s a"
    using st(2) by (cases vs) (auto simp: drop_ref_def)
  ultimately show ?thesis using xs one two by blast
qed

text \<open>
  C26. \<open>pbuf_free\<close> returns on every packet. It releases the pbufs from the head on as long as the
  reference it drops is the last one, takes one reference from the pbuf after those, and changes nothing
  else: the pool loses exactly the released pool pbufs, the heap the released heap pbufs.
\<close>
theorem pbuf_free_releases:
  assumes "net_inv E s" "pchain s p xs" "p \<noteq> 0" "plain s xs" "\<forall>a \<in> set xs. held E s a"
  shows "\<exists>us vs s'. xs = us @ vs \<and> (\<forall>a \<in> set us. pb_ref (pbufs s a) = 1) \<and> (vs \<noteq> [] \<longrightarrow> pb_ref (pbufs s (hd vs)) \<noteq> 1) \<and>
    pbuf_free E p s = Some (of_nat (length us), s') \<and> net_inv E s' \<and> mem_bytes s' = mem_bytes s \<and>
    pool_used E s' = pool_used E s - {a \<in> set us. from_pool s a} \<and>
    ref_used E s' = ref_used E s - {a \<in> set us. from_ref s a} \<and>
    heap_live (mem_heap s') = heap_live (mem_heap s) - {x. fst x \<in> set us \<and> from_heap s (fst x)} \<and>
    (vs \<noteq> [] \<longrightarrow> pbufs s' (hd vs) = (pbufs s (hd vs))\<lparr>pb_ref := pb_ref (pbufs s (hd vs)) - 1\<rparr>) \<and>
    (\<forall>a. a \<notin> set us \<and> (vs \<noteq> [] \<longrightarrow> a \<noteq> hd vs) \<longrightarrow> pbufs s' a = pbufs s a)"
  using pbuf_free_spec [OF assms] .

lemma net_boot_pools:
  "memp_tab (mem_pools net_boot) MEMP_PBUF_POOL = 536933800" "memp_next (mem_pools net_boot) 536933800 = 536933284"
proof -
  have "[0..<length net_pools] = [0..<8] @ [8]" using upt_Suc_append [of 0 8] by (simp add: net_pools_def)
  then obtain m where "mem_pools net_boot = memp_init_pool 8 (net_pools ! 8) m"
    by (simp add: net_boot_def memp_init_def)
  moreover have "net_pools ! 8 = \<lparr>memp_size = 516, memp_num = 3, memp_base = 536932768\<rparr>" by (simp add: net_pools_def)
  ultimately show "memp_tab (mem_pools net_boot) MEMP_PBUF_POOL = 536933800" "memp_next (mem_pools net_boot) 536933800 = 536933284"
    by (simp_all add: memp_init_pool_def LWIP_MEM_ALIGN_def MEMP_PBUF_POOL_def MEMP_SIZE_def numeral_3_eq_3)
qed

text \<open>A packet of seven hundred bytes takes two of the pool's elements.\<close>

lemma net_boot_alloc:
  obtains p s xs where "p \<noteq> 0" "net_inv net_env s" "packet s p xs" "plen (pbufs s) xs = 700"
    "pool_used net_env s = set xs" "\<forall>a \<in> set xs. pool_pbuf s a"
proof -
  have "PBUF_RAW \<in> {PBUF_TRANSPORT, PBUF_IP, PBUF_LINK, PBUF_RAW}" "(700 :: nat) < 65536" by simp_all
  from pbuf_alloc_pool_fresh [OF net_boot_inv(1) this] obtain p s where
    ps: "pbuf_alloc net_env PBUF_RAW 700 PBUF_POOL net_boot = Some (p, s)" "net_inv net_env s"
      "if p = 0 then pool_used net_env s = pool_used net_env net_boot
       else \<exists>xs. packet s p xs \<and> plen (pbufs s) xs = 700 \<and> separate s xs \<and>
         pool_used net_env s = pool_used net_env net_boot \<union> set xs \<and> pool_used net_env net_boot \<inter> set xs = {} \<and>
         (\<forall>a \<in> set xs. pool_pbuf s a)"
    by blast
  have l: "MEMP_PBUF_POOL < length net_pools" by (simp add: MEMP_PBUF_POOL_def net_pools_def)
  let ?m = "(mem_pools net_boot)\<lparr>memp_tab := (memp_tab (mem_pools net_boot))(MEMP_PBUF_POOL := 536933284)\<rparr>"
  have one: "memp_malloc (memp_pools net_env) MEMP_PBUF_POOL (mem_pools net_boot) = (536933800, ?m)"
    using l by (simp add: memp_malloc_def do_memp_malloc_pool_def net_env_def net_boot_pools MEMP_SIZE_def)
  have two: "fst (memp_malloc (memp_pools net_env) MEMP_PBUF_POOL ?m) = 536933284"
    using l by (simp add: memp_malloc_def do_memp_malloc_pool_def net_env_def MEMP_SIZE_def)
  have "p \<noteq> 0"
  proof -
    have "pbuf_alloc_pool net_env 0 0 700 0 net_boot = Some (p, s)"
      using ps(1) by (simp add: pbuf_alloc_def pbuf_types PBUF_RAW_def)
    moreover obtain m2 where "memp_malloc (memp_pools net_env) MEMP_PBUF_POOL ?m = (536933284, m2)"
      using two by (cases "memp_malloc (memp_pools net_env) MEMP_PBUF_POOL ?m") simp
    ultimately show ?thesis
      by (auto simp: pbuf_alloc_pool_step [OF one] pbuf_alloc_pool_step LWIP_MEM_ALIGN_SIZE_def usub32_def u16_sub_def grow_def
          pbuf_init_alloced_pbuf_def Let_def split: if_splits)
  qed
  then show thesis using ps(2,3) that by (simp add: net_boot_inv(2)) blast
qed

theorem pbuf_free_releases_witness:
  "\<exists>p s s'. p \<noteq> 0 \<and> pool_used net_env s \<noteq> {} \<and> map_option snd (pbuf_free net_env p s) = Some s' \<and> pool_used net_env s' = {}"
proof -
  obtain p s xs where ps: "p \<noteq> 0" "net_inv net_env s" "packet s p xs" "plen (pbufs s) xs = 700"
    "pool_used net_env s = set xs" "\<forall>a \<in> set xs. pool_pbuf s a" by (rule net_boot_alloc)
  have "plain s xs" "\<forall>a \<in> set xs. held net_env s a" "pchain s p xs" "\<forall>a \<in> set xs. pb_ref (pbufs s a) = 1 \<and> from_pool s a"
    using ps by (auto simp: plain_def held_def packet_def pool_pbuf_source pool_pbuf_def)
  with pbuf_free_releases [OF ps(2) this(3) ps(1) this(1,2)] obtain us vs s' where
    "xs = us @ vs" "vs \<noteq> [] \<longrightarrow> pb_ref (pbufs s (hd vs)) \<noteq> 1" "pbuf_free net_env p s = Some (of_nat (length us), s')"
    "pool_used net_env s' = pool_used net_env s - {a \<in> set us. from_pool s a}" "\<forall>a \<in> set xs. pb_ref (pbufs s a) = 1 \<and> from_pool s a"
    by blast
  moreover from this have "vs = []" by (cases vs) auto
  moreover have "xs \<noteq> []" using ps(1,3) by (auto simp: packet_def)
  ultimately show ?thesis using ps(1,5) by (intro exI [of _ p] exI [of _ s] exI [of _ s']) auto
qed

text \<open>
  C34. \<open>pbuf_cat\<close> makes one packet of two: the bytes of the tail follow those of the head, every total
  length is right again, and no reference count, no pbuf of the tail and no byte of memory changes;
  \<open>pbuf_chain\<close> in addition takes one reference on the tail.
\<close>
theorem pbuf_cat_concatenates:
  assumes "packet s h xs" "h \<noteq> 0" "packet s t ys" "t \<noteq> 0" "set xs \<inter> set ys = {}"
    and "plen (pbufs s) xs + plen (pbufs s) ys < 65536"
  shows "\<exists>s'. pbuf_cat h t s = Some s' \<and> packet s' h (xs @ ys) \<and> pdata s' (xs @ ys) = pdata s xs @ pdata s ys \<and>
    (\<forall>a. a \<notin> set xs \<longrightarrow> pbufs s' a = pbufs s a) \<and> (\<forall>a. pb_ref (pbufs s' a) = pb_ref (pbufs s a)) \<and>
    mem_bytes s' = mem_bytes s \<and>
    pbuf_chain h t s = Some (pb_upd t (\<lambda>b. b\<lparr>pb_ref := pb_ref (pbufs s t) + 1\<rparr>) s')"
proof -
  obtain s' where "pbuf_cat h t s = Some s'" "packet s' h (xs @ ys)" "pdata s' (xs @ ys) = pdata s xs @ pdata s ys"
    "\<forall>a. a \<notin> set xs \<longrightarrow> pbufs s' a = pbufs s a" "\<forall>a. pb_ref (pbufs s' a) = pb_ref (pbufs s a)" "mem_bytes s' = mem_bytes s"
    using pbuf_cat_packet [OF assms] by blast
  then show ?thesis using assms(4) by (simp add: pbuf_chain_def pbuf_ref_def pb_upd_def)
qed

theorem pbuf_cat_concatenates_witness:
  "\<exists>s'. pbuf_cat 1000 3000 net_two = Some s' \<and> packet s' 1000 [1000, 2000, 3000, 4000] \<and>
    pdata s' [1000, 2000, 3000, 4000] = pdata net_two [1000, 2000] @ pdata net_two [3000, 4000]"
  using pbuf_cat_concatenates [OF net_two_packets(1) _ net_two_packets(2)] by (auto simp: net_two_sel null_pbuf_def)

section \<open>Copying\<close>

text \<open>
  \<open>pbuf_copy_partial\<close> copies what the packet holds from the offset on, \<open>len\<close> bytes or up to its end,
  into the application's buffer, returns how many bytes that were, and writes no byte outside the
  buffer.
\<close>
theorem pbuf_copy_partial_reads:
  assumes "packet s p xs" "p \<noteq> 0" "dataptr \<noteq> 0" "len < 65536" "off < 65536"
    and "\<forall>x \<in> set xs. apart (dataptr, len) (pext s x)"
  defines "bs \<equiv> take len (drop off (pdata s xs))"
  shows "pbuf_copy_partial p dataptr len off s = Some (length bs, s\<lparr>mem_bytes := put_bytes dataptr bs (mem_bytes s)\<rparr>)"
  using copy_partial_loop_data [of s p xs off 0 len 0 dataptr] assms by (simp add: pbuf_copy_partial_def packet_def)

theorem pbuf_copy_partial_reads_witness:
  "\<exists>s'. pbuf_copy_partial 1000 9000 4 2 net_two = Some (4, s') \<and> mem_bytes s' 9002 = mem_bytes net_two 2100"
  using pbuf_copy_partial_reads [OF net_two_packets(1), of 9000 4 2]
  by (auto simp: net_two_sel null_pbuf_def pext_def apart_def put_bytes_def get_bytes_def upt_rec numeral_2_eq_2)

text \<open>
  C32. \<open>pbuf_take\<close> stores the application's bytes at the start of the packet, keeps the rest of it and all
  memory outside its payloads, and refuses data that is longer than the packet; reading them back
  with \<open>pbuf_copy_partial\<close> gives the bytes that were stored.
\<close>
theorem pbuf_take_round_trip:
  assumes "packet s p xs" "p \<noteq> 0" "src \<noteq> 0" "separate s xs" "len < 65536" "dst \<noteq> 0"
    and "\<forall>x \<in> set xs. apart (pext s x) (src, len)" "\<forall>x \<in> set xs. apart (dst, len) (pext s x)"
  shows "if plen (pbufs s) xs < len then pbuf_take p src len s = Some (ERR_MEM, s)
    else \<exists>m m'. pbuf_take p src len s = Some (ERR_OK, s\<lparr>mem_bytes := m\<rparr>) \<and>
      pdata (s\<lparr>mem_bytes := m\<rparr>) xs = get_bytes (mem_bytes s) src len @ drop len (pdata s xs) \<and>
      (\<forall>b. (\<forall>x \<in> set xs. \<not> within b (pext s x)) \<longrightarrow> m b = mem_bytes s b) \<and>
      pbuf_copy_partial p dst len 0 (s\<lparr>mem_bytes := m\<rparr>) = Some (len, s\<lparr>mem_bytes := m'\<rparr>) \<and>
      get_bytes m' dst len = get_bytes (mem_bytes s) src len"
proof (cases "plen (pbufs s) xs < len")
  case True
  then show ?thesis using assms(2,3) packet_tot_len [OF assms(1,2)] by (simp add: pbuf_take_def)
next
  case False
  have ch: "pchain s p xs" using assms(1) by (simp add: packet_def)
  obtain m where m: "take_loop src p len 0 s = Some (s\<lparr>mem_bytes := m\<rparr>)"
      "pdata (s\<lparr>mem_bytes := m\<rparr>) xs = get_bytes (mem_bytes s) src len @ drop len (pdata s xs)"
      "\<forall>b. (\<forall>x \<in> set xs. \<not> within b (pext s x)) \<longrightarrow> m b = mem_bytes s b"
    using take_loop_data [OF ch _ assms(4), of len src 0] False assms(7) by auto
  let ?s = "s\<lparr>mem_bytes := m\<rparr>"
  have "pchain ?s p xs" "plen (pbufs ?s) xs < 65536" "\<forall>x \<in> set xs. apart (dst + 0, len) (pext ?s x)"
    using packet_bytes [THEN iffD2, OF assms(1)] assms(8) by (auto simp: packet_def)
  from copy_partial_loop_data [OF this(1,2) _ _ _ this(3), of 0 0] assms(5)
  have "copy_partial_loop dst p len 0 0 0 ?s =
      Some (len, s\<lparr>mem_bytes := put_bytes dst (get_bytes (mem_bytes s) src len) m\<rparr>)"
    by (simp add: m(2))
  moreover have "get_bytes (put_bytes dst (get_bytes (mem_bytes s) src len) m) dst len = get_bytes (mem_bytes s) src len"
    by (rule nth_equalityI) (auto simp: put_bytes_def get_bytes_def)
  ultimately show ?thesis
    using False assms(2,3,6) packet_tot_len [OF assms(1,2)] m by (auto simp: pbuf_take_def pbuf_copy_partial_def)
qed

theorem pbuf_take_round_trip_witness:
  "\<exists>m. pbuf_take 1000 9000 6 net_two = Some (ERR_OK, net_two\<lparr>mem_bytes := m\<rparr>) \<and> m 500 = mem_bytes net_two 500"
proof -
  have "\<forall>x \<in> set [1000, 2000]. apart (pext net_two x) (9000, 6)" "\<forall>x \<in> set [1000, 2000]. apart (8000, 6) (pext net_two x)"
    "\<forall>x \<in> set [1000, 2000]. \<not> within 500 (pext net_two x)" "\<not> plen (pbufs net_two) [1000, 2000] < 6"
    by (simp_all add: pext_def apart_def within_def net_two_sel null_pbuf_def)
  then show ?thesis
    using pbuf_take_round_trip [OF net_two_packets(1) _ _ net_two_packets(3), of 9000 6 8000] by auto
qed

text \<open>
  C35. \<open>pbuf_memfind\<close> returns the first offset, from the given one on, at which the packet holds the
  searched bytes, and \<open>0xFFFF\<close> when there is none.
\<close>
theorem pbuf_memfind_first:
  assumes "packet s p xs" "p \<noteq> 0" "0 < n" "n < 65536" "off < 65536"
  shows "pbuf_memfind p mem n off s = Some
    (case find (\<lambda>j. take n (drop j (pdata s xs)) = get_bytes (mem_bytes s) mem n) [off..<Suc (plen (pbufs s) xs) - n] of
       None \<Rightarrow> 0xFFFF | Some j \<Rightarrow> j)"
proof (cases "n + off \<le> plen (pbufs s) xs")
  case True
  have "plen (pbufs s) xs < 65536" using assms(1) by (simp add: packet_def)
  then have "u16_sub (plen (pbufs s) xs) n = plen (pbufs s) xs - n" using True by (simp add: u16_sub_le)
  moreover have "Suc (plen (pbufs s) xs) - n = Suc (plen (pbufs s) xs - n)" using True by simp
  ultimately show ?thesis
    using memfind_loop_data [OF assms(1,2) _ assms(3), of off mem] packet_tot_len [OF assms(1,2)] True
    by (simp add: pbuf_memfind_def)
next
  case False
  then show ?thesis using packet_tot_len [OF assms(1,2)] by (simp add: pbuf_memfind_def)
qed

theorem pbuf_memfind_first_witness: "pbuf_memfind 1000 2100 2 2 net_two = Some 4"
  using pbuf_memfind_first [OF net_two_packets(1), of 2 2 2100]
  by (simp add: net_two_sel null_pbuf_def get_bytes_def)

text \<open>
  C31. \<open>pbuf_copy\<close> between packets whose pbufs all hold data copies the whole source to the start of the
  destination, across all pbuf boundaries of both, leaves the rest of the destination alone and writes
  nowhere else; a destination that is too short is refused before any byte is written.
\<close>
theorem pbuf_copy_packet:
  assumes "packet s t ts" "t \<noteq> 0" "positive s ts" "packet s f fs" "f \<noteq> 0" "positive s fs" "separate s ts"
    and "\<forall>x \<in> set ts. \<forall>y \<in> set fs. apart (pext s x) (pext s y)"
  shows "if plen (pbufs s) ts < plen (pbufs s) fs then pbuf_copy t f s = Some (ERR_ARG, s)
    else \<exists>m. pbuf_copy t f s = Some (ERR_OK, s\<lparr>mem_bytes := m\<rparr>) \<and>
      pdata (s\<lparr>mem_bytes := m\<rparr>) ts = pdata s fs @ drop (plen (pbufs s) fs) (pdata s ts) \<and>
      (\<forall>b. (\<forall>x \<in> set ts. \<not> within b (pext s x)) \<longrightarrow> m b = mem_bytes s b)"
proof (cases "plen (pbufs s) ts < plen (pbufs s) fs")
  case True
  then show ?thesis using packet_tot_len [OF assms(1,2)] packet_tot_len [OF assms(4,5)] assms(5)
    by (simp add: pbuf_copy_def pbuf_copy_partial_pbuf_def)
next
  case False
  obtain ts' where ts: "ts = t # ts'" using assms(1,2) pchain_head [of s t ts] by (auto simp: packet_def)
  obtain fs' where fs: "fs = f # fs'" using assms(4,5) pchain_head [of s f fs] by (auto simp: packet_def)
  have pos: "0 < plen (pbufs s) fs" "0 < pb_len (pbufs s t)" "0 < pb_len (pbufs s f)"
    using assms(3,6) by (auto simp: ts fs)
  have "\<exists>m. copy_pbuf_loop t 0 f 0 (plen (pbufs s) fs) s = Some (ERR_OK, s\<lparr>mem_bytes := m\<rparr>) \<and>
    pdata (s\<lparr>mem_bytes := m\<rparr>) ([] @ t # ts') = overlay (pdata s ([] @ t # ts')) (plen (pbufs s) [] + 0)
      (take (plen (pbufs s) fs) (drop (plen (pbufs s) [] + 0) (pdata s ([] @ f # fs')))) \<and>
    (\<forall>b. (\<forall>x \<in> set ([] @ t # ts'). \<not> within b (pext s x)) \<longrightarrow> m b = mem_bytes s b)"
    by (rule copy_pbuf_loop_data) (use assms pos False in \<open>simp_all add: packet_def ts fs\<close>)
  then obtain m where m: "copy_pbuf_loop t 0 f 0 (plen (pbufs s) fs) s = Some (ERR_OK, s\<lparr>mem_bytes := m\<rparr>)"
    "pdata (s\<lparr>mem_bytes := m\<rparr>) ts = overlay (pdata s ts) 0 (take (plen (pbufs s) fs) (pdata s fs))"
    "\<forall>b. (\<forall>x \<in> set ts. \<not> within b (pext s x)) \<longrightarrow> m b = mem_bytes s b"
    unfolding ts fs by auto
  moreover have "take (plen (pbufs s) fs) (pdata s fs) = pdata s fs" by simp
  ultimately have "pdata (s\<lparr>mem_bytes := m\<rparr>) ts = pdata s fs @ drop (plen (pbufs s) fs) (pdata s ts)"
    by (simp add: overlay_def)
  then show ?thesis using m(1,3) False assms(2,5) packet_tot_len [OF assms(1,2)] packet_tot_len [OF assms(4,5)]
    by (auto simp: pbuf_copy_def pbuf_copy_partial_pbuf_def)
qed

theorem pbuf_copy_packet_witness:
  "\<exists>m. pbuf_copy 1000 3000 net_two = Some (ERR_OK, net_two\<lparr>mem_bytes := m\<rparr>) \<and>
    pdata (net_two\<lparr>mem_bytes := m\<rparr>) [1000, 2000] = pdata net_two [3000, 4000] @ drop 4 (pdata net_two [1000, 2000])"
proof -
  have "positive net_two [1000, 2000]" "positive net_two [3000, 4000]"
    "\<forall>x \<in> set [1000, 2000]. \<forall>y \<in> set [3000, 4000]. apart (pext net_two x) (pext net_two y)"
    "plen (pbufs net_two) [3000, 4000] = 4" "plen (pbufs net_two) [1000, 2000] = 7"
    by (simp_all add: pext_def apart_def net_two_sel null_pbuf_def)
  then show ?thesis
    using pbuf_copy_packet [OF net_two_packets(1) _ _ net_two_packets(2) _ _ net_two_packets(3)] by auto
qed

text \<open>
  \<open>pbuf_copy_partial_pbuf\<close> does not walk to the pbuf that holds its offset. With an offset beyond the
  first pbuf of the destination the free room of that pbuf is computed modulo \<open>2^32\<close>, and the source is
  written behind the payload of the first pbuf, although the total length of the destination had been
  checked: a byte outside every payload of the destination changes.
\<close>
theorem pbuf_copy_partial_pbuf_escapes:
  assumes "t \<noteq> 0" "f \<noteq> 0" "pb_len (pbufs s t) < off" "off < 65536" "pb_next (pbufs s f) = 0"
    and "n \<le> pb_len (pbufs s f)" "pb_tot_len (pbufs s f) = pb_len (pbufs s f)" "pb_len (pbufs s f) < 65536" "0 < n" "off + n \<le> pb_tot_len (pbufs s t)" "pb_tot_len (pbufs s t) < 65536"
  shows "pbuf_copy_partial_pbuf t f n off s = Some (ERR_OK, s\<lparr>mem_bytes :=
    put_bytes (pb_payload (pbufs s t) + off) (get_bytes (mem_bytes s) (pb_payload (pbufs s f)) n) (mem_bytes s)\<rparr>)"
proof -
  have "usub32 (pb_len (pbufs s t)) off = 4294967296 - (off - pb_len (pbufs s t))"
    using assms(3,4) by (simp add: usub32_def)
  then have "usub32 (pb_len (pbufs s t)) off \<ge> n" "usub32 (pb_len (pbufs s f)) 0 = pb_len (pbufs s f)"
    using assms by (auto simp: usub32_def)
  then show ?thesis using assms
    by (simp add: pbuf_copy_partial_pbuf_def copy_pbuf_loop.simps [of t] u16_sub_def MEMCPY_def Let_def)
qed

theorem pbuf_copy_partial_pbuf_escapes_witness:
  "\<exists>s'. pbuf_copy_partial_pbuf 1000 4000 2 5 net_two = Some (ERR_OK, s') \<and> mem_bytes s' 1105 \<noteq> mem_bytes net_two 1105"
  using pbuf_copy_partial_pbuf_escapes [of 1000 4000 net_two 5 2]
  by (auto simp: net_two_sel null_pbuf_def get_bytes_def put_bytes_def)

section \<open>Size changes\<close>

text \<open>
  C36. On a pbuf whose payload lies behind its struct, \<open>pbuf_add_header\<close> either fails and changes nothing,
  exactly when the header would reach into the struct or the total length would pass \<open>0xFFFF\<close>, or it
  moves the payload down by the header, never below the struct, and \<open>pbuf_remove_header\<close> undoes it.
\<close>
theorem pbuf_header_round_trip:
  assumes "p \<noteq> 0" "0 < n" "n \<le> 65535" "contiguous s p" "n \<le> pb_payload (pbufs s p)" "pb_payload (pbufs s p) < 4294967296"
    and "pb_len (pbufs s p) \<le> pb_tot_len (pbufs s p)" "pb_tot_len (pbufs s p) < 65536"
  shows "(if pb_tot_len (pbufs s p) + n < 65536 \<and> p + SIZEOF_STRUCT_PBUF + n \<le> pb_payload (pbufs s p)
    then \<exists>s'. pbuf_add_header p n s = (0, s') \<and> p + SIZEOF_STRUCT_PBUF \<le> pb_payload (pbufs s' p) \<and>
      pb_payload (pbufs s' p) + n = pb_payload (pbufs s p) \<and> pb_len (pbufs s' p) = pb_len (pbufs s p) + n \<and>
      pb_tot_len (pbufs s' p) = pb_tot_len (pbufs s p) + n \<and> mem_bytes s' = mem_bytes s \<and>
      pbuf_remove_header p n s' = (0, s)
    else pbuf_add_header p n s = (1, s))"
proof (cases "pb_tot_len (pbufs s p) + n < 65536 \<and> p + SIZEOF_STRUCT_PBUF + n \<le> pb_payload (pbufs s p)")
  case True
  define s' where "s' = pb_upd p (\<lambda>b. b\<lparr>pb_payload := pb_payload b - n, pb_len := pb_len b + n, pb_tot_len := pb_tot_len b + n\<rparr>) s"
  have "pbuf_add_header p n s = (0, s')"
    using pbuf_add_header_eq [OF assms(1-6,8)] True assms(7) by (simp add: s'_def pb_upd_def)
  moreover have "pbuf_remove_header p n s' = (0, s)"
    using pbuf_remove_header_eq [of p n s'] assms True by (simp add: s'_def pb_upd_def)
  ultimately show ?thesis using True by (auto simp: s'_def)
next
  case False
  then show ?thesis using pbuf_add_header_eq [OF assms(1-6,8)] by (auto split: if_splits)
qed

theorem pbuf_header_round_trip_witness:
  "(\<exists>s'. pbuf_add_header 1000 14 net_two = (0, s') \<and> pbuf_remove_header 1000 14 s' = (0, net_two)) \<and>
    pbuf_add_header 1000 90 net_two = (1, net_two)"
  using pbuf_header_round_trip [of 1000 14 net_two] pbuf_header_round_trip [of 1000 90 net_two]
  by (auto simp: net_two_sel null_pbuf_def contiguous_def pbuf_types)

text \<open>
  C30. \<open>pbuf_realloc\<close> to a shorter length returns and leaves a packet of exactly that length, which holds the
  first bytes of the old one; the pbufs behind the new last one lose the reference that the packet
  held, and of those only the ones without another reference go back to the pool.
\<close>
theorem pbuf_realloc_truncates:
  assumes "packet s p xs" "p \<noteq> 0" "n < plen (pbufs s) xs" "net_inv E s" "plain s xs"
    and "\<forall>a \<in> set xs. held E s a" "\<forall>a \<in> set xs. from_heap s a \<longrightarrow> heap_fit s a"
  shows "\<exists>us q vs s'. xs = us @ q # vs \<and> pbuf_realloc E p n s = Some s' \<and> packet s' p (us @ [q]) \<and>
    pdata s' (us @ [q]) = take n (pdata s xs) \<and> net_inv E s' \<and> mem_bytes s' = mem_bytes s \<and>
    pool_used E s' = pool_used E s - {a \<in> set (takeWhile (\<lambda>a. pb_ref (pbufs s a) = 1) vs). from_pool s a}"
  using pbuf_realloc_packet [OF assms] .

theorem pbuf_realloc_truncates_witness:
  "\<exists>p s s' xs. p \<noteq> 0 \<and> pb_tot_len (pbufs s p) = 700 \<and> pbuf_realloc net_env p 300 s = Some s' \<and> packet s' p xs \<and>
    plen (pbufs s') xs = 300"
proof -
  obtain p s xs where ps: "p \<noteq> 0" "net_inv net_env s" "packet s p xs" "plen (pbufs s) xs = 700"
    "pool_used net_env s = set xs" "\<forall>a \<in> set xs. pool_pbuf s a" by (rule net_boot_alloc)
  have h: "plain s xs" "\<forall>a \<in> set xs. held net_env s a" "\<forall>a \<in> set xs. from_heap s a \<longrightarrow> heap_fit s a" "300 < plen (pbufs s) xs"
    using ps by (auto simp: plain_def held_def pool_pbuf_source)
  obtain us q s' where r: "pbuf_realloc net_env p 300 s = Some s'" "packet s' p (us @ [q])" "pdata s' (us @ [q]) = take 300 (pdata s xs)"
    using pbuf_realloc_truncates [OF ps(3,1) h(4) ps(2) h(1-3)] by blast
  have "plen (pbufs s') (us @ [q]) = length (pdata s' (us @ [q]))" by (rule length_pdata [symmetric])
  also have "\<dots> = 300" using r(3) ps(4) by simp
  finally show ?thesis using r(1,2) ps(1) packet_tot_len [OF ps(3,1)] ps(4)
    by (intro exI [of _ p] exI [of _ s] exI [of _ s'] exI [of _ "us @ [q]"]) simp
qed

end
