(* ===== verification/Lwip_Ethernetif.thy ===== *)
theory Lwip_Ethernetif
  imports Emac_Queue Lwip_Pbuf_Spec
begin

text \<open>
  The network interface driver of the port, \<open>lwIP/port/ethernetif.c\<close>, which joins the EMAC's descriptor
  rings to the packet buffers of lwIP, with the \<open>struct netif\<close> of \<open>lwip/netif.h\<close> that it fills in.
\<close>

section \<open>The interface\<close>

definition NETIF_FLAG_UP :: u8 where "NETIF_FLAG_UP = 0x01"
definition NETIF_FLAG_BROADCAST :: u8 where "NETIF_FLAG_BROADCAST = 0x02"
definition NETIF_FLAG_LINK_UP :: u8 where "NETIF_FLAG_LINK_UP = 0x04"
definition NETIF_FLAG_ETHARP :: u8 where "NETIF_FLAG_ETHARP = 0x08"
definition NETIF_FLAG_ETHERNET :: u8 where "NETIF_FLAG_ETHERNET = 0x10"
definition ETHARP_HWADDR_LEN :: nat where "ETHARP_HWADDR_LEN = 6"

text \<open>The functions that the fields of an interface point to.\<close>

datatype netif_fn = no_fn | ethernet_input_fn | etharp_output_fn | low_level_output_fn

text \<open>
  The fields of \<open>struct netif\<close> under this configuration: one IPv4 interface or more, no IPv6, no status
  callbacks, no statistics. Addresses are in network byte order.
\<close>

record netif =
  nif_next :: nat
  ip_addr :: u32
  netmask :: u32
  gw :: u32
  nif_input :: netif_fn
  nif_output :: netif_fn
  nif_linkoutput :: netif_fn
  nif_state :: nat
  client_data :: "nat list"
  mtu :: nat
  hwaddr :: "u8 list"
  hwaddr_len :: nat
  nif_flags :: u8
  nif_name :: string
  nif_num :: nat

text \<open>
  The board: the EMAC with its driver, lwIP's memory, the interface, the target of the pointer in each
  \<open>struct ethernetif\<close>, and the interrupts enabled in the NVIC.
\<close>

datatype eth_addr_ptr = no_addr | netif_hwaddr

record board =
  b_emac :: emac
  b_net :: net
  b_netif :: netif
  ethaddr :: "nat \<Rightarrow> eth_addr_ptr"
  nvic_iser :: "nat set"

definition EMAC_TX_IRQn :: nat where "EMAC_TX_IRQn = 66"
definition EMAC_RX_IRQn :: nat where "EMAC_RX_IRQn = 67"

definition NVIC_EnableIRQ :: "nat \<Rightarrow> board \<Rightarrow> board" where
  "NVIC_EnableIRQ n s = s\<lparr>nvic_iser := insert n (nvic_iser s)\<rparr>"

section \<open>Initialisation\<close>

definition on_emac :: "(emac \<Rightarrow> emac) \<Rightarrow> board \<Rightarrow> board" where
  "on_emac f s = s\<lparr>b_emac := f (b_emac s)\<rparr>"

definition phy_layer_init :: "emac_hw \<Rightarrow> board \<Rightarrow> board" where
  "phy_layer_init hw = on_emac (\<lambda>m. snd (EMAC_PhyInit hw m))"

definition mac_layer_init :: "emac_layout \<Rightarrow> u32 \<Rightarrow> board \<Rightarrow> board" where
  "mac_layer_init L mac_addr s =
    (let s = on_emac (EMAC_Open L mac_addr) s;
         s = NVIC_EnableIRQ EMAC_TX_IRQn s;
         s = NVIC_EnableIRQ EMAC_RX_IRQn s;
         s = on_emac EMAC_ENABLE_TX s
     in on_emac EMAC_ENABLE_RX s)"

definition low_level_init :: "emac_layout \<Rightarrow> emac_hw \<Rightarrow> u32 \<Rightarrow> board \<Rightarrow> board" where
  "low_level_init L hw mac_addr s =
    (let n = (b_netif s)\<lparr>hwaddr_len := ETHARP_HWADDR_LEN,
               hwaddr := read_bytes (mem (b_emac s)) mac_addr 6,
               mtu := 1500,
               nif_flags := NETIF_FLAG_BROADCAST OR NETIF_FLAG_ETHARP OR NETIF_FLAG_ETHERNET OR NETIF_FLAG_LINK_UP\<rparr>;
         s = s\<lparr>b_netif := n\<rparr>
     in phy_layer_init hw (mac_layer_init L mac_addr s))"

definition ethernetif_init :: "emac_layout \<Rightarrow> emac_hw \<Rightarrow> u32 \<Rightarrow> board \<Rightarrow> (err_t \<times> board) option" where
  "ethernetif_init L hw mac_addr s =
    (case mem_malloc 4 (mem_heap (b_net s)) of
       None \<Rightarrow> None
     | Some (ethernetif, h) \<Rightarrow>
         let s = s\<lparr>b_net := (b_net s)\<lparr>mem_heap := h\<rparr>\<rparr>
         in if ethernetif = 0 then Some (ERR_MEM, s)
         else let s = s\<lparr>b_netif := (b_netif s)\<lparr>nif_state := ethernetif, nif_name := ''en'',
                         nif_output := etharp_output_fn, nif_linkoutput := low_level_output_fn\<rparr>,
                       ethaddr := (ethaddr s)(ethernetif := netif_hwaddr)\<rparr>
              in Some (ERR_OK, low_level_init L hw mac_addr s))"

section \<open>Output and input\<close>

definition low_level_output :: "nat \<Rightarrow> board \<Rightarrow> err_t \<times> board" where
  "low_level_output p s =
    (let m = b_emac s;
         b = pbufs (b_net s) p;
         a = u32NextTxDesc m;
         status = u32Status1 (desc m a)
     in if status AND EMAC_DESC_OWN_EMAC = EMAC_DESC_OWN_EMAC then (ERR_USE, s)
     else let m = m\<lparr>mem := write_bytes (u32Data (desc m a)) (get_bytes (mem_bytes (b_net s)) (pb_payload b) (pb_len b)) (mem m)\<rparr>;
              m = upd_desc a (\<lambda>d. d\<lparr>u32Status2 := of_nat (pb_len b)\<rparr>) m;
              m = upd_desc a (\<lambda>d. d\<lparr>u32Status1 := u32Status1 d OR EMAC_DESC_OWN_EMAC\<rparr>) m;
              m = m\<lparr>u32NextTxDesc := u32Next (desc m a)\<rparr>
          in (ERR_OK, s\<lparr>b_emac := EMAC_TRIGGER_TX m\<rparr>))"





lemma on_emac_sel [simp]:
  "b_emac (on_emac f s) = f (b_emac s)" "b_net (on_emac f s) = b_net s" "b_netif (on_emac f s) = b_netif s"
  by (simp_all add: on_emac_def)

section \<open>The first pbuf of a pool packet\<close>



section \<open>Receiving\<close>


text \<open>The EMAC after \<open>low_level_input\<close> has looked at the interrupt status, and after it gave a descriptor back.\<close>

definition polled :: "emac \<Rightarrow> emac" where
  "polled m = emac_wr INTSTS (emac_rd INTSTS m AND 0xFFFF) m"

definition returned :: "emac \<Rightarrow> emac" where
  "returned m = upd_desc (u32CurrentRxDesc m) (\<lambda>d. d\<lparr>u32Status1 := EMAC_DESC_OWN_EMAC\<rparr>) m"

lemma polled_sel [simp]:
  "desc (polled m) = desc m" "mem (polled m) = mem m" "u32CurrentRxDesc (polled m) = u32CurrentRxDesc m"
  "u32CurrentTxDesc (polled m) = u32CurrentTxDesc m" "u32NextTxDesc (polled m) = u32NextTxDesc m"
  by (simp_all add: polled_def)


lemma returned_sel [simp]:
  "mem (returned m) = mem m" "u32CurrentRxDesc (returned m) = u32CurrentRxDesc m" "regs (returned m) = regs m"
  "u32CurrentTxDesc (returned m) = u32CurrentTxDesc m" "u32NextTxDesc (returned m) = u32NextTxDesc m"
  "desc (returned m) = (desc m)(u32CurrentRxDesc m := (desc m (u32CurrentRxDesc m))\<lparr>u32Status1 := EMAC_DESC_OWN_EMAC\<rparr>)"
  by (simp_all add: returned_def)








text \<open>A board with one frame of three bytes waiting and all pools full.\<close>

definition null_netif :: netif where
  "null_netif = \<lparr>nif_next = 0, ip_addr = 0, netmask = 0, gw = 0, nif_input = no_fn, nif_output = no_fn,
    nif_linkoutput = no_fn, nif_state = 0, client_data = [], mtu = 0, hwaddr = [], hwaddr_len = 0, nif_flags = 0,
    nif_name = [], nif_num = 0\<rparr>"

definition board_one :: board where
  "board_one = \<lparr>b_emac = board_rx1, b_net = net_boot, b_netif = null_netif, ethaddr = (\<lambda>_. no_addr), nvic_iser = {}\<rparr>"



section \<open>The input loop\<close>



lemma rx_index_polled [simp]: "rx_index L (polled m) = rx_index L m"
  by (simp add: rx_index_def)




section \<open>Sending\<close>

text \<open>The frame \<open>bs\<close> has been handed to the EMAC in the descriptor that was next.\<close>

definition frame_queued :: "emac_layout \<Rightarrow> emac \<Rightarrow> u8 list \<Rightarrow> emac \<Rightarrow> bool" where
  "frame_queued L m bs m' \<longleftrightarrow> (\<exists>n < 4. u32NextTxDesc m = desc_addr (tx_desc L) n \<and> emac_inv L m' \<and>
    (let d = desc m (desc_addr (tx_desc L) n) in
     read_bytes (mem m') (buf_addr (tx_buf L) n) (length bs) = bs \<and>
     desc m' = (desc m)(desc_addr (tx_desc L) n :=
       d\<lparr>u32Status1 := u32Status1 d OR EMAC_DESC_OWN_EMAC, u32Status2 := of_nat (length bs)\<rparr>) \<and>
     u32NextTxDesc m' = desc_addr (tx_desc L) (Suc n mod 4)))"

lemma low_level_output_spec:
  assumes inv: "emac_inv L (b_emac s)" and "pb_len (pbufs (b_net s) p) \<le> EMAC_MAX_PKT_SIZE"
  shows "if own (desc (b_emac s) (u32NextTxDesc (b_emac s))) then low_level_output p s = (ERR_USE, s)
    else \<exists>m. low_level_output p s = (ERR_OK, s\<lparr>b_emac := m\<rparr>) \<and>
      frame_queued L (b_emac s) (get_bytes (mem_bytes (b_net s)) (pb_payload (pbufs (b_net s) p)) (pb_len (pbufs (b_net s) p))) m"
proof -
  obtain n where n: "n < 4" "u32NextTxDesc (b_emac s) = desc_addr (tx_desc L) n"
    using inv by (auto simp: emac_inv_def in_ring_def)
  then have d: "u32Data (desc (b_emac s) (desc_addr (tx_desc L) n)) = buf_addr (tx_buf L) n"
    "u32Next (desc (b_emac s) (desc_addr (tx_desc L) n)) = desc_addr (tx_desc L) (Suc n mod 4)"
    using inv by (auto simp: emac_inv_def ring_ok_def Let_def)
  let ?b = "get_bytes (mem_bytes (b_net s)) (pb_payload (pbufs (b_net s) p)) (pb_len (pbufs (b_net s) p))"
  have "length ?b \<le> 2 ^ 32" using assms(2) by (simp add: EMAC_MAX_PKT_SIZE_def)
  note copy = write_bytes_dst [OF this, of "buf_addr (tx_buf L) n" "mem (b_emac s)", unfolded length_get_bytes]
  have keep: "emac_inv L (b_emac (snd (low_level_output p s)))" if "\<not> own (desc (b_emac s) (desc_addr (tx_desc L) n))"
    using inv that n in_ring_mod d
    by (intro emac_inv_same [OF inv])
       (auto simp: low_level_output_def Let_def EMAC_TRIGGER_TX_def same_links_def same_regs_def emac_inv_def in_ring_def)
  show ?thesis
  proof (cases "own (desc (b_emac s) (desc_addr (tx_desc L) n))")
    case True
    then show ?thesis using n by (simp add: low_level_output_def Let_def)
  next
    case False
    then have "low_level_output p s = (ERR_OK, s\<lparr>b_emac := b_emac (snd (low_level_output p s))\<rparr>)"
      using n by (simp add: low_level_output_def Let_def)
    moreover have "frame_queued L (b_emac s) ?b (b_emac (snd (low_level_output p s)))"
      unfolding frame_queued_def using n d copy keep False
      by (intro exI [of _ n] conjI) (auto simp: low_level_output_def Let_def EMAC_TRIGGER_TX_def)
    ultimately show ?thesis using False n by auto
  qed
qed

text \<open>
  C13. \<open>low_level_output\<close> of a packet whose first pbuf fits a frame buffer: it returns \<open>ERR_USE\<close> and changes
  nothing when the EMAC owns the descriptor at \<open>u32NextTxDesc\<close>. Otherwise the buffer of that descriptor
  holds the bytes of the first pbuf, the descriptor carries their number and belongs to the EMAC, and
  the ring moves on. So a packet in one pbuf is sent whole, and of a chained one only the first pbuf.
\<close>
theorem low_level_output_sends:
  assumes "emac_inv L (b_emac s)" "packet (b_net s) p (p # xs)" "pb_len (pbufs (b_net s) p) \<le> EMAC_MAX_PKT_SIZE"
  shows "\<exists>n < 4. u32NextTxDesc (b_emac s) = desc_addr (tx_desc L) n \<and>
    (let d = desc (b_emac s) (desc_addr (tx_desc L) n); len = pb_len (pbufs (b_net s) p) in
     case low_level_output p s of (err, s') \<Rightarrow>
      if own d then err = ERR_USE \<and> s' = s
      else err = ERR_OK \<and> b_net s' = b_net s \<and> emac_inv L (b_emac s') \<and>
        read_bytes (mem (b_emac s')) (buf_addr (tx_buf L) n) len = take len (pdata (b_net s) (p # xs)) \<and>
        desc (b_emac s') = (desc (b_emac s))(desc_addr (tx_desc L) n :=
          d\<lparr>u32Status1 := u32Status1 d OR EMAC_DESC_OWN_EMAC, u32Status2 := of_nat len\<rparr>) \<and>
        u32NextTxDesc (b_emac s') = desc_addr (tx_desc L) (Suc n mod 4) \<and>
        (xs = [] \<longrightarrow> read_bytes (mem (b_emac s')) (buf_addr (tx_buf L) n) (unat (u32Status2 (desc (b_emac s') (desc_addr (tx_desc L) n)))) =
          pdata (b_net s) [p]))"
proof -
  obtain n where n: "n < 4" "u32NextTxDesc (b_emac s) = desc_addr (tx_desc L) n"
    using assms(1) by (auto simp: emac_inv_def in_ring_def)
  have "unat (of_nat (pb_len (pbufs (b_net s) p)) :: u32) = pb_len (pbufs (b_net s) p)"
    using assms(3) by (intro unat_of_nat_u32) (simp add: EMAC_MAX_PKT_SIZE_def)
  moreover have "k = n" if "k < 4" "desc_addr (tx_desc L) n = desc_addr (tx_desc L) k" for k
    using desc_addr_inj [of k n "tx_desc L"] that n(1) by simp
  ultimately show ?thesis
    using low_level_output_spec [OF assms(1,3)] n by (intro exI [of _ n]) (auto simp: frame_queued_def Let_def)
qed

definition board_send :: board where
  "board_send = board_one\<lparr>b_emac := board_open, b_net := net_two\<rparr>"

theorem low_level_output_sends_witness:
  "fst (low_level_output 1000 board_send) = ERR_OK"
  using low_level_output_sends [of board_layout board_send 1000 "[2000]"] emac_inv_reach [OF board_layout_ok board_reach]
    net_two_packets(1) net_two_sel(1) board_tx_free
  by (auto simp: board_send_def EMAC_MAX_PKT_SIZE_def Let_def case_prod_beta)

end
