(* ===== verification/Lwip_Timeouts.thy ===== *)
theory Lwip_Timeouts
  imports Lwip_Pbuf_Spec "HOL-Library.Multiset"
begin

text \<open>
  The timeouts of \<open>lwIP/core/timeouts.c\<close> and the clock of the port, \<open>lwIP/port/sys_arch.c\<close>: a list of
  pending timeouts ordered by a 32-bit millisecond clock that wraps around, with its entries taken
  from the pool \<open>MEMP_SYS_TIMEOUT\<close>, and the cyclic timers of the stack built on top of it.
\<close>

section \<open>Model\<close>

definition LWIP_MAX_TIMEOUT :: u32 where "LWIP_MAX_TIMEOUT = 0x7fffffff"
definition SYS_TIMEOUTS_SLEEPTIME_INFINITE :: u32 where "SYS_TIMEOUTS_SLEEPTIME_INFINITE = 0xFFFFFFFF"

definition TIME_LESS_THAN :: "u32 \<Rightarrow> u32 \<Rightarrow> bool" where
  "TIME_LESS_THAN t compare_to \<longleftrightarrow> t - compare_to > LWIP_MAX_TIMEOUT"

definition TCP_TMR_INTERVAL :: u32 where "TCP_TMR_INTERVAL = 250"
definition IP_TMR_INTERVAL :: u32 where "IP_TMR_INTERVAL = 1000"
definition ARP_TMR_INTERVAL :: u32 where "ARP_TMR_INTERVAL = 1000"
definition DHCP_COARSE_TIMER_MSECS :: u32 where "DHCP_COARSE_TIMER_MSECS = 60 * 1000"
definition DHCP_FINE_TIMER_MSECS :: u32 where "DHCP_FINE_TIMER_MSECS = 500"

datatype cyclic_fn = tcp_tmr | ip_reass_tmr | etharp_tmr | dhcp_coarse_tmr | dhcp_fine_tmr

record lwip_cyclic_timer_t =
  interval_ms :: u32
  cyclic_handler :: cyclic_fn

definition lwip_cyclic_timers :: "lwip_cyclic_timer_t list" where
  "lwip_cyclic_timers =
    [\<lparr>interval_ms = TCP_TMR_INTERVAL, cyclic_handler = tcp_tmr\<rparr>,
     \<lparr>interval_ms = IP_TMR_INTERVAL, cyclic_handler = ip_reass_tmr\<rparr>,
     \<lparr>interval_ms = ARP_TMR_INTERVAL, cyclic_handler = etharp_tmr\<rparr>,
     \<lparr>interval_ms = DHCP_COARSE_TIMER_MSECS, cyclic_handler = dhcp_coarse_tmr\<rparr>,
     \<lparr>interval_ms = DHCP_FINE_TIMER_MSECS, cyclic_handler = dhcp_fine_tmr\<rparr>]"

text \<open>
  A handler is \<open>NULL\<close>, one of the two of this file, or a function of another module named by a number.
  The argument of \<open>lwip_cyclic_timer\<close> is the index of its table entry.
\<close>

datatype sys_timeout_handler = no_handler | lwip_cyclic_timer_h | tcpip_tcp_timer_h | other_handler nat

record sys_timeo =
  to_next :: nat
  to_time :: u32
  to_h :: sys_timeout_handler
  to_arg :: nat

text \<open>
  The globals of the module, the clock, the pools, the heads of the two TCP lists it reads, and the
  rest of the program's state as \<open>world\<close>.
\<close>

record 'w timers =
  timeos :: "nat \<Rightarrow> sys_timeo"
  next_timeout :: nat
  current_timeout_due_time :: u32
  tcpip_tcp_timer_active :: bool
  u32Jiffies :: u32
  tm_pools :: memp_state
  tcp_active_pcbs :: nat
  tcp_tw_pcbs :: nat
  world :: 'w

text \<open>The table of pools, and the functions of other modules that the handlers call.\<close>

record 'w timer_env =
  te_pools :: "memp_desc list"
  te_cyclic :: "cyclic_fn \<Rightarrow> 'w timers \<Rightarrow> 'w timers"
  te_other :: "nat \<Rightarrow> nat \<Rightarrow> 'w timers \<Rightarrow> 'w timers"

definition sys_now :: "'w timers \<Rightarrow> u32" where
  "sys_now s = u32Jiffies s"

text \<open>The tick interrupt, but for the acknowledgement in the timer's own status register.\<close>

definition TMR0_IRQHandler :: "'w timers \<Rightarrow> 'w timers" where
  "TMR0_IRQHandler s = s\<lparr>u32Jiffies := u32Jiffies s + 10\<rparr>"

definition to_upd :: "nat \<Rightarrow> (sys_timeo \<Rightarrow> sys_timeo) \<Rightarrow> 'w timers \<Rightarrow> 'w timers" where
  "to_upd t f s = s\<lparr>timeos := (timeos s)(t := f (timeos s t))\<rparr>"

partial_function (option) timeout_insert :: "nat \<Rightarrow> nat \<Rightarrow> 'w timers \<Rightarrow> 'w timers option" where
  "timeout_insert timeout t s =
    (if t \<noteq> 0 then
       let n = to_next (timeos s t)
       in if n = 0 \<or> TIME_LESS_THAN (to_time (timeos s timeout)) (to_time (timeos s n))
          then Some (to_upd t (\<lambda>e. e\<lparr>to_next := timeout\<rparr>) (to_upd timeout (\<lambda>e. e\<lparr>to_next := n\<rparr>) s))
          else timeout_insert timeout n s
     else Some s)"

definition sys_timeout_abs ::
    "'w timer_env \<Rightarrow> u32 \<Rightarrow> sys_timeout_handler \<Rightarrow> nat \<Rightarrow> 'w timers \<Rightarrow> 'w timers option" where
  "sys_timeout_abs E abs_time handler arg s =
    (case memp_malloc (te_pools E) MEMP_SYS_TIMEOUT (tm_pools s) of (timeout, m) \<Rightarrow>
       let s = s\<lparr>tm_pools := m\<rparr>
       in if timeout = 0 then Some s
       else let s = to_upd timeout (\<lambda>_. \<lparr>to_next = 0, to_time = abs_time, to_h = handler, to_arg = arg\<rparr>) s
       in if next_timeout s = 0 then Some (s\<lparr>next_timeout := timeout\<rparr>)
       else if TIME_LESS_THAN (to_time (timeos s timeout)) (to_time (timeos s (next_timeout s)))
       then Some ((to_upd timeout (\<lambda>e. e\<lparr>to_next := next_timeout s\<rparr>) s)\<lparr>next_timeout := timeout\<rparr>)
       else timeout_insert timeout (next_timeout s) s)"

definition sys_timeout ::
    "'w timer_env \<Rightarrow> u32 \<Rightarrow> sys_timeout_handler \<Rightarrow> nat \<Rightarrow> 'w timers \<Rightarrow> 'w timers option" where
  "sys_timeout E msecs handler arg s = sys_timeout_abs E (sys_now s + msecs) handler arg s"


definition tcp_timer_needed :: "'w timer_env \<Rightarrow> 'w timers \<Rightarrow> 'w timers option" where
  "tcp_timer_needed E s =
    (if \<not> tcpip_tcp_timer_active s \<and> (tcp_active_pcbs s \<noteq> 0 \<or> tcp_tw_pcbs s \<noteq> 0)
     then sys_timeout E TCP_TMR_INTERVAL tcpip_tcp_timer_h 0 (s\<lparr>tcpip_tcp_timer_active := True\<rparr>)
     else Some s)"


fun start_cyclic_timers :: "'w timer_env \<Rightarrow> nat list \<Rightarrow> 'w timers \<Rightarrow> 'w timers option" where
  "start_cyclic_timers E [] s = Some s"
| "start_cyclic_timers E (i # is) s =
    (case sys_timeout E (interval_ms (lwip_cyclic_timers ! i)) lwip_cyclic_timer_h i s of
       None \<Rightarrow> None
     | Some s \<Rightarrow> start_cyclic_timers E is s)"

definition sys_timeouts_init :: "'w timer_env \<Rightarrow> 'w timers \<Rightarrow> 'w timers option" where
  "sys_timeouts_init E s = start_cyclic_timers E [1..<length lwip_cyclic_timers] s"

partial_function (option) untimeout_loop ::
    "'w timer_env \<Rightarrow> sys_timeout_handler \<Rightarrow> nat \<Rightarrow> nat \<Rightarrow> nat \<Rightarrow> 'w timers \<Rightarrow> 'w timers option" where
  "untimeout_loop E handler arg t prev_t s =
    (if t \<noteq> 0 then
       if to_h (timeos s t) = handler \<and> to_arg (timeos s t) = arg then
         let n = to_next (timeos s t);
             s = (if prev_t = 0 then s\<lparr>next_timeout := n\<rparr> else to_upd prev_t (\<lambda>e. e\<lparr>to_next := n\<rparr>) s)
         in Some (s\<lparr>tm_pools := memp_free (te_pools E) MEMP_SYS_TIMEOUT t (tm_pools s)\<rparr>)
       else untimeout_loop E handler arg (to_next (timeos s t)) t s
     else Some s)"

definition sys_untimeout ::
    "'w timer_env \<Rightarrow> sys_timeout_handler \<Rightarrow> nat \<Rightarrow> 'w timers \<Rightarrow> 'w timers option" where
  "sys_untimeout E handler arg s =
    (if next_timeout s = 0 then Some s else untimeout_loop E handler arg (next_timeout s) 0 s)"




partial_function (option) restart_loop :: "u32 \<Rightarrow> u32 \<Rightarrow> nat \<Rightarrow> 'w timers \<Rightarrow> 'w timers option" where
  "restart_loop base now t s =
    (if t \<noteq> 0 then
       let s = to_upd t (\<lambda>e. e\<lparr>to_time := (to_time e - base) + now\<rparr>) s
       in restart_loop base now (to_next (timeos s t)) s
     else Some s)"

definition sys_restart_timeouts :: "'w timers \<Rightarrow> 'w timers option" where
  "sys_restart_timeouts s =
    (if next_timeout s = 0 then Some s
     else restart_loop (to_time (timeos s (next_timeout s))) (sys_now s) (next_timeout s) s)"

definition sys_timeouts_sleeptime :: "'w timers \<Rightarrow> u32" where
  "sys_timeouts_sleeptime s =
    (if next_timeout s = 0 then SYS_TIMEOUTS_SLEEPTIME_INFINITE
     else let now = sys_now s
     in if TIME_LESS_THAN (to_time (timeos s (next_timeout s))) now then 0
        else to_time (timeos s (next_timeout s)) - now)"

section \<open>The list of pending timeouts\<close>

lemma to_upd_sel [simp]:
  "timeos (to_upd t f s) = (timeos s)(t := f (timeos s t))" "next_timeout (to_upd t f s) = next_timeout s"
  "tm_pools (to_upd t f s) = tm_pools s" "u32Jiffies (to_upd t f s) = u32Jiffies s" "world (to_upd t f s) = world s"
  "current_timeout_due_time (to_upd t f s) = current_timeout_due_time s"
  by (simp_all add: to_upd_def)

text \<open>An entry without its link: when it is due, and what is called then.\<close>

type_synonym entry = "u32 \<times> sys_timeout_handler \<times> nat"

definition entry_of :: "sys_timeo \<Rightarrow> entry" where
  "entry_of e = (to_time e, to_h e, to_arg e)"

definition entries :: "'w timers \<Rightarrow> nat list \<Rightarrow> entry list" where
  "entries s xs = map (\<lambda>a. entry_of (timeos s a)) xs"

definition linked :: "'w timers \<Rightarrow> nat list \<Rightarrow> bool" where
  "linked s xs \<longleftrightarrow> chain (\<lambda>a. to_next (timeos s a)) (next_timeout s) xs"

text \<open>The timeouts in the list are exactly the elements of the pool that are in use.\<close>

definition timers_inv :: "'w timer_env \<Rightarrow> 'w timers \<Rightarrow> nat list \<Rightarrow> bool" where
  "timers_inv E s xs \<longleftrightarrow> memp_inv (te_pools E) (tm_pools s) \<and> MEMP_SYS_TIMEOUT < length (te_pools E) \<and>
    linked s xs \<and> set xs = memp_used (te_pools E) MEMP_SYS_TIMEOUT (tm_pools s)"

text \<open>Linking a new element \<open>a\<close> in between.\<close>

lemma chain_insert:
  assumes "chain n p (us @ vs)" "a \<notin> set (us @ vs)" "a \<noteq> 0" "us \<noteq> []"
  shows "chain (n(a := (case vs of [] \<Rightarrow> 0 | v # _ \<Rightarrow> v), last us := a)) p (us @ a # vs)"
  using assms
proof (induction us arbitrary: p)
  case (Cons u us)
  have d: "u \<notin> set us" "u \<notin> set vs" "distinct (us @ vs)" using chain_distinct [OF Cons.prems(1)] by auto
  show ?case
  proof (cases us)
    case Nil
    have "chain n (n u) vs" using Cons.prems(1) Nil by simp
    then have "chain (n(a := (case vs of [] \<Rightarrow> 0 | v # _ \<Rightarrow> v), u := a)) (case vs of [] \<Rightarrow> 0 | v # _ \<Rightarrow> v) vs"
      using d Cons.prems(2) Nil by (subst chain_cong [of _ _ n]) (auto split: list.splits)
    then show ?thesis using Cons.prems Nil by (auto simp: fun_upd_def)
  next
    case (Cons w ws)
    then show ?thesis using Cons.IH [of "n u"] Cons.prems d by auto
  qed
qed simp

lemma timeout_insert_eq:
  assumes "chain (\<lambda>a. to_next (timeos s a)) t (t # xs)" "timeout \<notin> set (t # xs)" "timeout \<noteq> 0"
  defines "P \<equiv> \<lambda>a. \<not> TIME_LESS_THAN (to_time (timeos s timeout)) (to_time (timeos s a))"
  defines "us \<equiv> takeWhile P xs" and "vs \<equiv> dropWhile P xs"
  shows "timeout_insert timeout t s = Some (to_upd (last (t # us)) (\<lambda>e. e\<lparr>to_next := timeout\<rparr>)
    (to_upd timeout (\<lambda>e. e\<lparr>to_next := (case vs of [] \<Rightarrow> 0 | v # _ \<Rightarrow> v)\<rparr>) s))"
  using assms(1,2) unfolding us_def vs_def
proof (induction xs arbitrary: t)
  case Nil
  then show ?case by (subst timeout_insert.simps) (auto simp: Let_def)
next
  case (Cons x xs)
  have n: "to_next (timeos s t) = x" "x \<noteq> 0" "t \<noteq> 0" using Cons.prems(1) by auto
  show ?case
  proof (cases "P x")
    case True
    then have "timeout_insert timeout t s = timeout_insert timeout x s"
      using n by (subst timeout_insert.simps) (simp add: Let_def P_def)
    then show ?thesis using Cons.IH [of x] Cons.prems n True by simp
  next
    case False
    then show ?thesis using n by (subst timeout_insert.simps) (simp add: Let_def P_def)
  qed
qed

text \<open>What the list operations leave alone.\<close>

definition same_rest :: "'w timers \<Rightarrow> 'w timers \<Rightarrow> bool" where
  "same_rest s s' \<longleftrightarrow> current_timeout_due_time s' = current_timeout_due_time s \<and> u32Jiffies s' = u32Jiffies s \<and>
    tcpip_tcp_timer_active s' = tcpip_tcp_timer_active s \<and> tcp_active_pcbs s' = tcp_active_pcbs s \<and>
    tcp_tw_pcbs s' = tcp_tw_pcbs s \<and> world s' = world s"

lemma same_rest_upd [simp]:
  "same_rest s s" "same_rest s (to_upd t f s') = same_rest s s'" "same_rest s (s'\<lparr>next_timeout := n\<rparr>) = same_rest s s'"
  "same_rest s (s'\<lparr>tm_pools := m\<rparr>) = same_rest s s'"
  by (simp_all add: same_rest_def to_upd_def)

definition timers_full :: "'w timer_env \<Rightarrow> nat list \<Rightarrow> bool" where
  "timers_full E xs \<longleftrightarrow> length xs = memp_num (te_pools E ! MEMP_SYS_TIMEOUT)"

lemma timers_inv_distinct: "timers_inv E s xs \<Longrightarrow> distinct xs"
  by (auto simp: timers_inv_def linked_def intro: chain_distinct)

lemma timers_full_iff:
  assumes "timers_inv E s xs"
  shows "timers_full E xs \<longleftrightarrow>
    memp_used (te_pools E) MEMP_SYS_TIMEOUT (tm_pools s) = elems (te_pools E ! MEMP_SYS_TIMEOUT)"
proof -
  let ?d = "te_pools E ! MEMP_SYS_TIMEOUT"
  have wf: "pools_wf (te_pools E)" "MEMP_SYS_TIMEOUT < length (te_pools E)" using assms by (simp_all add: timers_inv_def memp_inv_def)
  have fin: "finite (elems ?d)" "card (elems ?d) = memp_num ?d" using wf card_elems [of ?d] by (simp_all add: elems_def pools_wf_def)
  have sub: "set xs \<subseteq> elems ?d" using assms by (auto simp: timers_inv_def memp_used_def)
  have "length xs = card (set xs)" using timers_inv_distinct [OF assms] by (simp add: distinct_card)
  then have "length xs = memp_num ?d \<longleftrightarrow> set xs = elems ?d" using fin card_subset_eq [OF fin(1) sub] by metis
  moreover have "memp_used (te_pools E) MEMP_SYS_TIMEOUT (tm_pools s) = set xs" using assms by (simp add: timers_inv_def)
  ultimately show ?thesis by (simp only: timers_full_def)
qed

lemma entry_of_link [simp]: "entry_of (e\<lparr>to_next := n\<rparr>) = entry_of e"
  by (simp add: entry_of_def)

lemma sys_timeout_abs_list:
  fixes t :: u32
  assumes inv: "timers_inv E s xs"
  defines "P \<equiv> \<lambda>b. \<not> TIME_LESS_THAN t (to_time (timeos s b))"
  shows "\<exists>s'. sys_timeout_abs E t h arg s = Some s' \<and>
    (if timers_full E xs then s' = s
     else \<exists>a. a \<notin> set xs \<and> timers_inv E s' (takeWhile P xs @ a # dropWhile P xs) \<and> same_rest s s' \<and>
       entry_of (timeos s' a) = (t, h, arg) \<and> (\<forall>b \<in> set xs. entry_of (timeos s' b) = entry_of (timeos s b)))"
proof -
  have mi: "memp_inv (te_pools E) (tm_pools s)" "MEMP_SYS_TIMEOUT < length (te_pools E)"
    and ch: "chain (\<lambda>b. to_next (timeos s b)) (next_timeout s) xs"
    and used: "set xs = memp_used (te_pools E) MEMP_SYS_TIMEOUT (tm_pools s)"
    using inv by (simp_all add: timers_inv_def linked_def)
  obtain a m where am: "memp_malloc (te_pools E) MEMP_SYS_TIMEOUT (tm_pools s) = (a, m)" by force
  note u = memp_malloc_used [OF mi am]
  show ?thesis
  proof (cases "a = 0")
    case True
    then have "timers_full E xs" "m = tm_pools s" using u(1,3) timers_full_iff [OF inv] by simp_all
    then show ?thesis using am True by (simp add: sys_timeout_abs_def Let_def)
  next
    case False
    define s1 where "s1 = to_upd a (\<lambda>_. \<lparr>to_next = 0, to_time = t, to_h = h, to_arg = arg\<rparr>) (s\<lparr>tm_pools := m\<rparr>)"
    have a: "a \<notin> set xs" "\<not> timers_full E xs" "memp_used (te_pools E) MEMP_SYS_TIMEOUT m = insert a (set xs)"
      using u(1,2) False used timers_full_iff [OF inv] by auto
    have mi': "memp_inv (te_pools E) m" using memp_malloc_inv [OF mi] am by simp
    have ch1: "chain (\<lambda>b. to_next (timeos s1 b)) (next_timeout s) xs"
      using ch a(1) by (subst chain_cong) (auto simp: s1_def)
    have P1: "(\<lambda>b. \<not> TIME_LESS_THAN (to_time (timeos s1 a)) (to_time (timeos s1 b))) c = P c" if "c \<in> set xs" for c
      using that a(1) by (auto simp: s1_def P_def)
    have s1: "tm_pools s1 = m" "same_rest s s1" "entry_of (timeos s1 a) = (t, h, arg)"
      "\<forall>b \<in> set xs. entry_of (timeos s1 b) = entry_of (timeos s b)"
      using a(1) by (auto simp: s1_def entry_of_def)
    have fin: ?thesis
      if "sys_timeout_abs E t h arg s = Some s'" "linked s' (takeWhile P xs @ a # dropWhile P xs)" "tm_pools s' = tm_pools s1"
        "same_rest s s' = same_rest s s1" "\<And>b. entry_of (timeos s' b) = entry_of (timeos s1 b)" for s'
    proof -
      have "set (takeWhile P xs @ a # dropWhile P xs) = insert a (set xs)"
        by (metis Un_insert_right set_append list.simps(15) takeWhile_dropWhile_id)
      then have "timers_inv E s' (takeWhile P xs @ a # dropWhile P xs)"
        using that(2,3) s1(1) mi' mi(2) a(3) by (simp add: timers_inv_def)
      then show ?thesis using that(1,4,5) s1(2-4) a(1,2) by (intro exI [of _ s']) (simp, intro exI [of _ a], simp)
    qed
    show ?thesis
    proof (cases xs)
      case Nil
      then have "sys_timeout_abs E t h arg s = Some (s1\<lparr>next_timeout := a\<rparr>)"
        using am False ch by (simp add: sys_timeout_abs_def s1_def Let_def)
      moreover have "linked (s1\<lparr>next_timeout := a\<rparr>) (takeWhile P xs @ a # dropWhile P xs)"
        using Nil False by (simp add: linked_def s1_def)
      ultimately show ?thesis by (rule fin) simp_all
    next
      case (Cons x ys)
      have x: "next_timeout s = x" "x \<noteq> 0" "x \<noteq> a" using ch a(1) Cons by auto
      show ?thesis
      proof (cases "P x")
        case p: False
        let ?s = "(to_upd a (\<lambda>e. e\<lparr>to_next := x\<rparr>) s1)\<lparr>next_timeout := a\<rparr>"
        have "sys_timeout_abs E t h arg s = Some ?s"
          using am False x p by (simp add: sys_timeout_abs_def s1_def Let_def P_def)
        moreover have "linked ?s (takeWhile P xs @ a # dropWhile P xs)"
        proof -
          have "chain (\<lambda>b. to_next (timeos ?s b)) x xs" using ch1 x(1) a(1) by (subst chain_cong [of _ _ "\<lambda>b. to_next (timeos s1 b)"]) auto
          then show ?thesis using Cons p False by (simp add: linked_def)
        qed
        ultimately show ?thesis by (rule fin) simp_all
      next
        case p: True
        have chx: "chain (\<lambda>b. to_next (timeos s1 b)) x (x # ys)" using ch1 x Cons by simp
        have cong: "takeWhile (\<lambda>b. \<not> TIME_LESS_THAN (to_time (timeos s1 a)) (to_time (timeos s1 b))) ys = takeWhile P ys"
          "dropWhile (\<lambda>b. \<not> TIME_LESS_THAN (to_time (timeos s1 a)) (to_time (timeos s1 b))) ys = dropWhile P ys"
          using P1 Cons by (auto intro!: takeWhile_cong dropWhile_cong)
        let ?us = "x # takeWhile P ys" and ?vs = "dropWhile P ys"
        let ?n = "case ?vs of [] \<Rightarrow> 0 | v # _ \<Rightarrow> v"
        let ?s = "to_upd (last ?us) (\<lambda>e. e\<lparr>to_next := a\<rparr>) (to_upd a (\<lambda>e. e\<lparr>to_next := ?n\<rparr>) s1)"
        have "timeout_insert a x s1 = Some ?s"
          using timeout_insert_eq [OF chx _ False] a(1) Cons cong by simp
        then have "sys_timeout_abs E t h arg s = Some ?s"
          using am False x p by (simp add: sys_timeout_abs_def s1_def [symmetric] Let_def) (simp add: s1_def P_def)
        moreover have "linked ?s (takeWhile P xs @ a # dropWhile P xs)"
        proof -
          have split: "?us @ ?vs = x # ys" by simp
          have la: "last ?us \<noteq> a" using a(1) Cons last_in_set [of ?us] set_takeWhileD by (metis list.distinct(1) set_ConsD list.set_intros)
          have "(\<lambda>b. to_next (timeos ?s b)) = (\<lambda>b. to_next (timeos s1 b))(a := ?n, last ?us := a)"
            using la by (auto simp: fun_eq_iff)
          then show ?thesis
            using chain_insert [of "\<lambda>b. to_next (timeos s1 b)" x ?us ?vs a] chx a(1) Cons False p x
            by (simp add: linked_def s1_def)
        qed
        ultimately show ?thesis by (rule fin) simp_all
      qed
    qed
  qed
qed

section \<open>Ordered insertion\<close>

text \<open>
  Times are compared modulo \<open>2^32\<close>. Within half the range from a base \<open>b\<close> the comparison is that of the
  distances from \<open>b\<close>, across the wrap-around of the clock.
\<close>

definition due :: "u32 \<Rightarrow> u32 \<Rightarrow> nat" where
  "due b t = unat (t - b)"

definition in_window :: "u32 \<Rightarrow> u32 \<Rightarrow> bool" where
  "in_window b t \<longleftrightarrow> due b t < 2 ^ 31"

lemma time_less_unat: "TIME_LESS_THAN t u \<longleftrightarrow> 2 ^ 31 \<le> unat (t - u)"
  by (auto simp: TIME_LESS_THAN_def LWIP_MAX_TIMEOUT_def word_less_nat_alt)

lemma time_less_due:
  assumes "in_window b t" "in_window b u"
  shows "TIME_LESS_THAN t u \<longleftrightarrow> due b t < due b u"
proof -
  define x where "x = t - b"
  define y where "y = u - b"
  have "t - u = x - y" by (simp add: x_def y_def)
  moreover have "unat (x - y) = (if unat y \<le> unat x then unat x - unat y else unat x + 2 ^ 32 - unat y)"
    using unat_sub_if_size [of x y] by (simp add: word_size)
  moreover have "unat x < 2 ^ 31" "unat y < 2 ^ 31" using assms by (simp_all add: in_window_def due_def x_def y_def)
  ultimately show ?thesis unfolding time_less_unat due_def x_def [symmetric] y_def [symmetric] by auto
qed

fun ins_entry :: "u32 \<Rightarrow> entry \<Rightarrow> entry list \<Rightarrow> entry list" where
  "ins_entry b e [] = [e]"
| "ins_entry b e (x # xs) = (if due b (fst x) \<le> due b (fst e) then x # ins_entry b e xs else e # x # xs)"

definition entries_sorted :: "u32 \<Rightarrow> entry list \<Rightarrow> bool" where
  "entries_sorted b es \<longleftrightarrow> sorted (map (\<lambda>e. due b (fst e)) es)"

lemma set_ins_entry [simp]: "set (ins_entry b e es) = insert e (set es)"
  by (induction b e es rule: ins_entry.induct) auto

lemma ins_entry_sorted: "entries_sorted b es \<Longrightarrow> entries_sorted b (ins_entry b e es)"
  by (induction b e es rule: ins_entry.induct) (auto simp: entries_sorted_def)

lemma ins_entry_split:
  "ins_entry b e es = takeWhile (\<lambda>x. due b (fst x) \<le> due b (fst e)) es @ e # dropWhile (\<lambda>x. due b (fst x) \<le> due b (fst e)) es"
  by (induction b e es rule: ins_entry.induct) auto

lemma entries_simps [simp]:
  "entries s [] = []" "entries s (x # xs) = entry_of (timeos s x) # entries s xs" "entries s (xs @ ys) = entries s xs @ entries s ys"
  by (simp_all add: entries_def)

lemma entries_cong: "\<forall>b \<in> set xs. entry_of (timeos s' b) = entry_of (timeos s b) \<Longrightarrow> entries s' xs = entries s xs"
  by (simp add: entries_def)

lemma fst_entry_of [simp]: "fst (entry_of e) = to_time e" "snd (entry_of e) = (to_h e, to_arg e)"
  by (simp_all add: entry_of_def)

lemma entries_split:
  "entries s (takeWhile (\<lambda>a. P (to_time (timeos s a))) xs) = takeWhile (\<lambda>e. P (fst e)) (entries s xs)"
  "entries s (dropWhile (\<lambda>a. P (to_time (timeos s a))) xs) = dropWhile (\<lambda>e. P (fst e)) (entries s xs)"
  by (induction xs) auto

text \<open>The new entry splits the others into those not after it and the rest.\<close>

lemma sys_timeout_abs_entries:
  fixes t :: u32
  assumes inv: "timers_inv E s xs"
  defines "P \<equiv> \<lambda>e :: entry. \<not> TIME_LESS_THAN t (fst e)"
  shows "\<exists>s' ys. sys_timeout_abs E t h arg s = Some s' \<and> timers_inv E s' ys \<and> same_rest s s' \<and>
    entries s' ys = (if timers_full E xs then entries s xs
      else takeWhile P (entries s xs) @ (t, h, arg) # dropWhile P (entries s xs))"
proof -
  let ?P = "\<lambda>b. \<not> TIME_LESS_THAN t (to_time (timeos s b))"
  obtain s' where s': "sys_timeout_abs E t h arg s = Some s'"
    "if timers_full E xs then s' = s
     else \<exists>a. a \<notin> set xs \<and> timers_inv E s' (takeWhile ?P xs @ a # dropWhile ?P xs) \<and> same_rest s s' \<and>
       entry_of (timeos s' a) = (t, h, arg) \<and> (\<forall>b \<in> set xs. entry_of (timeos s' b) = entry_of (timeos s b))"
    using sys_timeout_abs_list [OF inv] by blast
  show ?thesis
  proof (cases "timers_full E xs")
    case True
    then show ?thesis using s' inv by auto
  next
    case False
    then obtain a where a: "timers_inv E s' (takeWhile ?P xs @ a # dropWhile ?P xs)" "same_rest s s'"
      "entry_of (timeos s' a) = (t, h, arg)" "\<forall>b \<in> set xs. entry_of (timeos s' b) = entry_of (timeos s b)"
      using s'(2) by auto
    have "entries s' (takeWhile ?P xs) = takeWhile P (entries s xs)" "entries s' (dropWhile ?P xs) = dropWhile P (entries s xs)"
      using a(4) entries_split [of s "\<lambda>u. \<not> TIME_LESS_THAN t u" xs] entries_cong [of "takeWhile ?P xs" s' s]
        entries_cong [of "dropWhile ?P xs" s' s] by (auto simp: P_def dest: set_takeWhileD set_dropWhileD)
    then show ?thesis using s'(1) a(1-3) False by auto
  qed
qed

text \<open>
  C11. \<open>sys_timeout_abs\<close> implements insertion into a sorted list. As long as all times lie within half the
  range of the clock from a base, also across its wrap-around: it always returns; with the pool
  exhausted the pending timeouts stay as they are; otherwise the new one comes after exactly those due
  no later than it, the others keep their order, and the list stays sorted and keeps its invariant.
\<close>
theorem sys_timeout_abs_refines:
  assumes "timers_inv E s xs" "entries_sorted b (entries s xs)" "\<forall>e \<in> set (entries s xs). in_window b (fst e)" "in_window b t"
  shows "\<exists>s' ys. sys_timeout_abs E t h arg s = Some s' \<and> timers_inv E s' ys \<and> same_rest s s' \<and>
    entries s' ys = (if timers_full E xs then entries s xs else ins_entry b (t, h, arg) (entries s xs)) \<and>
    entries_sorted b (entries s' ys)"
proof -
  let ?P = "\<lambda>e :: entry. \<not> TIME_LESS_THAN t (fst e)"
  have "takeWhile ?P (entries s xs) = takeWhile (\<lambda>x. due b (fst x) \<le> due b t) (entries s xs)"
    "dropWhile ?P (entries s xs) = dropWhile (\<lambda>x. due b (fst x) \<le> due b t) (entries s xs)"
    using assms(3,4) time_less_due [of b t] by (auto intro!: takeWhile_cong dropWhile_cong)
  then have "ins_entry b (t, h, arg) (entries s xs) = takeWhile ?P (entries s xs) @ (t, h, arg) # dropWhile ?P (entries s xs)"
    by (simp add: ins_entry_split)
  moreover obtain s' ys where "sys_timeout_abs E t h arg s = Some s'" "timers_inv E s' ys" "same_rest s s'"
    "entries s' ys = (if timers_full E xs then entries s xs
      else takeWhile ?P (entries s xs) @ (t, h, arg) # dropWhile ?P (entries s xs))"
    using sys_timeout_abs_entries [OF assms(1), of t h arg] by blast
  ultimately show ?thesis
    using ins_entry_sorted [OF assms(2), of "(t, h, arg)"] assms(2) by (intro exI [of _ s'] exI [of _ ys]) simp
qed

section \<open>Removal\<close>

text \<open>Unlinking one element.\<close>

lemma chain_delete:
  assumes "chain n p (us @ x # vs)" "us \<noteq> []"
  shows "chain (n(last us := n x)) p (us @ vs)"
  using assms
proof (induction us arbitrary: p)
  case (Cons u us)
  have d: "u \<notin> set us" "u \<noteq> x" "u \<notin> set vs" using chain_distinct [OF Cons.prems(1)] by auto
  show ?case
  proof (cases us)
    case Nil
    then show ?thesis using Cons.prems d chain_upd [of u vs n] by (auto simp: fun_upd_def)
  next
    case (Cons w ws)
    then show ?thesis using Cons.IH [of "n u"] Cons.prems d by auto
  qed
qed simp

fun del_entry :: "sys_timeout_handler \<Rightarrow> nat \<Rightarrow> entry list \<Rightarrow> entry list" where
  "del_entry h arg [] = []"
| "del_entry h arg (x # xs) = (if snd x = (h, arg) then xs else x # del_entry h arg xs)"

definition matches :: "sys_timeout_handler \<Rightarrow> nat \<Rightarrow> 'w timers \<Rightarrow> nat \<Rightarrow> bool" where
  "matches h arg s a \<longleftrightarrow> to_h (timeos s a) = h \<and> to_arg (timeos s a) = arg"

lemma untimeout_loop_none:
  assumes "chain (\<lambda>a. to_next (timeos s a)) t xs" "\<forall>a \<in> set xs. \<not> matches h arg s a"
  shows "untimeout_loop E h arg t prev s = Some s"
  using assms
proof (induction xs arbitrary: t prev)
  case Nil
  then show ?case by (subst untimeout_loop.simps) simp
next
  case (Cons x xs)
  then show ?case by (subst untimeout_loop.simps) (auto simp: matches_def)
qed

lemma untimeout_loop_found:
  assumes "chain (\<lambda>a. to_next (timeos s a)) t (us @ x # vs)" "\<forall>a \<in> set us. \<not> matches h arg s a" "matches h arg s x"
    "us = [] \<longrightarrow> prev = p0"
  shows "untimeout_loop E h arg t prev s =
    Some ((if us = [] \<and> p0 = 0 then s\<lparr>next_timeout := to_next (timeos s x)\<rparr>
           else to_upd (if us = [] then p0 else last us) (\<lambda>e. e\<lparr>to_next := to_next (timeos s x)\<rparr>) s)
        \<lparr>tm_pools := memp_free (te_pools E) MEMP_SYS_TIMEOUT x (tm_pools s)\<rparr>)"
  using assms
proof (induction us arbitrary: t prev p0)
  case Nil
  then show ?case by (subst untimeout_loop.simps) (auto simp: matches_def Let_def)
next
  case (Cons u us)
  have u: "t = u" "u \<noteq> 0" "\<not> matches h arg s u" using Cons.prems by auto
  have "untimeout_loop E h arg t prev s = untimeout_loop E h arg (to_next (timeos s u)) u s"
    using u by (subst untimeout_loop.simps) (auto simp: matches_def)
  then show ?case using Cons.IH [of "to_next (timeos s u)" u u] Cons.prems u by auto
qed

lemma sys_untimeout_entries:
  assumes inv: "timers_inv E s xs"
  shows "\<exists>s' ys. sys_untimeout E h arg s = Some s' \<and> timers_inv E s' ys \<and> same_rest s s' \<and>
    entries s' ys = del_entry h arg (entries s xs)"
proof -
  have ch: "chain (\<lambda>a. to_next (timeos s a)) (next_timeout s) xs" using inv by (simp add: timers_inv_def linked_def)
  have start: "sys_untimeout E h arg s = untimeout_loop E h arg (next_timeout s) 0 s"
    using untimeout_loop.simps [of E h arg 0 0 s] by (simp add: sys_untimeout_def)
  show ?thesis
  proof (cases "\<exists>a \<in> set xs. matches h arg s a")
    case False
    then have "del_entry h arg (entries s xs) = entries s xs" by (induction xs) (auto simp: matches_def)
    then show ?thesis using untimeout_loop_none [OF ch] False start inv by auto
  next
    case True
    then obtain us x vs where xs: "xs = us @ x # vs" "matches h arg s x" "\<forall>a \<in> set us. \<not> matches h arg s a"
      by (metis split_list_first_prop)
    let ?n = "to_next (timeos s x)"
    let ?s = "if us = [] then s\<lparr>next_timeout := ?n\<rparr> else to_upd (last us) (\<lambda>e. e\<lparr>to_next := ?n\<rparr>) s"
    let ?s' = "?s\<lparr>tm_pools := memp_free (te_pools E) MEMP_SYS_TIMEOUT x (tm_pools s)\<rparr>"
    have r: "sys_untimeout E h arg s = Some ?s'"
      using untimeout_loop_found [of s "next_timeout s" us x vs h arg 0 0 E] ch xs start by (simp split del: if_split) simp
    have d: "x \<notin> set us \<union> set vs" using timers_inv_distinct [OF inv] xs(1) by auto
    have mi: "memp_inv (te_pools E) (tm_pools s)" "MEMP_SYS_TIMEOUT < length (te_pools E)"
      and used: "x \<in> memp_used (te_pools E) MEMP_SYS_TIMEOUT (tm_pools s)"
        "memp_used (te_pools E) MEMP_SYS_TIMEOUT (tm_pools s) = set xs"
      using inv xs(1) by (auto simp: timers_inv_def)
    note f = memp_free_used [OF mi used(1)]
    have "linked ?s' (us @ vs)"
    proof (cases "us = []")
      case True
      then show ?thesis using ch xs(1) by (auto simp: linked_def)
    next
      case False
      have "(\<lambda>a. to_next (timeos ?s' a)) = (\<lambda>a. to_next (timeos s a))(last us := ?n)" using False by (auto simp: fun_eq_iff)
      then show ?thesis using chain_delete [OF ch [unfolded xs(1)] False] False by (simp add: linked_def)
    qed
    moreover have "set (us @ vs) = set xs - {x}" using xs(1) d by auto
    ultimately have "timers_inv E ?s' (us @ vs)" using f(1,2) mi(2) used(2) by (simp add: timers_inv_def)
    moreover have "entries ?s' (us @ vs) = entries s (us @ vs)" by (rule entries_cong) simp
    moreover have "del_entry h arg (entries s xs) = entries s (us @ vs)"
      using xs(2,3) unfolding xs(1) by (induction us) (auto simp: matches_def)
    moreover have "same_rest s ?s'" by simp
    ultimately show ?thesis using r by auto
  qed
qed

section \<open>Running the expired timeouts\<close>

lemma timers_inv_frame [simp]:
  "timers_inv E (s\<lparr>world := w\<rparr>) xs = timers_inv E s xs" "entries (s\<lparr>world := w\<rparr>) xs = entries s xs"
  "timers_inv E (s\<lparr>tcpip_tcp_timer_active := c\<rparr>) xs = timers_inv E s xs"
  "entries (s\<lparr>tcpip_tcp_timer_active := c\<rparr>) xs = entries s xs"
  by (simp_all add: timers_inv_def linked_def entries_def)

text \<open>Taking the first timeout off the list and back to the pool.\<close>

definition pop_timeout :: "'w timer_env \<Rightarrow> 'w timers \<Rightarrow> 'w timers" where
  "pop_timeout E s = (let e = timeos s (next_timeout s) in
    s\<lparr>next_timeout := to_next e, current_timeout_due_time := to_time e,
      tm_pools := memp_free (te_pools E) MEMP_SYS_TIMEOUT (next_timeout s) (tm_pools s)\<rparr>)"

lemma pop_timeout_sel [simp]:
  "u32Jiffies (pop_timeout E s) = u32Jiffies s" "world (pop_timeout E s) = world s" "timeos (pop_timeout E s) = timeos s"
  "current_timeout_due_time (pop_timeout E s) = to_time (timeos s (next_timeout s))"
  by (simp_all add: pop_timeout_def Let_def)








section \<open>Cyclic timers\<close>

text \<open>
  The weight of a pending timeout in a run started at \<open>now\<close>: how often it can still come up, when a
  cyclic timer may come due again at \<open>now\<close> itself.
\<close>

definition weight :: "u32 \<Rightarrow> u32 \<Rightarrow> nat" where
  "weight now t = (if TIME_LESS_THAN now t then 0 else if t = now then 1 else 2)"







definition total_weight :: "u32 \<Rightarrow> entry list \<Rightarrow> nat" where
  "total_weight now es = sum_list (map (\<lambda>e. weight now (fst e)) es)"


lemma total_weight_simps [simp]: "total_weight now (e # es) = weight now (fst e) + total_weight now es"
  by (simp add: total_weight_def)




section \<open>A concrete run\<close>

text \<open>An empty list a few ticks before the clock wraps around, and functions that note that they ran.\<close>

definition tick_env :: "nat list timer_env" where
  "tick_env = \<lparr>te_pools = net_pools, te_cyclic = (\<lambda>c s. s), te_other = (\<lambda>n a s. s\<lparr>world := world s @ [n + a]\<rparr>)\<rparr>"

definition tick_boot :: "nat list timers" where
  "tick_boot = \<lparr>timeos = (\<lambda>_. \<lparr>to_next = 0, to_time = 0, to_h = no_handler, to_arg = 0\<rparr>), next_timeout = 0,
    current_timeout_due_time = 0, tcpip_tcp_timer_active = False, u32Jiffies = 0xFFFFFFF0,
    tm_pools = mem_pools net_boot, tcp_active_pcbs = 0, tcp_tw_pcbs = 0, world = []\<rparr>"

lemma tick_boot_inv: "timers_inv tick_env tick_boot []" "\<not> timers_full tick_env []"
proof -
  have "MEMP_SYS_TIMEOUT < length net_pools" by (simp add: MEMP_SYS_TIMEOUT_def net_pools_def)
  then show "timers_inv tick_env tick_boot []"
    using memp_init_inv [OF net_pools_wf] by (simp add: timers_inv_def linked_def tick_env_def tick_boot_def net_boot_def)
  show "\<not> timers_full tick_env []" by (simp add: timers_full_def tick_env_def net_pools_def MEMP_SYS_TIMEOUT_def)
qed

theorem sys_timeout_abs_refines_witness:
  "\<exists>s' ys. sys_timeout_abs tick_env 5 (other_handler 7) 1 tick_boot = Some s' \<and> entries s' ys = [(5, other_handler 7, 1)]"
  using sys_timeout_abs_refines [OF tick_boot_inv(1), of "0xFFFFFFF0" 5 "other_handler 7" 1] tick_boot_inv(2)
  by (auto simp: entries_sorted_def in_window_def due_def)




end
