(* ===== verification/Lwip_Def.thy ===== *)
theory Lwip_Def
  imports Lwip_Base
begin

text \<open>
  The byte order conversions of \<open>lwIP/core/def.c\<close> and \<open>lwip/def.h\<close> for the little-endian core, over the
  sixteen-bit values that the packet code keeps as natural numbers and over 32-bit words for addresses.
\<close>

definition u32_of :: "nat \<Rightarrow> nat" where
  "u32_of n = n mod 4294967296"

definition PP_HTONS :: "nat \<Rightarrow> nat" where
  "PP_HTONS x = u16_of (push_bit 8 (x AND 0x00ff) OR drop_bit 8 (x AND 0xff00))"

definition PP_HTONL :: "u32 \<Rightarrow> u32" where
  "PP_HTONL x = push_bit 24 (x AND 0x000000ff) OR push_bit 8 (x AND 0x0000ff00) OR
    drop_bit 8 (x AND 0x00ff0000) OR drop_bit 24 (x AND 0xff000000)"

definition lwip_htons :: "nat \<Rightarrow> nat" where
  "lwip_htons n = PP_HTONS n"

definition lwip_htonl :: "u32 \<Rightarrow> u32" where
  "lwip_htonl n = PP_HTONL n"

lemma u32_of_small [simp]: "n < 4294967296 \<Longrightarrow> u32_of n = n"
  by (simp add: u32_of_def)

lemma and_low_byte: "x AND 255 = x mod 256" for x :: nat
  using take_bit_eq_mask [of 8 x] by (simp add: take_bit_eq_mod mask_eq_exp_minus_1)

lemma and_low_half: "x AND 65535 = x mod 65536" for x :: nat
  using take_bit_eq_mask [of 16 x] by (simp add: take_bit_eq_mod mask_eq_exp_minus_1)

lemma and_high_byte: "drop_bit 8 (x AND 65280) = x div 256 mod 256" for x :: nat
proof -
  have "drop_bit 8 (x AND 65280) = drop_bit 8 x AND 255" by (subst drop_bit_and) simp
  then show ?thesis by (simp add: and_low_byte drop_bit_eq_div)
qed

lemma or_bytes: "b < 256 \<Longrightarrow> push_bit 8 a OR b = 256 * a + b" for a b :: nat
proof -
  assume "b < 256"
  then have "\<not> bit b n" if "8 \<le> n" for n
    using that by (auto simp: bit_nat_def less_le_trans [of b 256 "2 ^ n"] power_increasing [of 8 n 2, simplified])
  then have "push_bit 8 a AND b = 0"
    by (intro bit_eqI) (auto simp: bit_and_iff bit_push_bit_iff)
  from disjunctive_add_eq_or [OF this] show ?thesis by (simp add: push_bit_eq_mult)
qed

lemma PP_HTONS_eq: "PP_HTONS x = 256 * (x mod 256) + x div 256 mod 256"
proof -
  have "256 * (x mod 256) + x div 256 mod 256 < 65536"
    using mod_less_divisor [of 256 x] mod_less_divisor [of 256 "x div 256"] by linarith
  then show ?thesis unfolding PP_HTONS_def and_low_byte and_high_byte by (simp add: or_bytes)
qed

lemma lwip_htons_lt [simp]: "lwip_htons n < 65536"
  by (simp add: lwip_htons_def PP_HTONS_def u16_of_def)

lemma byte_masks:
  "x AND 0x000000ff = take_bit 8 x" "x AND 0x0000ff00 = push_bit 8 (take_bit 8 (drop_bit 8 x))"
  "x AND 0x00ff0000 = push_bit 16 (take_bit 8 (drop_bit 16 x))" "x AND 0xff000000 = push_bit 24 (drop_bit 24 x)" for x :: u32
proof -
  have m: "(0x000000ff :: u32) = mask 8" "(0x0000ff00 :: u32) = push_bit 8 (mask 8)"
    "(0x00ff0000 :: u32) = push_bit 16 (mask 8)" "(0xff000000 :: u32) = push_bit 24 (mask 8)"
    by (simp_all add: mask_eq_exp_minus_1 push_bit_eq_mult)
  show "x AND 0x000000ff = take_bit 8 x" "x AND 0x0000ff00 = push_bit 8 (take_bit 8 (drop_bit 8 x))"
    "x AND 0x00ff0000 = push_bit 16 (take_bit 8 (drop_bit 16 x))" "x AND 0xff000000 = push_bit 24 (drop_bit 24 x)"
    unfolding m by (rule bit_word_eqI; auto simp: bit_simps)+
qed

text \<open>The bytes of the result are those of the argument in reverse.\<close>

lemma PP_HTONL_bits:
  assumes "k < 8"
  shows "bit (PP_HTONL x) k = bit x (24 + k)" "bit (PP_HTONL x) (8 + k) = bit x (16 + k)"
    "bit (PP_HTONL x) (16 + k) = bit x (8 + k)" "bit (PP_HTONL x) (24 + k) = bit x k"
proof -
  have no: "\<not> bit x (32 + k)" "\<not> bit x (40 + k)" "\<not> bit x (48 + k)" by (simp_all add: impossible_bit)
  show "bit (PP_HTONL x) k = bit x (24 + k)" "bit (PP_HTONL x) (8 + k) = bit x (16 + k)"
    "bit (PP_HTONL x) (16 + k) = bit x (8 + k)" "bit (PP_HTONL x) (24 + k) = bit x k"
    unfolding PP_HTONL_def byte_masks using assms no by (simp_all add: bit_simps)
qed

lemma word32_bytes_eqI:
  fixes x y :: u32
  assumes "\<And>k. k < 8 \<Longrightarrow> bit x k = bit y k" "\<And>k. k < 8 \<Longrightarrow> bit x (8 + k) = bit y (8 + k)"
    and "\<And>k. k < 8 \<Longrightarrow> bit x (16 + k) = bit y (16 + k)" "\<And>k. k < 8 \<Longrightarrow> bit x (24 + k) = bit y (24 + k)"
  shows "x = y"
proof (rule bit_word_eqI)
  fix n assume "n < LENGTH(32)"
  then consider "n < 8" | "8 \<le> n" "n - 8 < 8" | "16 \<le> n" "n - 16 < 8" | "24 \<le> n" "n - 24 < 8" by fastforce
  then show "bit x n = bit y n"
    using assms(1) [of n] assms(2) [of "n - 8"] assms(3) [of "n - 16"] assms(4) [of "n - 24"] by cases simp_all
qed

lemma lwip_htonl_involution [simp]: "lwip_htonl (lwip_htonl x) = x"
  by (rule word32_bytes_eqI) (simp_all add: lwip_htonl_def PP_HTONL_bits)

end
