(* ===== verification/Lwip_Ip4_Addr.thy ===== *)
theory Lwip_Ip4_Addr
  imports Lwip_Def Lwip_Ethernetif
begin

text \<open>
  IPv4 addresses: the macros of \<open>lwip/ip4_addr.h\<close> and the functions of \<open>lwIP/core/ipv4/ip4_addr.c\<close>.
  An address is the 32-bit word in network byte order. A C string is the list of its characters up to
  the terminating zero; reading at its end yields that zero.
\<close>

section \<open>Model\<close>

definition IPADDR_NONE :: u32 where "IPADDR_NONE = 0xffffffff"
definition IPADDR_LOOPBACK :: u32 where "IPADDR_LOOPBACK = 0x7f000001"
definition IPADDR_ANY :: u32 where "IPADDR_ANY = 0x00000000"
definition IPADDR_BROADCAST :: u32 where "IPADDR_BROADCAST = 0xffffffff"
definition IP_CLASSA_NET :: u32 where "IP_CLASSA_NET = 0xff000000"
definition IP_LOOPBACKNET :: u32 where "IP_LOOPBACKNET = 127"
definition IP4ADDR_STRLEN_MAX :: nat where "IP4ADDR_STRLEN_MAX = 16"

definition LWIP_MAKEU32 :: "u32 \<Rightarrow> u32 \<Rightarrow> u32 \<Rightarrow> u32 \<Rightarrow> u32" where
  "LWIP_MAKEU32 a b c d = push_bit 24 (a AND 0xff) OR push_bit 16 (b AND 0xff) OR push_bit 8 (c AND 0xff) OR (d AND 0xff)"

definition IP4_ADDR :: "u32 \<Rightarrow> u32 \<Rightarrow> u32 \<Rightarrow> u32 \<Rightarrow> u32" where
  "IP4_ADDR a b c d = PP_HTONL (LWIP_MAKEU32 a b c d)"

definition ip4_addr_isloopback :: "u32 \<Rightarrow> bool" where
  "ip4_addr_isloopback a \<longleftrightarrow> a AND PP_HTONL IP_CLASSA_NET = PP_HTONL (push_bit 24 IP_LOOPBACKNET)"

definition ip4_addr_get_network :: "u32 \<Rightarrow> u32 \<Rightarrow> u32" where
  "ip4_addr_get_network host nm = host AND nm"

definition ip4_addr_netcmp :: "u32 \<Rightarrow> u32 \<Rightarrow> u32 \<Rightarrow> bool" where
  "ip4_addr_netcmp addr1 addr2 nm \<longleftrightarrow> addr1 AND nm = addr2 AND nm"

definition ip4_addr_isany_val :: "u32 \<Rightarrow> bool" where
  "ip4_addr_isany_val a \<longleftrightarrow> a = IPADDR_ANY"

definition ip4_addr_ismulticast :: "u32 \<Rightarrow> bool" where
  "ip4_addr_ismulticast a \<longleftrightarrow> a AND PP_HTONL 0xf0000000 = PP_HTONL 0xe0000000"

definition ip4_addr_islinklocal :: "u32 \<Rightarrow> bool" where
  "ip4_addr_islinklocal a \<longleftrightarrow> a AND PP_HTONL 0xffff0000 = PP_HTONL 0xa9fe0000"

definition ip4_addr_get_byte :: "u32 \<Rightarrow> nat \<Rightarrow> u8" where
  "ip4_addr_get_byte a idx = ucast (drop_bit (idx * 8) a)"

definition ip4_addr_isbroadcast_u32 :: "u32 \<Rightarrow> netif \<Rightarrow> bool" where
  "ip4_addr_isbroadcast_u32 a n =
    (if NOT a = IPADDR_ANY \<or> a = IPADDR_ANY then True
     else if nif_flags n AND NETIF_FLAG_BROADCAST = 0 then False
     else if a = ip_addr n then False
     else if ip4_addr_netcmp a (ip_addr n) (netmask n) \<and> a AND NOT (netmask n) = IPADDR_BROADCAST AND NOT (netmask n) then True
     else False)"

lemma drop_bit_1_less: "m \<noteq> 0 \<Longrightarrow> unat (drop_bit (Suc 0) m) < unat m" for m :: u32
  by (subst unat_drop_bit_eq) (simp add: drop_bit_eq_div unat_gt_0)

text \<open>The two loops of \<open>ip4_addr_netmask_valid\<close>, over a mask of one bit that moves down until it is zero.\<close>

function first_zero :: "u32 \<Rightarrow> u32 \<Rightarrow> u32" where
  "first_zero nm_hostorder m =
    (if m \<noteq> 0 \<and> nm_hostorder AND m \<noteq> 0 then first_zero nm_hostorder (drop_bit 1 m) else m)"
  by auto
termination
  by (relation "measure (\<lambda>(_, m). unat m)") (simp_all add: drop_bit_1_less del: drop_bit_0 drop_bit_Suc)

function no_one :: "u32 \<Rightarrow> u32 \<Rightarrow> bool" where
  "no_one nm_hostorder m =
    (if m \<noteq> 0 then if nm_hostorder AND m \<noteq> 0 then False else no_one nm_hostorder (drop_bit 1 m) else True)"
  by auto
termination
  by (relation "measure (\<lambda>(_, m). unat m)") (simp_all add: drop_bit_1_less del: drop_bit_0 drop_bit_Suc)

definition ip4_addr_netmask_valid :: "u32 \<Rightarrow> bool" where
  "ip4_addr_netmask_valid nm =
    (let nm_hostorder = lwip_htonl nm
     in no_one nm_hostorder (first_zero nm_hostorder (push_bit 31 1)))"

section \<open>Strings\<close>

definition char_in :: "char \<Rightarrow> char \<Rightarrow> char \<Rightarrow> bool" where
  "char_in lo up c \<longleftrightarrow> (of_char lo :: nat) \<le> of_char c \<and> (of_char c :: nat) \<le> of_char up"

definition lwip_isdigit :: "char \<Rightarrow> bool" where
  "lwip_isdigit c \<longleftrightarrow> char_in CHR ''0'' CHR ''9'' c"

definition lwip_islower :: "char \<Rightarrow> bool" where
  "lwip_islower c \<longleftrightarrow> char_in CHR ''a'' CHR ''z'' c"

definition lwip_isxdigit :: "char \<Rightarrow> bool" where
  "lwip_isxdigit c \<longleftrightarrow> lwip_isdigit c \<or> char_in CHR ''a'' CHR ''f'' c \<or> char_in CHR ''A'' CHR ''F'' c"

definition lwip_isspace :: "char \<Rightarrow> bool" where
  "lwip_isspace c \<longleftrightarrow> (of_char c :: nat) \<in> {32, 12, 10, 13, 9, 11}"

definition digit_val :: "char \<Rightarrow> u32" where
  "digit_val c = of_nat (of_char c) - 48"

definition xdigit_val :: "char \<Rightarrow> u32" where
  "xdigit_val c = of_nat (of_char c) + 10 - (if lwip_islower c then 97 else 65)"

definition char_at :: "string \<Rightarrow> char" where
  "char_at cp = (case cp of [] \<Rightarrow> CHR 0x00 | c # _ \<Rightarrow> c)"

text \<open>The inner loop of \<open>ip4addr_aton\<close>: the digits of one number, which wraps around at 32 bits.\<close>

fun aton_digits :: "u32 \<Rightarrow> u32 \<Rightarrow> string \<Rightarrow> u32 \<times> string" where
  "aton_digits base val [] = (val, [])"
| "aton_digits base val (c # cp) =
    (if lwip_isdigit c then
       if base = 8 \<and> digit_val c \<ge> 8 then (val, c # cp)
       else aton_digits base (val * base + digit_val c) cp
     else if base = 16 \<and> lwip_isxdigit c then aton_digits base (push_bit 4 val OR xdigit_val c) cp
     else (val, c # cp))"

definition aton_number :: "string \<Rightarrow> (u32 \<times> string) option" where
  "aton_number cp =
    (if \<not> lwip_isdigit (char_at cp) then None
     else if char_at cp = CHR ''0'' then
       if char_at (tl cp) = CHR ''x'' \<or> char_at (tl cp) = CHR ''X'' then Some (aton_digits 16 0 (tl (tl cp)))
       else Some (aton_digits 8 0 (tl cp))
     else Some (aton_digits 10 0 cp))"

lemma aton_digits_length: "length (snd (aton_digits base val cp)) \<le> length cp"
  by (induction base val cp rule: aton_digits.induct) auto

lemma aton_number_length: "aton_number cp = Some (val, rest) \<Longrightarrow> length rest < length cp"
proof -
  assume a: "aton_number cp = Some (val, rest)"
  then obtain c cp' where cp: "cp = c # cp'" "lwip_isdigit c"
    by (cases cp) (auto simp: aton_number_def char_at_def lwip_isdigit_def char_in_def split: if_splits)
  have "length (snd (aton_digits b v (tl cp'))) \<le> length cp'" for b v
    using aton_digits_length [of b v "tl cp'"] by simp
  then show ?thesis
    using a cp aton_digits_length [of 8 0 cp'] aton_digits_length [of 10 _ cp']
    by (auto simp: aton_number_def char_at_def less_Suc_eq_le split: if_splits) (metis snd_conv)+
qed

text \<open>The outer loop: numbers separated by dots, at most three of them before the last.\<close>

function aton_parts :: "u32 list \<Rightarrow> string \<Rightarrow> (u32 list \<times> u32 \<times> string) option" where
  "aton_parts parts cp =
    (case aton_number cp of
       None \<Rightarrow> None
     | Some (val, cp) \<Rightarrow>
         if char_at cp = CHR ''.'' then
           if length parts \<ge> 3 then None else aton_parts (parts @ [val]) (tl cp)
         else Some (parts, val, cp))"
  by auto
termination
  by (relation "measure (\<lambda>(_, cp). length cp)") (auto dest!: aton_number_length)

text \<open>The address that is stored, or \<open>None\<close> where the function returns zero.\<close>

definition ip4addr_aton :: "string \<Rightarrow> u32 option" where
  "ip4addr_aton cp =
    (case aton_parts [] cp of
       None \<Rightarrow> None
     | Some (parts, val, cp) \<Rightarrow>
         if char_at cp \<noteq> CHR 0x00 \<and> \<not> lwip_isspace (char_at cp) then None
         else map_option lwip_htonl
           (case parts of
              [] \<Rightarrow> Some val
            | [a] \<Rightarrow> if val > 0xffffff \<or> a > 0xff then None else Some (val OR push_bit 24 a)
            | [a, b] \<Rightarrow> if val > 0xffff \<or> a > 0xff \<or> b > 0xff then None else Some (val OR (push_bit 24 a OR push_bit 16 b))
            | [a, b, c] \<Rightarrow> if val > 0xff \<or> a > 0xff \<or> b > 0xff \<or> c > 0xff then None
                else Some (val OR (push_bit 24 a OR push_bit 16 b OR push_bit 8 c))
            | _ \<Rightarrow> Some val))"

definition ipaddr_addr :: "string \<Rightarrow> u32" where
  "ipaddr_addr cp = (case ip4addr_aton cp of Some val \<Rightarrow> val | None \<Rightarrow> IPADDR_NONE)"

text \<open>
  \<open>ip4addr_ntoa_r\<close> writes into a buffer, here a function from offsets to characters. \<open>len\<close> counts the
  characters written, which is also where \<open>rp\<close> stands.
\<close>

type_synonym buffer = "nat \<Rightarrow> char"

function ntoa_inv :: "nat \<Rightarrow> char list" where
  "ntoa_inv ap = char_of (48 + ap mod 10) # (if ap div 10 \<noteq> 0 then ntoa_inv (ap div 10) else [])"
  by auto
termination
  by (relation "measure id") auto

fun ntoa_put :: "nat \<Rightarrow> char list \<Rightarrow> nat \<times> buffer \<Rightarrow> bool \<times> nat \<times> buffer" where
  "ntoa_put buflen [] (len, buf) = (True, len, buf)"
| "ntoa_put buflen (c # cs) (len, buf) =
    (if len \<ge> buflen then (False, len + 1, buf) else ntoa_put buflen cs (len + 1, buf(len := c)))"

fun ntoa_bytes :: "nat \<Rightarrow> u8 list \<Rightarrow> nat \<times> buffer \<Rightarrow> bool \<times> nat \<times> buffer" where
  "ntoa_bytes buflen [] st = (True, st)"
| "ntoa_bytes buflen (ap # aps) st =
    (case ntoa_put buflen (rev (ntoa_inv (unat ap)) @ ''.'') st of
       (ok, st) \<Rightarrow> if ok then ntoa_bytes buflen aps st else (False, st))"

definition ip4addr_ntoa_r :: "u32 \<Rightarrow> nat \<Rightarrow> buffer \<Rightarrow> bool \<times> buffer" where
  "ip4addr_ntoa_r a buflen buf =
    (case ntoa_bytes buflen (map (ip4_addr_get_byte a) [0, 1, 2, 3]) (0, buf) of
       (ok, len, buf) \<Rightarrow> if ok then (True, buf(len - 1 := CHR 0x00)) else (False, buf))"

definition ip4addr_ntoa :: "u32 \<Rightarrow> buffer \<Rightarrow> bool \<times> buffer" where
  "ip4addr_ntoa a str = ip4addr_ntoa_r a IP4ADDR_STRLEN_MAX str"

declare first_zero.simps [simp del] no_one.simps [simp del] aton_parts.simps [simp del] ntoa_inv.simps [simp del]

section \<open>Netmasks\<close>

lemma drop_msk: "drop_bit (Suc 0) (msk (Suc k)) = msk k" "drop_bit (Suc 0) (msk 0) = 0" if "k < 31"
  using that by (auto simp: msk_def bit_simps intro!: bit_word_eqI)

lemma no_one_0 [simp]: "no_one nm 0" "first_zero nm 0 = 0"
  by (subst no_one.simps, simp) (subst first_zero.simps, simp)

lemma msk_nonzero [simp]: "k < 32 \<Longrightarrow> msk k \<noteq> 0"
  by (metis and_msk_eq_0 bit_msk bit_0 and_zero_eq)

lemma no_one_msk: "k < 32 \<Longrightarrow> no_one nm (msk k) \<longleftrightarrow> (\<forall>i \<le> k. \<not> bit nm i)"
proof (induction k)
  case 0
  then show ?case using drop_msk(2) [of 0] by (subst no_one.simps) simp
next
  case (Suc k)
  then have "no_one nm (msk (Suc k)) \<longleftrightarrow> \<not> bit nm (Suc k) \<and> no_one nm (msk k)"
    using drop_msk(1) [of k] by (subst no_one.simps) simp
  then show ?case using Suc by (auto simp: le_Suc_eq)
qed

text \<open>Both loops together: ones down to some position and zeros below.\<close>

lemma netmask_loops:
  "k < 32 \<Longrightarrow> no_one nm (first_zero nm (msk k)) \<longleftrightarrow> (\<exists>j \<le> Suc k. \<forall>i \<le> k. bit nm i \<longleftrightarrow> j \<le> i)"
proof (induction k)
  case 0
  show ?case
  proof (cases "bit nm 0")
    case True
    then show ?thesis using drop_msk(2) [of 0] by (subst first_zero.simps) auto
  next
    case False
    then have "first_zero nm (msk 0) = msk 0" by (subst first_zero.simps) simp
    then show ?thesis using False no_one_msk [of 0 nm] by (auto intro!: exI [of _ 1])
  qed
next
  case (Suc k)
  show ?case
  proof (cases "bit nm (Suc k)")
    case True
    then have "first_zero nm (msk (Suc k)) = first_zero nm (msk k)"
      using drop_msk(1) [of k] Suc.prems by (subst first_zero.simps) simp
    then have "no_one nm (first_zero nm (msk (Suc k))) \<longleftrightarrow> (\<exists>j \<le> Suc k. \<forall>i \<le> k. bit nm i \<longleftrightarrow> j \<le> i)" using Suc by simp
    also have "\<dots> \<longleftrightarrow> (\<exists>j \<le> Suc (Suc k). \<forall>i \<le> Suc k. bit nm i \<longleftrightarrow> j \<le> i)"
      using True by (metis le_SucE le_SucI le_refl)
    finally show ?thesis .
  next
    case False
    then have "first_zero nm (msk (Suc k)) = msk (Suc k)" using Suc.prems by (subst first_zero.simps) simp
    then have "no_one nm (first_zero nm (msk (Suc k))) \<longleftrightarrow> (\<forall>i \<le> Suc k. \<not> bit nm i)" using no_one_msk Suc.prems by simp
    also have "\<dots> \<longleftrightarrow> (\<exists>j \<le> Suc (Suc k). \<forall>i \<le> Suc k. bit nm i \<longleftrightarrow> j \<le> i)"
      using False by (metis le_SucE le_refl not_less_eq_eq)
    finally show ?thesis .
  qed
qed

text \<open>
  C38. \<open>ip4_addr_netmask_valid\<close> accepts exactly the 33 netmasks: those whose bits, in host order, are ones
  followed by zeros only.
\<close>
theorem netmask_valid_prefix:
  "ip4_addr_netmask_valid nm \<longleftrightarrow> (\<exists>n \<le> 32. lwip_htonl nm = NOT (mask n))"
proof -
  have "ip4_addr_netmask_valid nm \<longleftrightarrow> no_one (lwip_htonl nm) (first_zero (lwip_htonl nm) (msk 31))"
    by (simp add: ip4_addr_netmask_valid_def msk_def Let_def)
  also have "\<dots> \<longleftrightarrow> (\<exists>n \<le> 32. \<forall>i \<le> 31. bit (lwip_htonl nm) i \<longleftrightarrow> n \<le> i)" using netmask_loops [of 31 "lwip_htonl nm"] by simp
  also have "\<dots> \<longleftrightarrow> (\<exists>n \<le> 32. lwip_htonl nm = NOT (mask n))"
  proof -
    have "(\<forall>i \<le> 31. bit w i \<longleftrightarrow> n \<le> i) \<longleftrightarrow> w = NOT (mask n)" for w :: u32 and n
      by (auto simp: bit_simps not_less intro!: bit_word_eqI)
    then show ?thesis by simp
  qed
  finally show ?thesis .
qed

section \<open>Printing and parsing\<close>

lemma ntoa_put_append:
  "ntoa_put n (xs @ ys) st = (case ntoa_put n xs st of (ok, st) \<Rightarrow> if ok then ntoa_put n ys st else (False, st))"
  by (induction n xs st rule: ntoa_put.induct) (auto split: prod.splits)

definition dotted_text :: "u8 list \<Rightarrow> char list" where
  "dotted_text bs = concat (map (\<lambda>b. rev (ntoa_inv (unat b)) @ ''.'') bs)"

lemma ntoa_bytes_put: "ntoa_bytes n bs st = ntoa_put n (dotted_text bs) st"
  by (induction n bs st rule: ntoa_bytes.induct) (cases; auto simp: dotted_text_def ntoa_put_append split: prod.splits)+

lemma ntoa_put_spec:
  assumes "ntoa_put n cs (len, buf) = (ok, len', buf')" "len \<le> n"
  shows "ok \<longleftrightarrow> len + length cs \<le> n" "\<forall>i \<ge> n. buf' i = buf i"
    "ok \<longrightarrow> len' = len + length cs \<and> (\<forall>i. buf' i = (if len \<le> i \<and> i < len + length cs then cs ! (i - len) else buf i))"
proof -
  have "(ok \<longleftrightarrow> len + length cs \<le> n) \<and> (\<forall>i \<ge> n. buf' i = buf i) \<and>
    (ok \<longrightarrow> len' = len + length cs \<and> (\<forall>i. buf' i = (if len \<le> i \<and> i < len + length cs then cs ! (i - len) else buf i)))"
    using assms
  proof (induction cs arbitrary: len buf)
    case (Cons c cs)
    show ?case
    proof (cases "len \<ge> n")
      case True
      then show ?thesis using Cons.prems by auto
    next
      case False
      then have "ntoa_put n cs (len + 1, buf(len := c)) = (ok, len', buf')" "len + 1 \<le> n" using Cons.prems by auto
      from Cons.IH [OF this] False show ?thesis by (auto simp: nth_Cons' Suc_le_eq)
    qed
  qed auto
  then show "ok \<longleftrightarrow> len + length cs \<le> n" "\<forall>i \<ge> n. buf' i = buf i"
    "ok \<longrightarrow> len' = len + length cs \<and> (\<forall>i. buf' i = (if len \<le> i \<and> i < len + length cs then cs ! (i - len) else buf i))" by auto
qed

text \<open>The digits of a number, most significant first.\<close>

fun digits :: "nat \<Rightarrow> nat list" where
  "digits n = (if n < 10 then [n] else digits (n div 10) @ [n mod 10])"

declare digits.simps [simp del]

lemma ntoa_inv_digits: "rev (ntoa_inv n) = map (\<lambda>d. char_of (48 + d)) (digits n)"
proof (induction n rule: digits.induct)
  case (1 n)
  show ?case
  proof (cases "n < 10")
    case True
    then show ?thesis by (subst ntoa_inv.simps, subst digits.simps) simp
  next
    case False
    then have "n div 10 \<noteq> 0" by (simp add: div_eq_0_iff)
    then show ?thesis using 1 False by (subst ntoa_inv.simps, subst digits.simps) simp
  qed
qed

lemma digits_lt: "d \<in> set (digits n) \<Longrightarrow> d < 10"
proof (induction n rule: digits.induct)
  case (1 n)
  then show ?case using digits.simps [of n] by (cases "n < 10") auto
qed

lemma digits_val: "foldl (\<lambda>v d. v * 10 + of_nat d) 0 (digits n) = (of_nat n :: u32)"
proof (induction n rule: digits.induct)
  case (1 n)
  show ?case
  proof (cases "n < 10")
    case True
    then show ?thesis by (subst digits.simps) simp
  next
    case False
    have "of_nat (n div 10) * 10 + of_nat (n mod 10) = (of_nat (n div 10 * 10 + n mod 10) :: u32)"
      by (simp only: of_nat_add of_nat_mult of_nat_numeral)
    then show ?thesis
      using 1 [OF False] False by (subst digits.simps) (simp only: if_False foldl_append foldl.simps div_mult_mod_eq)
  qed
qed

lemma digits_head: "\<exists>d ds. digits n = d # ds \<and> (d = 0 \<longrightarrow> n = 0 \<and> ds = [])"
proof (induction n rule: digits.induct)
  case (1 n)
  show ?case
  proof (cases "n < 10")
    case True
    then show ?thesis by (subst digits.simps) simp
  next
    case False
    then have "n div 10 \<noteq> 0" by (simp add: div_eq_0_iff)
    then show ?thesis using 1 False digits.simps [of n] by auto
  qed
qed

lemma digit_char:
  assumes "d < 10"
  shows "lwip_isdigit (char_of (48 + d))" "digit_val (char_of (48 + d)) = of_nat d" "(char_of (48 + d) = CHR ''0'') = (d = 0)"
proof -
  have c: "of_char (char_of (48 + d)) = 48 + d" using assms by simp
  show "lwip_isdigit (char_of (48 + d))" using assms by (simp add: lwip_isdigit_def char_in_def)
  show "digit_val (char_of (48 + d)) = of_nat d" using c by (simp add: digit_val_def)
  have "char_of (48 + d) = CHR ''0'' \<longleftrightarrow> of_char (char_of (48 + d) :: char) = (of_char CHR ''0'' :: nat)"
    by (simp only: of_char_eq_iff)
  then show "(char_of (48 + d) = CHR ''0'') = (d = 0)" unfolding c by simp
qed

lemma aton_digits_dec:
  assumes "\<forall>d \<in> set ds. d < 10" "\<not> lwip_isdigit (char_at rest)"
  shows "aton_digits 10 val (map (\<lambda>d. char_of (48 + d)) ds @ rest) = (foldl (\<lambda>v d. v * 10 + of_nat d) val ds, rest)"
  using assms(1)
proof (induction ds arbitrary: val)
  case Nil
  then show ?case using assms(2) by (cases rest) (simp_all add: char_at_def)
next
  case (Cons d ds)
  then show ?case by (simp add: digit_char)
qed

lemma aton_number_dec:
  assumes "rest = [] \<or> hd rest = CHR ''.''"
  shows "aton_number (rev (ntoa_inv n) @ rest) = Some (of_nat n, rest)"
proof -
  have nd: "\<not> lwip_isdigit (char_at rest)" "char_at rest \<noteq> CHR ''x''" "char_at rest \<noteq> CHR ''X''"
    using assms by (cases rest; auto simp: char_at_def lwip_isdigit_def char_in_def)+
  obtain d ds where d: "digits n = d # ds" "d = 0 \<longrightarrow> n = 0 \<and> ds = []" using digits_head by blast
  then have d10: "d < 10" using digits_lt [of d n] by simp
  note c = digit_char [OF d10]
  have eq: "rev (ntoa_inv n) @ rest = char_of (48 + d) # map (\<lambda>d. char_of (48 + d)) ds @ rest"
    by (simp add: ntoa_inv_digits d(1))
  show ?thesis
  proof (cases "d = 0")
    case True
    moreover have "aton_digits 8 0 rest = (0, rest)" using nd(1) by (cases rest) (simp_all add: char_at_def)
    ultimately show ?thesis using c d(2) nd unfolding eq by (simp add: aton_number_def char_at_def [of "_ # _"])
  next
    case False
    have "aton_digits 10 0 (rev (ntoa_inv n) @ rest) = (of_nat n, rest)"
      using aton_digits_dec [of "digits n" rest 0] digits_lt nd(1) digits_val [of n] by (simp add: ntoa_inv_digits)
    then show ?thesis using c False unfolding eq by (simp add: aton_number_def char_at_def [of "_ # _"])
  qed
qed

lemma aton_parts_step:
  "length parts < 3 \<Longrightarrow> aton_parts parts (rev (ntoa_inv n) @ CHR ''.'' # rest) = aton_parts (parts @ [of_nat n]) rest"
  using aton_number_dec [of "CHR ''.'' # rest" n] by (subst aton_parts.simps) (simp add: char_at_def)

lemma aton_parts_last: "aton_parts parts (rev (ntoa_inv n)) = Some (parts, of_nat n, [])"
  using aton_number_dec [of "[]" n] by (subst aton_parts.simps) (simp add: char_at_def)

lemma octet_le: "\<not> 0xff < (of_nat (unat b) :: u32)" for b :: u8
proof -
  have "unat b < 256" using unsigned_less [of b, where ?'a = nat] by simp
  then have "unat (of_nat (unat b) :: u32) < 256" by (subst unat_of_nat_u32) simp_all
  then show ?thesis by (simp add: word_less_nat_alt)
qed

text \<open>The four bytes put together again.\<close>

lemma octets_join:
  fixes a :: u32
  defines "b \<equiv> \<lambda>i. of_nat (unat (ip4_addr_get_byte a i)) :: u32"
  shows "lwip_htonl (b 3 OR (push_bit 24 (b 0) OR push_bit 16 (b 1) OR push_bit 8 (b 2))) = a"
proof -
  have b: "bit (b i) k \<longleftrightarrow> k < 8 \<and> bit a (i * 8 + k)" for i k
    by (auto simp: b_def ip4_addr_get_byte_def bit_simps)
  show ?thesis
    unfolding lwip_htonl_def by (rule word32_bytes_eqI) (simp_all add: PP_HTONL_bits bit_simps b)
qed

lemma aton_dotted:
  "ip4addr_aton (butlast (dotted_text (map (ip4_addr_get_byte a) [0, 1, 2, 3]))) = Some a"
proof -
  let ?d = "\<lambda>i. rev (ntoa_inv (unat (ip4_addr_get_byte a i)))"
  have "butlast (dotted_text (map (ip4_addr_get_byte a) [0, 1, 2, 3])) =
      ?d 0 @ CHR ''.'' # ?d 1 @ CHR ''.'' # ?d 2 @ CHR ''.'' # ?d 3"
    by (simp add: dotted_text_def butlast_append)
  moreover have "aton_parts [] (?d 0 @ CHR ''.'' # ?d 1 @ CHR ''.'' # ?d 2 @ CHR ''.'' # ?d 3) =
      Some ([of_nat (unat (ip4_addr_get_byte a 0)), of_nat (unat (ip4_addr_get_byte a 1)), of_nat (unat (ip4_addr_get_byte a 2))],
        of_nat (unat (ip4_addr_get_byte a 3)), [])"
    by (simp add: aton_parts_step aton_parts_last)
  ultimately show ?thesis using octets_join [of a] octet_le by (simp add: ip4addr_aton_def char_at_def)
qed

text \<open>
  C37. \<open>ip4addr_ntoa_r\<close> and \<open>ip4addr_aton\<close> are inverse. Printing succeeds exactly when the dotted text and
  its terminating zero fit the buffer, and never writes outside it, also when it fails; the printed
  text, read back, is the address again.
\<close>
theorem ntoa_aton_round_trip:
  "let txt = butlast (dotted_text (map (ip4_addr_get_byte a) [0, 1, 2, 3])) in
   case ip4addr_ntoa_r a buflen buf of (ok, buf') \<Rightarrow>
     ok = (length txt < buflen) \<and> (\<forall>i. buflen \<le> i \<longrightarrow> buf' i = buf i) \<and>
     (ok \<longrightarrow> map buf' [0..<length txt] = txt \<and> buf' (length txt) = CHR 0x00 \<and> ip4addr_aton txt = Some a)"
proof -
  define t where "t = dotted_text (map (ip4_addr_get_byte a) [0, 1, 2, 3])"
  obtain ok len buf' where p: "ntoa_put buflen t (0, buf) = (ok, len, buf')" by (metis prod_cases3)
  note s = ntoa_put_spec [OF p, simplified]
  have "t \<noteq> []" by (simp add: t_def dotted_text_def)
  then have lt: "length (butlast t) = length t - 1" "0 < length t" by simp_all
  have r: "ip4addr_ntoa_r a buflen buf = (if ok then (True, buf'(length t - 1 := CHR 0x00)) else (False, buf'))"
    using p s(3) by (simp add: ip4addr_ntoa_r_def ntoa_bytes_put t_def)
  have "map (buf'(length t - 1 := CHR 0x00)) [0..<length (butlast t)] = butlast t" if ok
    using s(3) that lt by (intro nth_equalityI) (auto simp: nth_butlast)
  moreover have "ip4addr_aton (butlast t) = Some a" unfolding t_def by (rule aton_dotted)
  moreover have "ok = (length (butlast t) < buflen)" using s(1) lt by linarith
  moreover have "(buf'(length t - 1 := CHR 0x00)) i = buf i" if "buflen \<le> i" ok for i
  proof -
    have "i \<noteq> length t - 1" using s(1) that lt(2) by linarith
    then show ?thesis using s(2) that by simp
  qed
  ultimately show ?thesis
    using s(2) lt(1) unfolding t_def [symmetric] r Let_def by (cases ok) simp_all
qed

theorem ntoa_aton_round_trip_witness:
  "fst (ip4addr_ntoa_r 0x1700a8c0 13 (\<lambda>_. CHR ''?'')) \<and> ip4addr_aton ''192.168.0.23'' = Some 0x1700a8c0"
proof -
  have "butlast (dotted_text (map (ip4_addr_get_byte 0x1700a8c0) [0, 1, 2, 3])) = ''192.168.0.23''" by code_simp
  then show ?thesis
    using ntoa_aton_round_trip [of "0x1700a8c0" 13 "\<lambda>_. CHR ''?''"] by (simp add: case_prod_beta)
qed

end
