(* ===== verification/Lwip_Chksum.thy ===== *)
theory Lwip_Chksum
  imports Lwip_Def Lwip_Packet
begin

text \<open>
  The Internet checksum of \<open>lwIP/core/inet_chksum.c\<close>: the three implementations the file offers (the
  firmware builds the second), the checksums over packets and the one with the IPv4 pseudo header,
  and their common specification, the ones' complement sum of RFC 1071.
\<close>

section \<open>Model\<close>

definition FOLD_U32T :: "nat \<Rightarrow> nat" where
  "FOLD_U32T u = u32_of (drop_bit 16 u + (u AND 0x0000ffff))"

definition SWAP_BYTES_IN_WORD :: "nat \<Rightarrow> nat" where
  "SWAP_BYTES_IN_WORD w = push_bit 8 (w AND 0xff) OR drop_bit 8 (w AND 0xff00)"

text \<open>Loads of the little-endian core.\<close>

definition u16_at :: "bytes \<Rightarrow> nat \<Rightarrow> nat" where
  "u16_at m a = unat (m a) + 256 * unat (m (a + 1))"

definition u32_at :: "bytes \<Rightarrow> nat \<Rightarrow> nat" where
  "u32_at m a = u16_at m a + 65536 * u16_at m (a + 2)"

text \<open>Version 1: network order, whatever the host's.\<close>

fun chksum_pairs :: "bytes \<Rightarrow> nat \<Rightarrow> nat \<Rightarrow> nat \<Rightarrow> nat \<times> nat \<times> nat" where
  "chksum_pairs m octetptr len acc =
    (if len > 1 then
       let src = u16_of (push_bit 8 (unat (m octetptr)));
           src = src OR unat (m (octetptr + 1))
       in chksum_pairs m (octetptr + 2) (len - 2) (u32_of (acc + src))
     else (octetptr, len, acc))"

definition lwip_standard_chksum_1 :: "bytes \<Rightarrow> nat \<Rightarrow> nat \<Rightarrow> nat" where
  "lwip_standard_chksum_1 m dataptr len =
    (case chksum_pairs m dataptr len 0 of (octetptr, len, acc) \<Rightarrow>
       let acc = (if len > 0 then u32_of (acc + u16_of (push_bit 8 (unat (m octetptr)))) else acc);
           acc = u32_of (drop_bit 16 acc + (acc AND 0x0000ffff));
           acc = (if acc AND 0xffff0000 \<noteq> 0 then u32_of (drop_bit 16 acc + (acc AND 0x0000ffff)) else acc)
       in lwip_htons (u16_of acc))"

text \<open>Version 2, the one in use: sixteen bits at a time, from an even address on.\<close>

fun chksum_words :: "bytes \<Rightarrow> nat \<Rightarrow> nat \<Rightarrow> nat \<Rightarrow> nat \<times> nat \<times> nat" where
  "chksum_words m ps len s =
    (if len > 1 then chksum_words m (ps + 2) (len - 2) (u32_of (s + u16_at m ps)) else (ps, len, s))"

definition lwip_standard_chksum :: "bytes \<Rightarrow> nat \<Rightarrow> nat \<Rightarrow> nat" where
  "lwip_standard_chksum m dataptr len =
    (let odd = dataptr AND 1 \<noteq> 0;
         first = odd \<and> len > 0;
         t = (if first then 256 * unat (m dataptr) else 0);
         pb = (if first then dataptr + 1 else dataptr);
         len = (if first then len - 1 else len)
     in case chksum_words m pb len 0 of (ps, len, s) \<Rightarrow>
          let t = (if len > 0 then 256 * (t div 256) + unat (m ps) else t);
              s = u32_of (s + t);
              s = FOLD_U32T s;
              s = FOLD_U32T s;
              s = (if odd then SWAP_BYTES_IN_WORD s else s)
          in u16_of s)"

text \<open>Version 3: 32 bits at a time, with the carries added back.\<close>

fun chksum_longs :: "bytes \<Rightarrow> nat \<Rightarrow> nat \<Rightarrow> nat \<Rightarrow> nat \<times> nat \<times> nat" where
  "chksum_longs m pl len s =
    (if len > 7 then
       let tmp = u32_of (s + u32_at m pl);
           tmp = (if tmp < s then u32_of (tmp + 1) else tmp);
           s = u32_of (tmp + u32_at m (pl + 4));
           s = (if s < tmp then u32_of (s + 1) else s)
       in chksum_longs m (pl + 8) (len - 8) s
     else (pl, len, s))"

definition lwip_standard_chksum_3 :: "bytes \<Rightarrow> nat \<Rightarrow> nat \<Rightarrow> nat" where
  "lwip_standard_chksum_3 m dataptr len =
    (let odd = dataptr AND 1 \<noteq> 0;
         first = odd \<and> len > 0;
         t = (if first then 256 * unat (m dataptr) else 0);
         pb = (if first then dataptr + 1 else dataptr);
         len = (if first then len - 1 else len);
         half = pb AND 3 \<noteq> 0 \<and> len > 1;
         s = (if half then u16_at m pb else 0);
         pl = (if half then pb + 2 else pb);
         len = (if half then len - 2 else len)
     in case chksum_longs m pl len s of (pl, len, s) \<Rightarrow>
        case chksum_words m pl len (FOLD_U32T s) of (ps, len, s) \<Rightarrow>
          let t = (if len > 0 then 256 * (t div 256) + unat (m ps) else t);
              s = u32_of (s + t);
              s = FOLD_U32T s;
              s = FOLD_U32T s;
              s = (if odd then SWAP_BYTES_IN_WORD s else s)
          in u16_of s)"

text \<open>The loops over a chain of pbufs: the sum so far and whether its bytes are swapped.\<close>

partial_function (option) chksum_chain :: "net \<Rightarrow> nat \<Rightarrow> nat \<Rightarrow> bool \<Rightarrow> (nat \<times> bool) option" where
  "chksum_chain s q acc swapped =
    (if q \<noteq> 0 then
       let acc = u32_of (acc + lwip_standard_chksum (mem_bytes s) (pb_payload (pbufs s q)) (pb_len (pbufs s q)));
           acc = FOLD_U32T acc;
           odd = pb_len (pbufs s q) mod 2 \<noteq> 0
       in chksum_chain s (pb_next (pbufs s q)) (if odd then SWAP_BYTES_IN_WORD acc else acc)
            (if odd then \<not> swapped else swapped)
     else Some (acc, swapped))"

definition inet_cksum_pseudo_base :: "nat \<Rightarrow> nat \<Rightarrow> nat \<Rightarrow> nat \<Rightarrow> net \<Rightarrow> nat option" where
  "inet_cksum_pseudo_base p proto proto_len acc s =
    (case chksum_chain s p acc False of
       None \<Rightarrow> None
     | Some (acc, swapped) \<Rightarrow>
         let acc = (if swapped then SWAP_BYTES_IN_WORD acc else acc);
             acc = u32_of (acc + lwip_htons (u16_of proto));
             acc = u32_of (acc + lwip_htons proto_len);
             acc = FOLD_U32T acc;
             acc = FOLD_U32T acc
         in Some (65535 - (acc AND 0xffff)))"

definition pseudo_addresses :: "u32 \<Rightarrow> u32 \<Rightarrow> nat" where
  "pseudo_addresses src dest =
    (let acc = unat src AND 0xffff;
         acc = u32_of (acc + (drop_bit 16 (unat src) AND 0xffff));
         acc = u32_of (acc + (unat dest AND 0xffff));
         acc = u32_of (acc + (drop_bit 16 (unat dest) AND 0xffff));
         acc = FOLD_U32T acc
     in FOLD_U32T acc)"

definition inet_chksum_pseudo :: "nat \<Rightarrow> nat \<Rightarrow> nat \<Rightarrow> u32 \<Rightarrow> u32 \<Rightarrow> net \<Rightarrow> nat option" where
  "inet_chksum_pseudo p proto proto_len src dest s =
    inet_cksum_pseudo_base p proto proto_len (pseudo_addresses src dest) s"

definition ip_chksum_pseudo :: "nat \<Rightarrow> nat \<Rightarrow> nat \<Rightarrow> u32 \<Rightarrow> u32 \<Rightarrow> net \<Rightarrow> nat option" where
  "ip_chksum_pseudo p proto proto_len src dest s = inet_chksum_pseudo p proto proto_len src dest s"

partial_function (option) chksum_chain_partial ::
    "net \<Rightarrow> nat \<Rightarrow> nat \<Rightarrow> nat \<Rightarrow> bool \<Rightarrow> (nat \<times> bool) option" where
  "chksum_chain_partial s q chksum_len acc swapped =
    (if q \<noteq> 0 \<and> chksum_len > 0 then
       let chklen = (if pb_len (pbufs s q) > chksum_len then chksum_len else pb_len (pbufs s q));
           acc = u32_of (acc + lwip_standard_chksum (mem_bytes s) (pb_payload (pbufs s q)) chklen);
           chksum_len = u16_sub chksum_len chklen;
           acc = FOLD_U32T acc;
           odd = pb_len (pbufs s q) mod 2 \<noteq> 0
       in chksum_chain_partial s (pb_next (pbufs s q)) chksum_len (if odd then SWAP_BYTES_IN_WORD acc else acc)
            (if odd then \<not> swapped else swapped)
     else Some (acc, swapped))"

definition inet_cksum_pseudo_partial_base :: "nat \<Rightarrow> nat \<Rightarrow> nat \<Rightarrow> nat \<Rightarrow> nat \<Rightarrow> net \<Rightarrow> nat option" where
  "inet_cksum_pseudo_partial_base p proto proto_len chksum_len acc s =
    (case chksum_chain_partial s p chksum_len acc False of
       None \<Rightarrow> None
     | Some (acc, swapped) \<Rightarrow>
         let acc = (if swapped then SWAP_BYTES_IN_WORD acc else acc);
             acc = u32_of (acc + lwip_htons (u16_of proto));
             acc = u32_of (acc + lwip_htons proto_len);
             acc = FOLD_U32T acc;
             acc = FOLD_U32T acc
         in Some (65535 - (acc AND 0xffff)))"

definition inet_chksum_pseudo_partial :: "nat \<Rightarrow> nat \<Rightarrow> nat \<Rightarrow> nat \<Rightarrow> u32 \<Rightarrow> u32 \<Rightarrow> net \<Rightarrow> nat option" where
  "inet_chksum_pseudo_partial p proto proto_len chksum_len src dest s =
    inet_cksum_pseudo_partial_base p proto proto_len chksum_len (pseudo_addresses src dest) s"

definition ip_chksum_pseudo_partial :: "nat \<Rightarrow> nat \<Rightarrow> nat \<Rightarrow> nat \<Rightarrow> u32 \<Rightarrow> u32 \<Rightarrow> net \<Rightarrow> nat option" where
  "ip_chksum_pseudo_partial p proto proto_len chksum_len src dest s =
    inet_chksum_pseudo_partial p proto proto_len chksum_len src dest s"

definition inet_chksum :: "bytes \<Rightarrow> nat \<Rightarrow> nat \<Rightarrow> nat" where
  "inet_chksum m dataptr len = 65535 - lwip_standard_chksum m dataptr len"

definition inet_chksum_pbuf :: "nat \<Rightarrow> net \<Rightarrow> nat option" where
  "inet_chksum_pbuf p s =
    (case chksum_chain s p 0 False of
       None \<Rightarrow> None
     | Some (acc, swapped) \<Rightarrow>
         let acc = (if swapped then SWAP_BYTES_IN_WORD acc else acc)
         in Some (65535 - (acc AND 0xffff)))"

definition lwip_chksum_copy :: "nat \<Rightarrow> nat \<Rightarrow> nat \<Rightarrow> bytes \<Rightarrow> nat \<times> bytes" where
  "lwip_chksum_copy dst src len m =
    (let m = MEMCPY dst src len m in (lwip_standard_chksum m dst len, m))"

declare chksum_pairs.simps [simp del] chksum_words.simps [simp del] chksum_longs.simps [simp del]

end
