(* ===== verification/Lwip_Chksum_Spec.thy ===== *)
theory Lwip_Chksum_Spec
  imports Lwip_Chksum Lwip_Pbuf_Spec
begin

text \<open>
  The specification of the Internet checksum and the proof that the routines of
  \<open>lwIP/core/inet_chksum.c\<close> meet it. Everything rests on two facts: ones' complement addition is
  addition modulo \<open>65535\<close>, with zero only for a sum of zeros, and swapping the bytes of a sum multiplies
  it by \<open>256\<close>, whose square is one modulo \<open>65535\<close>.
\<close>

section \<open>Ones' complement sums\<close>

text \<open>The sum of the little-endian sixteen-bit words, an odd last byte padded with zero.\<close>

fun wsum :: "u8 list \<Rightarrow> nat" where
  "wsum [] = 0"
| "wsum [a] = unat a"
| "wsum (a # b # bs) = unat a + 256 * unat b + wsum bs"

text \<open>Adding with end-around carry leaves \<open>oc S\<close>.\<close>

definition oc :: "nat \<Rightarrow> nat" where
  "oc S = (if S = 0 then 0 else (S - 1) mod 65535 + 1)"

definition ocs :: "nat \<Rightarrow> nat \<Rightarrow> bool" where
  "ocs r S \<longleftrightarrow> r < 65536 \<and> r mod 65535 = S mod 65535 \<and> (r = 0 \<longleftrightarrow> S = 0)"

lemma oc_lt [simp]: "oc S < 65536"
  by (simp add: oc_def Suc_lessI less_Suc_eq_le)

lemma ocs_oc: "ocs (oc S) S"
proof (cases "S = 0")
  case False
  then have "(Suc ((S - 1) mod 65535)) mod 65535 = Suc (S - 1) mod 65535" by (simp add: mod_Suc_eq)
  then show ?thesis using False by (simp add: ocs_def oc_def mod_less_divisor less_Suc_eq_le)
qed (simp add: ocs_def oc_def)

lemma ocs_unique: "ocs r S \<Longrightarrow> ocs r' S \<Longrightarrow> r = r'"
proof -
  assume a: "ocs r S" "ocs r' S"
  then have "r mod 65535 = r' mod 65535" "r < 65536" "r' < 65536" "r = 0 \<longleftrightarrow> r' = 0" by (auto simp: ocs_def)
  then show ?thesis by (cases "r = 65535"; cases "r' = 65535") auto
qed

lemma ocs_eq: "ocs r S \<longleftrightarrow> r = oc S"
  using ocs_unique ocs_oc by blast

lemma ocs_cong: "ocs r S \<Longrightarrow> S mod 65535 = T mod 65535 \<Longrightarrow> (S = 0 \<longleftrightarrow> T = 0) \<Longrightarrow> ocs r T"
  by (simp add: ocs_def)

lemma FOLD_eq: "FOLD_U32T u = u div 65536 + u mod 65536" if "u < 4294967296"
proof -
  have "u div 65536 < 65536" using that by (simp add: less_mult_imp_div_less)
  moreover have "u mod 65536 < 65536" by simp
  ultimately show ?thesis unfolding FOLD_U32T_def and_low_half by (simp add: drop_bit_eq_div)
qed

lemma FOLD_mod: "u < 4294967296 \<Longrightarrow> FOLD_U32T u mod 65535 = u mod 65535"
proof -
  assume "u < 4294967296"
  moreover have "u = (u div 65536 + u mod 65536) + u div 65536 * 65535" by simp
  then have "(u div 65536 + u mod 65536) mod 65535 = u mod 65535" by (metis mod_mult_self1)
  ultimately show ?thesis by (simp add: FOLD_eq)
qed

lemma FOLD_0: "u < 4294967296 \<Longrightarrow> FOLD_U32T u = 0 \<longleftrightarrow> u = 0"
  by (auto simp: FOLD_eq)

lemma FOLD_once: "u \<le> 131070 \<Longrightarrow> FOLD_U32T u < 65536"
proof (cases "u < 65536")
  case False
  assume "u \<le> 131070"
  then obtain v where "u = 65536 + v" "v < 65535" using False le_Suc_ex [of 65536 u] by auto
  then show ?thesis by (simp add: FOLD_eq)
qed (simp add: FOLD_eq)

lemma ocs_FOLD: "u \<le> 131070 \<Longrightarrow> ocs (FOLD_U32T u) u"
  by (simp add: ocs_def FOLD_once FOLD_mod FOLD_0)

lemma FOLD_le: "u < 4294967296 \<Longrightarrow> FOLD_U32T u \<le> 131070"
proof -
  assume u: "u < 4294967296"
  then have "u div 65536 < 65536" by (simp add: less_mult_imp_div_less)
  moreover have "u mod 65536 < 65536" by simp
  ultimately show ?thesis unfolding FOLD_eq [OF u] by linarith
qed

lemma ocs_FOLD2: "u < 4294967296 \<Longrightarrow> ocs (FOLD_U32T (FOLD_U32T u)) u"
  by (rule ocs_cong [OF ocs_FOLD [OF FOLD_le]]) (simp_all add: FOLD_mod FOLD_0)

lemma ocs_add: "ocs r S \<Longrightarrow> ocs c T \<Longrightarrow> ocs (FOLD_U32T (u32_of (r + c))) (S + T)"
proof -
  assume a: "ocs r S" "ocs c T"
  then have le: "r + c \<le> 131070" by (simp add: ocs_def)
  have "(r + c) mod 65535 = (S + T) mod 65535" using a by (intro mod_add_cong) (simp_all add: ocs_def)
  moreover have "r + c = 0 \<longleftrightarrow> S + T = 0" using a by (simp add: ocs_def)
  ultimately show ?thesis using ocs_cong [OF ocs_FOLD [OF le]] le by simp
qed

lemma SWAP_eq: "SWAP_BYTES_IN_WORD w = 256 * (w mod 256) + w div 256 mod 256"
  unfolding SWAP_BYTES_IN_WORD_def and_low_byte and_high_byte by (simp add: or_bytes)

lemma ocs_SWAP: "ocs r S \<Longrightarrow> ocs (SWAP_BYTES_IN_WORD r) (256 * S)"
proof -
  assume a: "ocs r S"
  then have r: "r < 65536" by (simp add: ocs_def)
  then have d: "r div 256 < 256" by (simp add: less_mult_imp_div_less)
  have m: "r mod 256 < 256" by simp
  have eq: "SWAP_BYTES_IN_WORD r = 256 * (r mod 256) + r div 256" using d by (simp add: SWAP_eq)
  have "256 * r = 256 * (r mod 256) + r div 256 + r div 256 * 65535"
    using div_mult_mod_eq [of r 256] by linarith
  then have "(256 * (r mod 256) + r div 256) mod 65535 = 256 * r mod 65535" by (metis mod_mult_self1)
  also have "\<dots> = 256 * S mod 65535" using a by (intro mod_mult_cong) (simp_all add: ocs_def)
  finally have "SWAP_BYTES_IN_WORD r mod 65535 = 256 * S mod 65535" unfolding eq .
  moreover have "SWAP_BYTES_IN_WORD r < 65536" unfolding eq using d m by linarith
  moreover have "SWAP_BYTES_IN_WORD r = 0 \<longleftrightarrow> r = 0"
    unfolding eq using div_mult_mod_eq [of r 256] by auto
  ultimately show ?thesis using a by (simp add: ocs_def)
qed

lemma mod_256_256: "256 * (256 * S) mod 65535 = S mod 65535" for S :: nat
proof -
  have "256 * (256 * S) = S + S * 65535" by simp
  then show ?thesis by (metis mod_mult_self1)
qed

lemma lwip_htons_SWAP: "lwip_htons r = SWAP_BYTES_IN_WORD r"
  by (simp add: lwip_htons_def PP_HTONS_eq SWAP_eq)

section \<open>Sums of words\<close>

lemma unat_u8: "unat (b :: u8) < 256"
  using unsigned_less [of b, where ?'a = nat] by simp

lemma wsum_0: "wsum bs = 0 \<longleftrightarrow> (\<forall>b \<in> set bs. b = 0)"
  by (induction bs rule: wsum.induct) (auto simp: unat_eq_0)

lemma wsum_Cons: "wsum (a # bs) mod 65535 = (unat a + 256 * wsum bs) mod 65535"
proof (induction bs arbitrary: a rule: wsum.induct)
  case (3 x y bs)
  have "wsum (a # x # y # bs) mod 65535 = (unat a + 256 * unat x + wsum (y # bs)) mod 65535" by simp
  also have "\<dots> = (unat a + 256 * unat x + (unat y + 256 * wsum bs)) mod 65535"
    using 3 [of y] by (intro mod_add_cong) simp_all
  also have "\<dots> = (unat a + 256 * unat x + (256 * (256 * unat y) + 256 * wsum bs)) mod 65535"
    by (intro mod_add_cong refl) (simp only: mod_256_256)
  also have "\<dots> = (unat a + 256 * wsum (x # y # bs)) mod 65535" by (simp add: algebra_simps)
  finally show ?case .
qed simp_all

lemma wsum_append_even: "even (length as) \<Longrightarrow> wsum (as @ bs) = wsum as + wsum bs"
  by (induction as rule: wsum.induct) auto

lemma wsum_le: "wsum bs \<le> 65535 * ((length bs + 1) div 2)"
proof (induction bs rule: wsum.induct)
  case (2 a) show ?case using unat_u8 [of a] by simp
next
  case (3 a b bs) then show ?case using unat_u8 [of a] unat_u8 [of b] by simp
qed simp

lemma get_bytes_2: "1 < n \<Longrightarrow> get_bytes m a n = m a # m (a + 1) # get_bytes m (a + 2) (n - 2)"
proof -
  assume "1 < n"
  then obtain k where "n = k + 2" using le_Suc_ex [of 2 n] by auto
  moreover have "[a..<a + (k + 2)] = a # (a + 1) # [a + 2..<a + 2 + k]" by (simp add: upt_conv_Cons)
  ultimately show ?thesis by (simp add: get_bytes_def)
qed

text \<open>The loop over words sums all but an odd last byte.\<close>

lemma chksum_words_eq:
  assumes "s + wsum (get_bytes m ps len) < 4294967296"
  shows "chksum_words m ps len s =
    (ps + 2 * (len div 2), len mod 2, s + wsum (get_bytes m ps (2 * (len div 2))))"
  using assms
proof (induction m ps len s rule: chksum_words.induct)
  case (1 m ps len s)
  show ?case
  proof (cases "1 < len")
    case True
    then have e: "len div 2 = Suc ((len - 2) div 2)" "len mod 2 = (len - 2) mod 2" by (simp_all add: le_div_geq le_mod_geq)
    have w: "wsum (get_bytes m ps k) = u16_at m ps + wsum (get_bytes m (ps + 2) (k - 2))" if "1 < k" for k
      using that by (simp add: get_bytes_2 u16_at_def)
    have "s + u16_at m ps + wsum (get_bytes m (ps + 2) (len - 2)) < 4294967296" using 1(2) w [OF True] by simp
    then have u: "u32_of (s + u16_at m ps) = s + u16_at m ps" by simp
    have "chksum_words m ps len s = chksum_words m (ps + 2) (len - 2) (s + u16_at m ps)"
      using True by (subst chksum_words.simps) (simp add: u)
    also have "\<dots> = (ps + 2 * (len div 2), len mod 2, s + u16_at m ps + wsum (get_bytes m (ps + 2) (2 * ((len - 2) div 2))))"
      using 1(1) [OF True] \<open>s + u16_at m ps + _ < _\<close> by (simp add: u e)
    also have "s + u16_at m ps + wsum (get_bytes m (ps + 2) (2 * ((len - 2) div 2))) = s + wsum (get_bytes m ps (2 * (len div 2)))"
      using w [of "2 * (len div 2)"] by (simp add: e)
    finally show ?thesis .
  next
    case False
    then have "len = 0 \<or> len = 1" by auto
    then show ?thesis by (subst chksum_words.simps) (auto simp: get_bytes_def)
  qed
qed

lemma wsum_last:
  "wsum (get_bytes m a n) = wsum (get_bytes m a (2 * (n div 2))) + (if 0 < n mod 2 then unat (m (a + 2 * (n div 2))) else 0)"
proof (cases "n mod 2 = 0")
  case True
  then have "2 * (n div 2) = n" by auto
  then show ?thesis using True by simp
next
  case False
  then have "n = 2 * (n div 2) + 1" by presburger
  then have "get_bytes m a n = get_bytes m a (2 * (n div 2) + 1)" by simp
  then have "get_bytes m a n = get_bytes m a (2 * (n div 2)) @ [m (a + 2 * (n div 2))]" by (simp add: get_bytes_def)
  then show ?thesis using False by (simp add: wsum_append_even)
qed

text \<open>The end of versions 2 and 3: add the end bytes, fold, and swap after an odd start.\<close>

definition chksum_end :: "bool \<Rightarrow> nat \<Rightarrow> nat" where
  "chksum_end sw s = u16_of (if sw then SWAP_BYTES_IN_WORD (FOLD_U32T (FOLD_U32T (u32_of s)))
     else FOLD_U32T (FOLD_U32T (u32_of s)))"

lemma chksum_end_oc:
  assumes "s < 4294967296" "s mod 65535 = S mod 65535" "s = 0 \<longleftrightarrow> S = 0"
  shows "chksum_end sw s = oc (if sw then 256 * S else S)"
proof -
  have f: "ocs (FOLD_U32T (FOLD_U32T s)) S" using ocs_cong [OF ocs_FOLD2 [OF assms(1)] assms(2,3)] .
  then have "ocs (if sw then SWAP_BYTES_IN_WORD (FOLD_U32T (FOLD_U32T s)) else FOLD_U32T (FOLD_U32T s)) (if sw then 256 * S else S)"
    using ocs_SWAP by simp
  then show ?thesis using assms(1) unfolding ocs_eq chksum_end_def by (simp split: if_splits)
qed

lemma oc_unaligned: "oc (256 * (256 * unat b + wsum bs)) = oc (wsum (b # bs))"
proof -
  have "256 * (256 * unat b + wsum bs) mod 65535 = (256 * (256 * unat b) + 256 * wsum bs) mod 65535"
    by (simp only: distrib_left)
  also have "\<dots> = (unat b + 256 * wsum bs) mod 65535" by (intro mod_add_cong mod_256_256 refl)
  also have "\<dots> = wsum (b # bs) mod 65535" by (rule wsum_Cons [symmetric])
  finally have "256 * (256 * unat b + wsum bs) mod 65535 = wsum (b # bs) mod 65535" .
  moreover have "256 * (256 * unat b + wsum bs) = 0 \<longleftrightarrow> wsum (b # bs) = 0"
    by (simp add: wsum_0 unat_eq_0)
  ultimately show ?thesis using ocs_cong [OF ocs_oc] ocs_eq by metis
qed

lemma and_1_odd: "a AND 1 \<noteq> 0 \<longleftrightarrow> odd a" for a :: nat
  by (simp add: and_one_eq odd_iff_mod_2_eq_one)

text \<open>
  An odd first byte goes to the high half of \<open>t\<close>; with the words from the next address on this is
  the sum of the swapped words.
\<close>

lemma oc_first:
  fixes a len :: nat and m :: bytes
  defines "first \<equiv> odd a \<and> 0 < len"
  defines "T \<equiv> 256 * (if first then unat (m a) else 0) +
    wsum (get_bytes m (if first then a + 1 else a) (if first then len - 1 else len))"
  shows "oc (if odd a then 256 * T else T) = oc (wsum (get_bytes m a len))"
proof (cases first)
  case True
  then have "get_bytes m a len = m a # get_bytes m (a + 1) (len - 1)"
    by (cases len) (simp_all add: get_bytes_def upt_conv_Cons first_def del: upt_Suc)
  then show ?thesis using True oc_unaligned [of "m a" "get_bytes m (a + 1) (len - 1)"]
    by (simp add: T_def first_def)
next
  case False
  then show ?thesis by (cases "odd a") (simp_all add: T_def first_def get_bytes_def)
qed

lemma chksum_2_oc:
  assumes "len \<le> 0x20000"
  shows "lwip_standard_chksum m a len = oc (wsum (get_bytes m a len))"
proof -
  define first where "first \<longleftrightarrow> odd a \<and> 0 < len"
  define t where "t = (if first then unat (m a) else 0)"
  define pb where "pb = (if first then a + 1 else a)"
  define n where "n = (if first then len - 1 else len)"
  define W where "W = wsum (get_bytes m pb n)"
  have "n \<le> 131072" using assms by (auto simp: n_def)
  then have "(n + 1) div 2 \<le> 65536" using div_le_mono [of "n + 1" 131073 2] by simp
  then have "65535 * ((n + 1) div 2) \<le> 65535 * 65536" by (rule mult_le_mono2)
  then have W: "W \<le> 65535 * 65536" using wsum_le [of "get_bytes m pb n"] by (simp add: W_def)
  have t: "t < 256" using unat_u8 by (simp add: t_def)
  have lt: "256 * t + W < 4294967296" using W t by simp
  have "lwip_standard_chksum m a len = chksum_end (odd a) (256 * t + W)"
  proof -
    have "chksum_words m pb n 0 = (pb + 2 * (n div 2), n mod 2, wsum (get_bytes m pb (2 * (n div 2))))"
      using chksum_words_eq [of 0 m pb n] W by (simp add: W_def)
    moreover have "wsum (get_bytes m pb (2 * (n div 2))) + (if 0 < n mod 2 then 256 * (256 * t div 256) + unat (m (pb + 2 * (n div 2))) else 256 * t) = 256 * t + W"
      using wsum_last [of m pb n] by (simp add: W_def)
    moreover have "lwip_standard_chksum m a len = (case chksum_words m pb n 0 of (ps, l, s) \<Rightarrow>
        chksum_end (odd a) (s + (if 0 < l then 256 * (256 * t div 256) + unat (m ps) else 256 * t)))"
      unfolding lwip_standard_chksum_def Let_def and_1_odd chksum_end_def first_def [symmetric] pb_def n_def t_def
      by (cases first) (simp_all split: prod.split)
    ultimately show ?thesis by (simp only: prod.case)
  qed
  also have "\<dots> = oc (if odd a then 256 * (256 * t + W) else 256 * t + W)" by (rule chksum_end_oc [OF lt refl refl])
  also have "\<dots> = oc (wsum (get_bytes m a len))"
    using oc_first [of a len m] by (simp only: t_def W_def pb_def n_def first_def)
  finally show ?thesis .
qed

lemma end_around:
  assumes "s < 4294967296" "w < 4294967296"
  defines "t \<equiv> u32_of (s + w)"
  defines "r \<equiv> if t < s then u32_of (t + 1) else t"
  shows "r < 4294967296 \<and> r mod 65535 = (s + w) mod 65535 \<and> (r = 0 \<longleftrightarrow> s = 0 \<and> w = 0)"
proof (cases "s + w < 4294967296")
  case True
  then show ?thesis by (auto simp: r_def t_def)
next
  case False
  then obtain k where k: "s + w = 4294967296 + k" using le_Suc_ex [of 4294967296 "s + w"] by auto
  then have "t = k" "k < s" "k + 1 < 4294967296" using assms(1,2) by (auto simp: t_def u32_of_def)
  then have "r = k + 1" by (simp add: r_def)
  moreover have "s + w = k + 1 + 65537 * 65535" using k by simp
  then have "(s + w) mod 65535 = (k + 1) mod 65535" by (metis mod_mult_self1)
  ultimately show ?thesis using k \<open>k + 1 < _\<close> by auto
qed

lemma u16_at_lt: "u16_at m a < 65536"
  using unat_u8 [of "m a"] unat_u8 [of "m (a + 1)"] by (simp add: u16_at_def)

lemma u32_at_props:
  "u32_at m a < 4294967296" "u32_at m a mod 65535 = (u16_at m a + u16_at m (a + 2)) mod 65535"
  "u32_at m a = 0 \<longleftrightarrow> u16_at m a = 0 \<and> u16_at m (a + 2) = 0"
proof -
  show "u32_at m a < 4294967296" using u16_at_lt [of m a] u16_at_lt [of m "a + 2"] by (simp add: u32_at_def)
  have "u32_at m a = u16_at m a + u16_at m (a + 2) + u16_at m (a + 2) * 65535" by (simp add: u32_at_def)
  then show "u32_at m a mod 65535 = (u16_at m a + u16_at m (a + 2)) mod 65535" by (metis mod_mult_self1)
qed (simp add: u32_at_def)

lemma wsum_8:
  "7 < n \<Longrightarrow> wsum (get_bytes m a n) = u16_at m a + u16_at m (a + 2) + (u16_at m (a + 4) + u16_at m (a + 6)) +
    wsum (get_bytes m (a + 8) (n - 8))"
proof -
  assume "7 < n"
  moreover have w: "wsum (get_bytes m b k) = u16_at m b + wsum (get_bytes m (b + 2) (k - 2))" if "1 < k" for b k
    using that by (simp add: get_bytes_2 u16_at_def)
  ultimately show ?thesis
    using w [of n a] w [of "n - 2" "a + 2"] w [of "n - 4" "a + 4"] w [of "n - 6" "a + 6"] by (simp add: eval_nat_numeral)
qed

lemma chksum_longs_eq:
  assumes "s < 4294967296"
  shows "\<exists>r. chksum_longs m pl len s = (pl + 8 * (len div 8), len mod 8, r) \<and> r < 4294967296 \<and>
    r mod 65535 = (s + wsum (get_bytes m pl (8 * (len div 8)))) mod 65535 \<and>
    (r = 0 \<longleftrightarrow> s + wsum (get_bytes m pl (8 * (len div 8))) = 0)"
  using assms
proof (induction m pl len s rule: chksum_longs.induct)
  case (1 m pl len s)
  show ?case
  proof (cases "7 < len")
    case True
    then have e: "len div 8 = Suc ((len - 8) div 8)" "len mod 8 = (len - 8) mod 8" by (simp_all add: le_div_geq le_mod_geq)
    define u where "u = u32_of (s + u32_at m pl)"
    define v where "v = (if u < s then u32_of (u + 1) else u)"
    define x where "x = u32_of (v + u32_at m (pl + 4))"
    define y where "y = (if x < v then u32_of (x + 1) else x)"
    have v: "v < 4294967296" "v mod 65535 = (s + u32_at m pl) mod 65535" "v = 0 \<longleftrightarrow> s = 0 \<and> u32_at m pl = 0"
      using end_around [OF 1(2) u32_at_props(1) [of m pl], folded u_def, folded v_def] by simp_all
    have y: "y < 4294967296" "y mod 65535 = (v + u32_at m (pl + 4)) mod 65535" "y = 0 \<longleftrightarrow> v = 0 \<and> u32_at m (pl + 4) = 0"
      using end_around [OF v(1) u32_at_props(1) [of m "pl + 4"], folded x_def, folded y_def] by simp_all
    define A where "A = u16_at m pl + u16_at m (pl + 2) + (u16_at m (pl + 4) + u16_at m (pl + 6))"
    have a4: "pl + 4 + 2 = pl + 6" by simp
    have "y mod 65535 = (s + (u16_at m pl + u16_at m (pl + 2)) + (u16_at m (pl + 4) + u16_at m (pl + 6))) mod 65535"
      unfolding y(2) by (intro mod_add_cong, unfold v(2), intro mod_add_cong refl u32_at_props(2))
        (use u32_at_props(2) [of m "pl + 4"] in \<open>simp only: a4\<close>)
    then have yA: "y mod 65535 = (s + A) mod 65535" by (simp only: A_def add.assoc)
    have y0: "y = 0 \<longleftrightarrow> s + A = 0"
      using v(3) y(3) u32_at_props(3) [of m pl] u32_at_props(3) [of m "pl + 4", unfolded a4] by (auto simp: A_def)
    have "chksum_longs m pl len s = chksum_longs m (pl + 8) (len - 8) y"
      using True by (subst chksum_longs.simps) (simp add: Let_def u_def v_def x_def y_def)
    moreover obtain r where r: "chksum_longs m (pl + 8) (len - 8) y = (pl + 8 + 8 * ((len - 8) div 8), (len - 8) mod 8, r)"
        "r < 4294967296" "r mod 65535 = (y + wsum (get_bytes m (pl + 8) (8 * ((len - 8) div 8)))) mod 65535"
        "r = 0 \<longleftrightarrow> y + wsum (get_bytes m (pl + 8) (8 * ((len - 8) div 8))) = 0"
      using 1(1) [OF True u_def v_def x_def y_def y(1)] by (elim exE conjE) (rule that)
    moreover have w: "wsum (get_bytes m pl (8 * (len div 8))) = A + wsum (get_bytes m (pl + 8) (8 * ((len - 8) div 8)))"
      using wsum_8 [of "8 * (len div 8)" m pl] by (simp add: e A_def)
    moreover have "r mod 65535 = (s + wsum (get_bytes m pl (8 * (len div 8)))) mod 65535"
      unfolding r(3) w add.assoc [symmetric] by (intro mod_add_cong yA refl)
    ultimately show ?thesis using y0 by (intro exI [of _ r]) (auto simp: e)
  next
    case False
    then show ?thesis using 1(2) by (subst chksum_longs.simps) (auto simp: get_bytes_def)
  qed
qed

lemma chksum_3_oc: "lwip_standard_chksum_3 m a len = oc (wsum (get_bytes m a len))"
proof -
  define first where "first \<longleftrightarrow> odd a \<and> 0 < len"
  define t where "t = (if first then unat (m a) else 0)"
  define pb where "pb = (if first then a + 1 else a)"
  define n where "n = (if first then len - 1 else len)"
  define half where "half \<longleftrightarrow> pb AND 3 \<noteq> 0 \<and> 1 < n"
  define s where "s = (if half then u16_at m pb else 0)"
  define pl where "pl = (if half then pb + 2 else pb)"
  define k where "k = (if half then n - 2 else n)"
  let ?q = "8 * (k div 8)"
  have W: "wsum (get_bytes m pb n) = s + wsum (get_bytes m pl k)"
  proof (cases half)
    case True
    then have "1 < n" by (simp add: half_def)
    then show ?thesis using True by (simp add: s_def pl_def k_def get_bytes_2 u16_at_def)
  qed (simp add: s_def pl_def k_def)
  have parts: "wsum (get_bytes m pl k) = wsum (get_bytes m pl ?q) + wsum (get_bytes m (pl + ?q) (k mod 8))"
    using wsum_append_even [of "get_bytes m pl ?q" "get_bytes m (pl + ?q) (k mod 8)"]
    by (simp add: get_bytes_add [symmetric])
  have t: "t < 256" using unat_u8 by (simp add: t_def)
  have s: "s < 4294967296" using u16_at_lt [of m pb] by (simp add: s_def)
  obtain r where r: "chksum_longs m pl k s = (pl + ?q, k mod 8, r)" "r < 4294967296"
      "r mod 65535 = (s + wsum (get_bytes m pl ?q)) mod 65535" "r = 0 \<longleftrightarrow> s + wsum (get_bytes m pl ?q) = 0"
    using chksum_longs_eq [OF s, of m pl k] by (elim exE conjE) (rule that)
  let ?R = "wsum (get_bytes m (pl + ?q) (k mod 8))"
  have "65535 * ((k mod 8 + 1) div 2) \<le> 65535 * 4" by (intro mult_le_mono2) simp
  then have R: "?R \<le> 262140" using wsum_le [of "get_bytes m (pl + ?q) (k mod 8)"] by simp
  note f = FOLD_le [OF r(2)]
  have words: "chksum_words m (pl + ?q) (k mod 8) (FOLD_U32T r) = (pl + ?q + 2 * (k mod 8 div 2), k mod 8 mod 2,
      FOLD_U32T r + wsum (get_bytes m (pl + ?q) (2 * (k mod 8 div 2))))"
    using chksum_words_eq [of "FOLD_U32T r" m "pl + ?q" "k mod 8"] f R by simp
  define X where "X = FOLD_U32T r + (256 * t + ?R)"
  have "lwip_standard_chksum_3 m a len = (case chksum_longs m pl k s of (pl, l, s) \<Rightarrow> case chksum_words m pl l (FOLD_U32T s) of (ps, l, s) \<Rightarrow>
      chksum_end (odd a) (s + (if 0 < l then 256 * (256 * t div 256) + unat (m ps) else 256 * t)))"
    unfolding lwip_standard_chksum_3_def Let_def and_1_odd chksum_end_def first_def [symmetric] pb_def [symmetric] n_def [symmetric]
      half_def [symmetric] s_def [symmetric] pl_def [symmetric] k_def [symmetric]
    by (cases first) (simp_all add: t_def split: prod.split)
  also have "\<dots> = chksum_end (odd a) X"
    using wsum_last [of m "pl + ?q" "k mod 8"] unfolding r(1) prod.case words by (simp add: X_def ac_simps)
  also have "\<dots> = oc (if odd a then 256 * (256 * t + wsum (get_bytes m pb n)) else 256 * t + wsum (get_bytes m pb n))"
  proof (rule chksum_end_oc)
    show "X < 4294967296" using f R t by (simp add: X_def)
    have "X mod 65535 = (s + wsum (get_bytes m pl ?q) + (256 * t + ?R)) mod 65535"
      unfolding X_def by (intro mod_add_cong refl) (simp add: FOLD_mod [OF r(2)] r(3))
    then show "X mod 65535 = (256 * t + wsum (get_bytes m pb n)) mod 65535" by (simp only: W parts ac_simps)
    show "X = 0 \<longleftrightarrow> 256 * t + wsum (get_bytes m pb n) = 0" using FOLD_0 [OF r(2)] r(4) by (auto simp: X_def W parts)
  qed
  also have "\<dots> = oc (wsum (get_bytes m a len))"
    using oc_first [of a len m] by (simp only: t_def pb_def n_def first_def)
  finally show ?thesis .
qed

text \<open>Version 1 sums the words in network order, which is the swapped sum.\<close>

fun bsum :: "u8 list \<Rightarrow> nat" where
  "bsum [] = 0"
| "bsum [a] = 256 * unat a"
| "bsum (a # b # bs) = 256 * unat a + unat b + bsum bs"

lemma bsum_wsum: "bsum bs mod 65535 = 256 * wsum bs mod 65535" "bsum bs = 0 \<longleftrightarrow> wsum bs = 0" "bsum bs \<le> 65535 * ((length bs + 1) div 2)"
proof (induction bs rule: bsum.induct)
  case (3 a b bs)
  have "bsum (a # b # bs) mod 65535 = (256 * unat a + (256 * (256 * unat b) + 256 * wsum bs)) mod 65535"
    unfolding bsum.simps add.assoc by (intro mod_add_cong refl 3(1)) (rule mod_256_256 [symmetric])
  then show "bsum (a # b # bs) mod 65535 = 256 * wsum (a # b # bs) mod 65535" by (simp only: wsum.simps distrib_left add.assoc)
  show "bsum (a # b # bs) = 0 \<longleftrightarrow> wsum (a # b # bs) = 0" using 3(2) by auto
  show "bsum (a # b # bs) \<le> 65535 * ((length (a # b # bs) + 1) div 2)"
    using 3(3) unat_u8 [of a] unat_u8 [of b] by simp
next
  case (2 a)
  show "bsum [a] \<le> 65535 * ((length [a] + 1) div 2)" using unat_u8 [of a] by simp
qed simp_all

lemma octet_pair: "u16_of (push_bit 8 (unat a)) OR unat b = 256 * unat a + unat b" "u16_of (push_bit 8 (unat a)) = 256 * unat a"
  for a b :: u8
proof -
  have u: "u16_of (push_bit 8 (unat a)) = push_bit 8 (unat a)" using unat_u8 [of a] by (simp add: push_bit_eq_mult)
  show "u16_of (push_bit 8 (unat a)) OR unat b = 256 * unat a + unat b" unfolding u by (rule or_bytes [OF unat_u8])
  show "u16_of (push_bit 8 (unat a)) = 256 * unat a" unfolding u by (simp add: push_bit_eq_mult)
qed

lemma chksum_pairs_eq:
  assumes "acc + bsum (get_bytes m p len) < 4294967296"
  shows "chksum_pairs m p len acc = (p + 2 * (len div 2), len mod 2, acc + bsum (get_bytes m p (2 * (len div 2))))"
  using assms
proof (induction m p len acc rule: chksum_pairs.induct)
  case (1 m p len acc)
  show ?case
  proof (cases "1 < len")
    case True
    then have e: "len div 2 = Suc ((len - 2) div 2)" "len mod 2 = (len - 2) mod 2" by (simp_all add: le_div_geq le_mod_geq)
    define v where "v = 256 * unat (m p) + unat (m (p + 1))"
    have w: "bsum (get_bytes m p k) = v + bsum (get_bytes m (p + 2) (k - 2))" if "1 < k" for k
      using that by (simp add: get_bytes_2 v_def)
    have lt: "acc + v + bsum (get_bytes m (p + 2) (len - 2)) < 4294967296" using 1(2) w [OF True] by simp
    then have u: "u32_of (acc + v) = acc + v" by simp
    have "chksum_pairs m p len acc = chksum_pairs m (p + 2) (len - 2) (acc + v)"
      using True by (subst chksum_pairs.simps) (simp add: Let_def octet_pair(1) u [unfolded v_def, simplified] v_def)
    also have "\<dots> = (p + 2 * (len div 2), len mod 2, acc + v + bsum (get_bytes m (p + 2) (2 * ((len - 2) div 2))))"
      using 1(1) [OF True refl refl] lt by (simp add: octet_pair(1) u [unfolded v_def, simplified] e v_def)
    also have "acc + v + bsum (get_bytes m (p + 2) (2 * ((len - 2) div 2))) = acc + bsum (get_bytes m p (2 * (len div 2)))"
      using w [of "2 * (len div 2)"] by (simp add: e)
    finally show ?thesis .
  next
    case False
    then have "len = 0 \<or> len = 1" by auto
    then show ?thesis by (subst chksum_pairs.simps) (auto simp: get_bytes_def)
  qed
qed

lemma bsum_append_even: "even (length as) \<Longrightarrow> bsum (as @ bs) = bsum as + bsum bs"
  by (induction as rule: bsum.induct) auto

lemma bsum_last:
  "bsum (get_bytes m a n) = bsum (get_bytes m a (2 * (n div 2))) + (if 0 < n mod 2 then 256 * unat (m (a + 2 * (n div 2))) else 0)"
proof -
  have "get_bytes m a n = get_bytes m a (2 * (n div 2)) @ get_bytes m (a + 2 * (n div 2)) (n mod 2)"
    by (simp add: get_bytes_add [symmetric])
  moreover have "get_bytes m b (n mod 2) = (if 0 < n mod 2 then [m b] else [])" for b
    by (cases "n mod 2 = 0") (auto simp: get_bytes_def)
  ultimately show ?thesis by (simp add: bsum_append_even)
qed

lemma FOLD_if: "x < 4294967296 \<Longrightarrow> (if x AND 0xffff0000 \<noteq> 0 then FOLD_U32T x else x) = FOLD_U32T x"
proof -
  assume x: "x < 4294967296"
  have "drop_bit 16 (x AND 0xffff0000) = drop_bit 16 x AND 0xffff" by (subst drop_bit_and) simp
  moreover have "x AND 0xffff0000 = 0 \<Longrightarrow> drop_bit 16 (x AND 0xffff0000) = 0" by simp
  ultimately have "x AND 0xffff0000 = 0 \<Longrightarrow> x div 65536 mod 65536 = 0" by (simp add: and_low_half drop_bit_eq_div)
  moreover have "x div 65536 mod 65536 = x div 65536" using x by (intro mod_less) (simp add: less_mult_imp_div_less)
  ultimately have "x AND 0xffff0000 = 0 \<Longrightarrow> FOLD_U32T x = x" using x by (simp add: FOLD_eq)
  then show ?thesis by simp
qed

lemma chksum_1_oc:
  assumes "len \<le> 0x20000"
  shows "lwip_standard_chksum_1 m a len = oc (wsum (get_bytes m a len))"
proof -
  let ?B = "bsum (get_bytes m a len)"
  have "(len + 1) div 2 \<le> 65536" using div_le_mono [of "len + 1" 131073 2] assms by simp
  then have "65535 * ((len + 1) div 2) \<le> 65535 * 65536" by (rule mult_le_mono2)
  then have B: "?B < 4294967296" using bsum_wsum(3) [of "get_bytes m a len"] by simp
  have last: "(if 0 < len mod 2 then u32_of (bsum (get_bytes m a (2 * (len div 2))) + 256 * unat (m (a + 2 * (len div 2))))
      else bsum (get_bytes m a (2 * (len div 2)))) = ?B"
    using bsum_last [of m a len] B by (cases "0 < len mod 2") simp_all
  have "lwip_standard_chksum_1 m a len = lwip_htons (u16_of (FOLD_U32T (FOLD_U32T ?B)))"
    using chksum_pairs_eq [of 0 m a len] B FOLD_if [of "FOLD_U32T ?B"] FOLD_le [OF B]
    unfolding lwip_standard_chksum_1_def
    by (simp only: prod.case Let_def octet_pair add_0 last FOLD_U32T_def [symmetric])
  moreover have f: "ocs (FOLD_U32T (FOLD_U32T ?B)) (256 * wsum (get_bytes m a len))"
    using ocs_cong [OF ocs_FOLD2 [OF B]] bsum_wsum(1,2) [of "get_bytes m a len"] by simp
  moreover have "ocs (SWAP_BYTES_IN_WORD (FOLD_U32T (FOLD_U32T ?B))) (wsum (get_bytes m a len))"
    using ocs_cong [OF ocs_SWAP [OF f]] mod_256_256 by simp
  ultimately show ?thesis by (simp add: lwip_htons_SWAP ocs_eq)
qed

section \<open>Chains of pbufs\<close>

text \<open>The sum of bytes that start at an odd offset, up to end-around carry.\<close>

definition sw :: "bool \<Rightarrow> nat \<Rightarrow> nat" where
  "sw b S = (if b then 256 * S else S)"

lemma oc_eq_iff: "oc S = oc T \<longleftrightarrow> S mod 65535 = T mod 65535 \<and> (S = 0 \<longleftrightarrow> T = 0)"
  using ocs_oc [of S] ocs_oc [of T] by (auto simp: ocs_def ocs_eq [symmetric])

lemma oc_add_cong: "oc S = oc S' \<Longrightarrow> oc T = oc T' \<Longrightarrow> oc (S + T) = oc (S' + T')"
  unfolding oc_eq_iff by (auto intro: mod_add_cong)

lemma oc_sw_cong: "oc S = oc S' \<Longrightarrow> oc (sw b S) = oc (sw b S')"
  unfolding oc_eq_iff sw_def by (auto intro: mod_mult_cong)

lemma oc_sw_sw: "oc (sw b (sw c S)) = oc (sw (b \<noteq> c) S)"
  unfolding oc_eq_iff sw_def using mod_256_256 by auto

lemma sw_False [simp]: "sw False S = S"
  by (simp add: sw_def)

lemma oc_0 [simp]: "oc 0 = 0"
  by (simp add: oc_def)

lemma sw_add: "sw b (S + T) = sw b S + sw b T"
  by (simp add: sw_def)

lemma oc_oc [simp]: "oc (oc S) = oc S"
  using ocs_oc [of S] by (simp add: oc_eq_iff ocs_def)

lemma SWAP_oc: "(if b then SWAP_BYTES_IN_WORD (oc S) else oc S) = oc (sw b S)"
  using ocs_SWAP [OF ocs_oc, of S] by (simp add: ocs_eq sw_def)

lemma FOLD_oc: "FOLD_U32T (u32_of (oc S + oc T)) = oc (S + T)"
  using ocs_add [OF ocs_oc ocs_oc, of S T] by (simp add: ocs_eq)

lemma wsum_append: "oc (wsum (as @ bs)) = oc (wsum as + sw (odd (length as)) (wsum bs))"
proof (induction as)
  case (Cons a as)
  have c: "oc (wsum (a # cs)) = oc (unat a + sw True (wsum cs))" for cs
    using wsum_Cons [of a cs] wsum_0 [of "a # cs"] wsum_0 [of cs] by (auto simp: oc_eq_iff sw_def unat_eq_0)
  have "oc (wsum ((a # as) @ bs)) = oc (unat a + sw True (wsum as + sw (odd (length as)) (wsum bs)))"
    using c [of "as @ bs"] oc_add_cong [OF refl oc_sw_cong [OF Cons]] by simp
  also have "\<dots> = oc ((unat a + sw True (wsum as)) + sw True (sw (odd (length as)) (wsum bs)))" by (simp add: sw_add add.assoc)
  also have "\<dots> = oc (wsum (a # as) + sw (odd (length (a # as))) (wsum bs))"
    by (rule oc_add_cong [OF c [symmetric]]) (simp add: oc_sw_sw)
  finally show ?case .
qed (simp add: sw_def)

text \<open>
  One pbuf of the chain: after adding the sum of its bytes and swapping for an odd length, the
  accumulator is the swapped sum of everything up to here.
\<close>

lemma chain_step: "oc (sw l (sw b S + C)) = oc (sw (b \<noteq> l) (S + sw b C))"
proof -
  have "oc (sw l (sw b S)) = oc (sw (b \<noteq> l) S)" "oc (sw l C) = oc (sw (b \<noteq> l) (sw b C))"
    using oc_sw_sw [of l b S] oc_sw_sw [of "b \<noteq> l" b C] by (cases b; cases l; simp)+
  then have "oc (sw l (sw b S) + sw l C) = oc (sw (b \<noteq> l) S + sw (b \<noteq> l) (sw b C))" by (rule oc_add_cong)
  then show ?thesis by (simp add: sw_add)
qed

lemma pdata_Cons_oc:
  "oc (S + sw b (wsum (pdata s (x # xs)))) =
    oc (S + sw b (wsum (get_bytes (mem_bytes s) (pb_payload (pbufs s x)) (pb_len (pbufs s x)))) +
      sw (b \<noteq> odd (pb_len (pbufs s x))) (wsum (pdata s xs)))"
proof -
  let ?d = "get_bytes (mem_bytes s) (pb_payload (pbufs s x)) (pb_len (pbufs s x))"
  have "oc (sw b (wsum (?d @ pdata s xs))) = oc (sw b (wsum ?d + sw (odd (pb_len (pbufs s x))) (wsum (pdata s xs))))"
    by (rule oc_sw_cong) (simp add: wsum_append)
  also have "\<dots> = oc (sw b (wsum ?d) + sw (b \<noteq> odd (pb_len (pbufs s x))) (wsum (pdata s xs)))"
    unfolding sw_add by (rule oc_add_cong [OF refl oc_sw_sw])
  finally show ?thesis using oc_add_cong [OF refl, of "sw b (wsum (?d @ pdata s xs))" _ S] by (simp add: add.assoc)
qed

lemma chksum_chain_oc:
  assumes "pchain s q xs" "plen (pbufs s) xs < 65536"
  shows "\<exists>T. chksum_chain s q (oc (sw b S)) b = Some (oc (sw (b \<noteq> odd (plen (pbufs s) xs)) T), b \<noteq> odd (plen (pbufs s) xs)) \<and>
    oc T = oc (S + sw b (wsum (pdata s xs)))"
  using assms
proof (induction xs arbitrary: q b S)
  case Nil
  then show ?case by (intro exI [of _ S]) (simp add: chksum_chain.simps sw_def)
next
  case (Cons x xs)
  let ?C = "wsum (get_bytes (mem_bytes s) (pb_payload (pbufs s x)) (pb_len (pbufs s x)))"
  let ?l = "odd (pb_len (pbufs s x))"
  have q: "q = x" "q \<noteq> 0" and ch: "pchain s (pb_next (pbufs s x)) xs" using Cons.prems(1) by auto
  have "lwip_standard_chksum (mem_bytes s) (pb_payload (pbufs s x)) (pb_len (pbufs s x)) = oc ?C"
    using Cons.prems(2) by (intro chksum_2_oc) simp
  moreover have "(pb_len (pbufs s x) mod 2 \<noteq> 0) = ?l" "(if ?l then \<not> b else b) = (b \<noteq> ?l)" by (auto simp: odd_iff_mod_2_eq_one)
  moreover have "x \<noteq> 0" using q by simp
  ultimately have "chksum_chain s q (oc (sw b S)) b = chksum_chain s (pb_next (pbufs s x)) (oc (sw ?l (sw b S + ?C))) (b \<noteq> ?l)"
    unfolding q(1) by (subst chksum_chain.simps) (simp only: not_False_eq_True if_True Let_def FOLD_oc SWAP_oc)
  also have "oc (sw ?l (sw b S + ?C)) = oc (sw (b \<noteq> ?l) (S + sw b ?C))" by (rule chain_step)
  finally have step: "chksum_chain s q (oc (sw b S)) b = chksum_chain s (pb_next (pbufs s x)) (oc (sw (b \<noteq> ?l) (S + sw b ?C))) (b \<noteq> ?l)" .
  have "plen (pbufs s) xs < 65536" using Cons.prems(2) by simp
  from Cons.IH [OF ch this, of "b \<noteq> ?l" "S + sw b ?C"] obtain T where
    T: "chksum_chain s (pb_next (pbufs s x)) (oc (sw (b \<noteq> ?l) (S + sw b ?C))) (b \<noteq> ?l) =
        Some (oc (sw ((b \<noteq> ?l) \<noteq> odd (plen (pbufs s) xs)) T), (b \<noteq> ?l) \<noteq> odd (plen (pbufs s) xs))"
      "oc T = oc (S + sw b ?C + sw (b \<noteq> ?l) (wsum (pdata s xs)))" by (elim exE conjE) (rule that)
  have p: "((b \<noteq> ?l) \<noteq> odd (plen (pbufs s) xs)) = (b \<noteq> odd (plen (pbufs s) (x # xs)))" by auto
  show ?case using T unfolding p step pdata_Cons_oc by blast
qed

lemma and_half_oc: "oc S AND 65535 = oc S"
  using mod_less [OF oc_lt [of S]] by (simp add: and_low_half)

lemma inet_chksum_pbuf_oc:
  assumes "packet s p xs"
  shows "inet_chksum_pbuf p s = Some (65535 - oc (wsum (pdata s xs)))"
proof -
  define b where "b = odd (plen (pbufs s) xs)"
  obtain T where T: "chksum_chain s p (oc (sw False 0)) False = Some (oc (sw b T), b)" "oc T = oc (wsum (pdata s xs))"
    using chksum_chain_oc [of s p xs False 0] assms by (auto simp: packet_def b_def)
  have "(if b then SWAP_BYTES_IN_WORD (oc (sw b T)) else oc (sw b T)) = oc (wsum (pdata s xs))"
    unfolding SWAP_oc using T(2) by (simp add: oc_sw_sw)
  then show ?thesis using T(1) by (simp add: inet_chksum_pbuf_def and_half_oc)
qed

text \<open>The chain of which only the first \<open>n\<close> bytes are summed.\<close>

lemma take_pdata_oc:
  "oc (S + sw b (wsum (take n (pdata s (x # xs))))) =
    oc (S + sw b (wsum (get_bytes (mem_bytes s) (pb_payload (pbufs s x)) (min n (pb_len (pbufs s x))))) +
      sw (b \<noteq> odd (pb_len (pbufs s x))) (wsum (take (n - pb_len (pbufs s x)) (pdata s xs))))"
proof -
  let ?d = "get_bytes (mem_bytes s) (pb_payload (pbufs s x)) (min n (pb_len (pbufs s x)))"
  let ?r = "take (n - pb_len (pbufs s x)) (pdata s xs)"
  have t: "take n (pdata s (x # xs)) = ?d @ ?r" by (cases "n \<le> pb_len (pbufs s x)") (simp_all add: take_get_bytes min_def)
  have o: "sw (odd (length ?d)) (wsum ?r) = sw (odd (pb_len (pbufs s x))) (wsum ?r)"
    by (cases "n \<le> pb_len (pbufs s x)") (simp_all add: min_def sw_def)
  have "oc (sw b (wsum (?d @ ?r))) = oc (sw b (wsum ?d + sw (odd (pb_len (pbufs s x))) (wsum ?r)))"
    unfolding o [symmetric] by (rule oc_sw_cong [OF wsum_append])
  also have "\<dots> = oc (sw b (wsum ?d) + sw (b \<noteq> odd (pb_len (pbufs s x))) (wsum ?r))"
    unfolding sw_add by (rule oc_add_cong [OF refl oc_sw_sw])
  finally show ?thesis unfolding t using oc_add_cong [OF refl, of "sw b (wsum (?d @ ?r))" _ S] by (simp add: add.assoc)
qed

lemma chksum_chain_partial_oc:
  assumes "pchain s q xs" "plen (pbufs s) xs < 65536" "n < 65536"
  shows "\<exists>T c. chksum_chain_partial s q n (oc (sw b S)) b = Some (oc (sw c T), c) \<and>
    oc T = oc (S + sw b (wsum (take n (pdata s xs))))"
  using assms
proof (induction xs arbitrary: q b S n)
  case Nil
  then show ?case by (intro exI [of _ S] exI [of _ b]) (simp add: chksum_chain_partial.simps sw_def)
next
  case (Cons x xs)
  show ?case
  proof (cases "n = 0")
    case True
    then show ?thesis by (intro exI [of _ S] exI [of _ b]) (simp add: chksum_chain_partial.simps sw_def)
  next
    case False
    let ?k = "min n (pb_len (pbufs s x))"
    let ?C = "wsum (get_bytes (mem_bytes s) (pb_payload (pbufs s x)) ?k)"
    let ?l = "odd (pb_len (pbufs s x))"
    have q: "q = x" "q \<noteq> 0" and ch: "pchain s (pb_next (pbufs s x)) xs" using Cons.prems(1) by auto
    have "lwip_standard_chksum (mem_bytes s) (pb_payload (pbufs s x)) ?k = oc ?C"
      using Cons.prems(2) by (intro chksum_2_oc) simp
    moreover have "(if n < pb_len (pbufs s x) then n else pb_len (pbufs s x)) = ?k" by simp
    moreover have "u16_sub n ?k = n - pb_len (pbufs s x)"
      using Cons.prems(3) by (simp add: u16_sub_le min_def)
    moreover have "(pb_len (pbufs s x) mod 2 \<noteq> 0) = ?l" "(if ?l then \<not> b else b) = (b \<noteq> ?l)" by (auto simp: odd_iff_mod_2_eq_one)
    moreover have "x \<noteq> 0" "0 < n" using q False by simp_all
    ultimately have "chksum_chain_partial s q n (oc (sw b S)) b =
        chksum_chain_partial s (pb_next (pbufs s x)) (n - pb_len (pbufs s x)) (oc (sw ?l (sw b S + ?C))) (b \<noteq> ?l)"
      unfolding q(1) by (subst chksum_chain_partial.simps) (simp only: not_False_eq_True simp_thms if_True Let_def FOLD_oc SWAP_oc)
    also have "oc (sw ?l (sw b S + ?C)) = oc (sw (b \<noteq> ?l) (S + sw b ?C))" by (rule chain_step)
    finally have step: "chksum_chain_partial s q n (oc (sw b S)) b =
        chksum_chain_partial s (pb_next (pbufs s x)) (n - pb_len (pbufs s x)) (oc (sw (b \<noteq> ?l) (S + sw b ?C))) (b \<noteq> ?l)" .
    have "plen (pbufs s) xs < 65536" "n - pb_len (pbufs s x) < 65536" using Cons.prems(2,3) by simp_all
    from Cons.IH [OF ch this, of "b \<noteq> ?l" "S + sw b ?C"] show ?thesis
      unfolding step take_pdata_oc .
  qed
qed

section \<open>The pseudo header\<close>

text \<open>The bytes of an address as it lies in memory.\<close>

definition addr_bytes :: "u32 \<Rightarrow> u8 list" where
  "addr_bytes w = [ucast w, ucast (drop_bit 8 w), ucast (drop_bit 16 w), ucast (drop_bit 24 w)]"

lemma unat_byte: "unat (ucast (drop_bit n w) :: u8) = unat w div 2 ^ n mod 256" for w :: u32
proof -
  have "unat w < 4294967296" using unsigned_less [of w, where ?'a = nat] by simp
  then show ?thesis unfolding unsigned_ucast_eq take_bit_eq_mod unsigned_drop_bit_eq by (simp add: drop_bit_eq_div)
qed

lemma wsum_addr: "wsum (addr_bytes w) = unat w mod 65536 + unat w div 65536"
proof -
  have "unat w < 4294967296" using unsigned_less [of w, where ?'a = nat] by simp
  then have "unat w div 65536 < 65536" by (simp add: less_mult_imp_div_less)
  then have "unat w div 65536 = unat w div 65536 mod 256 + 256 * (unat w div 16777216 mod 256)"
    using mod_mult2_eq [of "unat w div 65536" 256 256] by (simp add: div_mult2_eq [symmetric])
  moreover have "unat w mod 65536 = unat w mod 256 + 256 * (unat w div 256 mod 256)"
    using mod_mult2_eq [of "unat w" 256 256] by simp
  ultimately show ?thesis using unat_byte [of 0 w] by (simp add: addr_bytes_def unat_byte)
qed

lemma pseudo_addresses_oc: "pseudo_addresses src dest = oc (wsum (addr_bytes src @ addr_bytes dest))"
proof -
  have lt: "unat w < 4294967296" for w :: u32 using unsigned_less [of w, where ?'a = nat] by simp
  have h: "drop_bit 16 (unat w) mod 65536 = unat w div 65536" for w :: u32
    using lt [of w] by (simp add: drop_bit_eq_div less_mult_imp_div_less)
  have b: "unat w mod 65536 < 65536" "unat w div 65536 < 65536" for w :: u32
    using lt [of w] by (simp_all add: less_mult_imp_div_less)
  define A where "A = unat src mod 65536 + unat src div 65536 + unat dest mod 65536 + unat dest div 65536"
  have "pseudo_addresses src dest = FOLD_U32T (FOLD_U32T A)"
    using b [of src] b [of dest] unfolding pseudo_addresses_def Let_def A_def by (simp add: and_low_half h)
  also have "\<dots> = oc A" using ocs_FOLD2 [of A] b [of src] b [of dest] by (simp add: ocs_eq A_def)
  also have "A = wsum (addr_bytes src @ addr_bytes dest)"
    by (simp add: wsum_append_even wsum_addr A_def addr_bytes_def [of src, THEN arg_cong [of _ _ length]])
  finally show ?thesis .
qed

text \<open>The rest of the pseudo header: a zero byte, the protocol and the length in network order.\<close>

definition pseudo_tail :: "nat \<Rightarrow> nat \<Rightarrow> u8 list" where
  "pseudo_tail proto n = [0, of_nat proto, of_nat (n div 256), of_nat (n mod 256)]"

definition pseudo_header :: "u32 \<Rightarrow> u32 \<Rightarrow> nat \<Rightarrow> nat \<Rightarrow> u8 list" where
  "pseudo_header src dest proto n = addr_bytes src @ addr_bytes dest @ pseudo_tail proto n"

lemma unat_of_nat_u8: "n < 256 \<Longrightarrow> unat (of_nat n :: u8) = n"
  by (simp add: unat_of_nat take_bit_eq_mod)

lemma pseudo_tail_wsum:
  assumes "proto < 256" "n < 65536"
  shows "wsum (pseudo_tail proto n) = lwip_htons (u16_of proto) + lwip_htons n"
proof -
  have "n div 256 < 256" "n mod 256 < 256" using assms(2) by (simp_all add: less_mult_imp_div_less)
  then show ?thesis using assms by (simp add: pseudo_tail_def lwip_htons_def PP_HTONS_eq unat_of_nat_u8)
qed

lemma pseudo_end:
  assumes "oc T = oc (A + D)" "proto < 256" "n < 65536" "oc A = oc (wsum as)" "oc D = oc (wsum ds)" "even (length as)"
  shows "65535 - (FOLD_U32T (FOLD_U32T (u32_of (u32_of (oc T + lwip_htons (u16_of proto)) + lwip_htons n))) AND 65535) =
    65535 - oc (wsum (as @ pseudo_tail proto n @ ds))"
proof -
  let ?H = "lwip_htons (u16_of proto) + lwip_htons n"
  have "lwip_htons (u16_of proto) < 65536" "lwip_htons n < 65536" "oc T < 65536" by simp_all
  then have lt: "oc T + ?H < 4294967296" by linarith
  then have "FOLD_U32T (FOLD_U32T (u32_of (u32_of (oc T + lwip_htons (u16_of proto)) + lwip_htons n))) = oc (oc T + ?H)"
    using ocs_FOLD2 [OF lt] by (simp add: ocs_eq add.assoc)
  also have "\<dots> = oc (T + ?H)" by (rule oc_add_cong) simp_all
  also have "\<dots> = oc (wsum as + wsum ds + ?H)"
    using oc_add_cong [OF assms(4,5)] assms(1) by (intro oc_add_cong) simp_all
  also have "wsum as + wsum ds + ?H = wsum (as @ pseudo_tail proto n @ ds)"
    using assms(6) pseudo_tail_wsum [OF assms(2,3)] by (simp add: wsum_append_even pseudo_tail_def)
  finally show ?thesis by (simp add: and_half_oc)
qed

section \<open>Properties\<close>

text \<open>
  C8. The three versions of \<open>lwip_standard_chksum\<close> agree, at even and odd addresses alike: each returns the
  ones' complement sum of the sixteen-bit words of the buffer. Versions 1 and 2 do so for up to
  \<open>0x20000\<close> bytes, beyond which their accumulator may overflow, version 3 for any length.
\<close>
theorem chksum_algorithms_agree:
  assumes "len \<le> 0x20000"
  shows "lwip_standard_chksum m a len = oc (wsum (get_bytes m a len)) \<and>
    lwip_standard_chksum_1 m a len = lwip_standard_chksum m a len \<and>
    lwip_standard_chksum_3 m a len = lwip_standard_chksum m a len"
  using chksum_1_oc [OF assms] chksum_2_oc [OF assms] chksum_3_oc by simp

theorem chksum_algorithms_agree_witness:
  "lwip_standard_chksum_3 of_nat 1001 11 = lwip_standard_chksum_1 of_nat 1001 11"
  using chksum_algorithms_agree [of 11 of_nat 1001] by simp

text \<open>
  C9. The checksum of a packet under the IPv4 pseudo header is the inverted ones' complement sum of the
  addresses, the protocol, the length and the packet's data in one row, however the data is cut into
  pbufs of even and odd length; the partial variant takes only the first bytes of the data.
\<close>
theorem inet_chksum_pseudo_rfc1071:
  assumes "packet s p xs" "proto < 256" "proto_len < 65536" "n < 65536"
  shows "inet_chksum_pseudo p proto proto_len src dest s = Some (65535 - oc (wsum (pseudo_header src dest proto proto_len @ pdata s xs))) \<and>
    inet_chksum_pseudo_partial p proto proto_len n src dest s = Some (65535 - oc (wsum (pseudo_header src dest proto proto_len @ take n (pdata s xs)))) \<and>
    inet_chksum_pbuf p s = Some (65535 - oc (wsum (pdata s xs)))"
proof (intro conjI)
  have ch: "pchain s p xs" "plen (pbufs s) xs < 65536" using assms(1) by (simp_all add: packet_def)
  let ?as = "addr_bytes src @ addr_bytes dest"
  have ev: "even (length ?as)" by (simp add: addr_bytes_def)
  have fix_swap: "(if c then SWAP_BYTES_IN_WORD (oc (sw c T)) else oc (sw c T)) = oc T" for c T
    unfolding SWAP_oc by (simp add: oc_sw_sw)
  obtain T c where T: "chksum_chain s p (oc (wsum ?as)) False = Some (oc (sw c T), c)" "oc T = oc (wsum ?as + wsum (pdata s xs))"
    using chksum_chain_oc [OF ch, of False "wsum ?as"] by auto
  show "inet_chksum_pseudo p proto proto_len src dest s = Some (65535 - oc (wsum (pseudo_header src dest proto proto_len @ pdata s xs)))"
    using pseudo_end [OF T(2) assms(2,3) refl refl ev]
    by (simp add: inet_chksum_pseudo_def pseudo_addresses_oc inet_cksum_pseudo_base_def T(1) fix_swap pseudo_header_def del: wsum.simps)
  obtain T c where T: "chksum_chain_partial s p n (oc (wsum ?as)) False = Some (oc (sw c T), c)"
      "oc T = oc (wsum ?as + wsum (take n (pdata s xs)))"
    using chksum_chain_partial_oc [OF ch assms(4), of False "wsum ?as"] by auto
  show "inet_chksum_pseudo_partial p proto proto_len n src dest s = Some (65535 - oc (wsum (pseudo_header src dest proto proto_len @ take n (pdata s xs))))"
    using pseudo_end [OF T(2) assms(2,3) refl refl ev]
    by (simp add: inet_chksum_pseudo_partial_def pseudo_addresses_oc inet_cksum_pseudo_partial_base_def T(1) fix_swap pseudo_header_def del: wsum.simps)
qed (rule inet_chksum_pbuf_oc [OF assms(1)])

theorem inet_chksum_pseudo_rfc1071_witness:
  "inet_chksum_pseudo 1000 17 7 0x0100A8C0 0x0200A8C0 net_two =
    Some (65535 - oc (wsum (pseudo_header 0x0100A8C0 0x0200A8C0 17 7 @ pdata net_two [1000, 2000])))"
  using inet_chksum_pseudo_rfc1071 [OF net_two_packets(1), of 17 7 0 "0x0100A8C0" "0x0200A8C0"] by simp

text \<open>
  C33. A header verifies: when the two bytes of its checksum field, at an even offset, were zero and the
  sender stores \<open>inet_chksum\<close> of the header there, \<open>inet_chksum\<close> of the result is zero, which is what the
  receiver tests.
\<close>
theorem inet_chksum_verifies:
  assumes "len \<le> 0x20000" "even k" "k + 2 \<le> len" "m (a + k) = 0" "m (a + k + 1) = 0"
  defines "c \<equiv> inet_chksum m a len"
  shows "inet_chksum (m(a + k := of_nat (c mod 256), a + k + 1 := of_nat (c div 256))) a len = 0"
proof -
  define m' where "m' = m(a + k := of_nat (c mod 256), a + k + 1 := of_nat (c div 256))"
  obtain r where len: "len = k + 2 + r" using assms(3) le_Suc_ex by blast
  have row: "get_bytes f a len = get_bytes f a k @ [f (a + k), f (a + k + 1)] @ get_bytes f (a + k + 2) r" for f :: bytes
    using get_bytes_2 [of 2 f "a + k"] by (simp only: len get_bytes_add append_assoc) simp
  have same: "get_bytes m' a k = get_bytes m a k" "get_bytes m' (a + k + 2) r = get_bytes m (a + k + 2) r"
    by (auto intro: get_bytes_cong simp: m'_def)
  define S where "S = wsum (get_bytes m a len)"
  have c: "c = 65535 - oc S" using chksum_2_oc [OF assms(1)] by (simp add: c_def inet_chksum_def S_def)
  then have "c div 256 < 256" "c mod 256 < 256" by (simp_all add: less_mult_imp_div_less)
  then have w: "wsum (get_bytes m' a len) = S + c"
    unfolding S_def row [of m] row [of m'] using assms(2,4,5) same
    by (simp add: wsum_append_even unat_of_nat_u8 m'_def del: get_bytes_0)
  have "oc (S + c) = 65535"
  proof (cases "S = 0")
    case True
    then show ?thesis using c by (simp add: oc_def)
  next
    case False
    have "(S + c) mod 65535 = (oc S + c) mod 65535" using ocs_oc [of S] by (intro mod_add_cong) (simp_all add: ocs_def)
    also have "oc S + c = 65535" using c oc_lt [of S] by linarith
    finally have "oc (S + c) = oc 65535" using False by (simp add: oc_eq_iff)
    then show ?thesis by (simp add: oc_def)
  qed
  then show ?thesis unfolding m'_def [symmetric] using chksum_2_oc [OF assms(1), of m' a] by (simp add: inet_chksum_def w)
qed

definition row_example :: bytes where
  "row_example b = (if b = 1010 \<or> b = 1011 then 0 else of_nat b)"

theorem inet_chksum_verifies_witness:
  "inet_chksum (row_example(1010 := of_nat (inet_chksum row_example 1000 20 mod 256),
    1011 := of_nat (inet_chksum row_example 1000 20 div 256))) 1000 20 = 0"
proof -
  have "row_example (1000 + 10) = 0" "row_example (1000 + 10 + 1) = 0" by (simp_all add: row_example_def)
  then show ?thesis using inet_chksum_verifies [of 20 10 row_example 1000] by simp
qed

end
