(* ===== verification/Lwip_Etharp.thy ===== *)
theory Lwip_Etharp
  imports Lwip_Ip4_Addr
begin

text \<open>
  The Ethernet layer of lwIP: \<open>netif/ethernet.c\<close>, which adds and reads the Ethernet header, and
  \<open>core/ipv4/etharp.c\<close>, the ARP cache that finds the hardware address of the next hop, both over the
  packet buffers and the interface driver.

  MAC addresses are passed as their six bytes. There is one interface, the one of the board; a pointer
  to it is passed where the code compares or stores it.
\<close>

section \<open>Ethernet\<close>

definition ETH_HWADDR_LEN :: nat where "ETH_HWADDR_LEN = 6"
definition SIZEOF_ETH_HDR :: nat where "SIZEOF_ETH_HDR = 14 + 0"
definition ETHTYPE_IP :: nat where "ETHTYPE_IP = 0x0800"
definition ETHTYPE_ARP :: nat where "ETHTYPE_ARP = 0x0806"
definition LL_IP4_MULTICAST_ADDR_0 :: u8 where "LL_IP4_MULTICAST_ADDR_0 = 0x01"
definition LL_IP4_MULTICAST_ADDR_1 :: u8 where "LL_IP4_MULTICAST_ADDR_1 = 0x00"
definition LL_IP4_MULTICAST_ADDR_2 :: u8 where "LL_IP4_MULTICAST_ADDR_2 = 0x5e"
definition PBUF_FLAG_LLBCAST :: u8 where "PBUF_FLAG_LLBCAST = 0x08"
definition PBUF_FLAG_LLMCAST :: u8 where "PBUF_FLAG_LLMCAST = 0x10"
definition NETIF_NO_INDEX :: u8 where "NETIF_NO_INDEX = 0"

definition ethbroadcast :: "u8 list" where "ethbroadcast = [0xff, 0xff, 0xff, 0xff, 0xff, 0xff]"
definition ethzero :: "u8 list" where "ethzero = [0, 0, 0, 0, 0, 0]"

text \<open>Fields of packed headers, as the little-endian core stores and loads them.\<close>

definition u16_bytes :: "nat \<Rightarrow> u8 list" where
  "u16_bytes n = [of_nat n, of_nat (n div 256)]"

definition ld16 :: "bytes \<Rightarrow> nat \<Rightarrow> nat" where
  "ld16 m a = unat (m a) + 256 * unat (m (a + 1))"

definition ip_bytes :: "u32 \<Rightarrow> u8 list" where
  "ip_bytes a = map (ip4_addr_get_byte a) [0, 1, 2, 3]"

definition ld_ip :: "bytes \<Rightarrow> nat \<Rightarrow> u32" where
  "ld_ip m a = ucast (m a) OR push_bit 8 (ucast (m (a + 1))) OR push_bit 16 (ucast (m (a + 2))) OR push_bit 24 (ucast (m (a + 3)))"

text \<open>The call through \<open>netif->linkoutput\<close>; with no function installed it does not return.\<close>

definition netif_linkoutput :: "nat \<Rightarrow> board \<Rightarrow> (err_t \<times> board) option" where
  "netif_linkoutput p s =
    (case nif_linkoutput (b_netif s) of low_level_output_fn \<Rightarrow> Some (low_level_output p s) | _ \<Rightarrow> None)"

definition ethernet_output :: "nat \<Rightarrow> u8 list \<Rightarrow> u8 list \<Rightarrow> nat \<Rightarrow> board \<Rightarrow> (err_t \<times> board) option" where
  "ethernet_output p src dst eth_type s =
    (let eth_type_be = lwip_htons eth_type
     in case pbuf_add_header p SIZEOF_ETH_HDR (b_net s) of (err, n) \<Rightarrow>
          if err \<noteq> 0 then Some (ERR_BUF, s\<lparr>b_net := n\<rparr>)
          else let ethhdr = pb_payload (pbufs n p);
                   m = put_bytes (ethhdr + 12) (u16_bytes eth_type_be) (mem_bytes n);
                   m = put_bytes ethhdr (take ETH_HWADDR_LEN dst) m;
                   m = put_bytes (ethhdr + 6) (take ETH_HWADDR_LEN src) m
               in netif_linkoutput p (s\<lparr>b_net := n\<lparr>mem_bytes := m\<rparr>\<rparr>))"

section \<open>ARP messages\<close>

definition SIZEOF_ETHARP_HDR :: nat where "SIZEOF_ETHARP_HDR = 28"
definition LWIP_IANA_HWTYPE_ETHERNET :: nat where "LWIP_IANA_HWTYPE_ETHERNET = 1"
definition ARP_REQUEST :: nat where "ARP_REQUEST = 1"
definition ARP_REPLY :: nat where "ARP_REPLY = 2"

text \<open>
  The fields of \<open>struct etharp_hdr\<close>: \<open>hwtype\<close> at 0, \<open>proto\<close> at 2, \<open>hwlen\<close> at 4, \<open>protolen\<close> at 5, \<open>opcode\<close> at 6,
  \<open>shwaddr\<close> at 8, \<open>sipaddr\<close> at 14, \<open>dhwaddr\<close> at 18, \<open>dipaddr\<close> at 24.
\<close>

definition etharp_raw ::
    "pbuf_env \<Rightarrow> u8 list \<Rightarrow> u8 list \<Rightarrow> u8 list \<Rightarrow> u32 \<Rightarrow> u8 list \<Rightarrow> u32 \<Rightarrow> nat \<Rightarrow> board \<Rightarrow> (err_t \<times> board) option" where
  "etharp_raw E ethsrc_addr ethdst_addr hwsrc_addr ipsrc_addr hwdst_addr ipdst_addr opcode s =
    (case pbuf_alloc E PBUF_LINK SIZEOF_ETHARP_HDR PBUF_RAM (b_net s) of
       None \<Rightarrow> None
     | Some (p, n) \<Rightarrow>
         if p = 0 then Some (ERR_MEM, s\<lparr>b_net := n\<rparr>)
         else let hdr = pb_payload (pbufs n p);
                  m = put_bytes (hdr + 6) (u16_bytes (lwip_htons opcode)) (mem_bytes n);
                  m = put_bytes (hdr + 8) (take ETH_HWADDR_LEN hwsrc_addr) m;
                  m = put_bytes (hdr + 18) (take ETH_HWADDR_LEN hwdst_addr) m;
                  m = put_bytes (hdr + 14) (ip_bytes ipsrc_addr) m;
                  m = put_bytes (hdr + 24) (ip_bytes ipdst_addr) m;
                  m = put_bytes hdr (u16_bytes (PP_HTONS LWIP_IANA_HWTYPE_ETHERNET)) m;
                  m = put_bytes (hdr + 2) (u16_bytes (PP_HTONS ETHTYPE_IP)) m;
                  m = m(hdr + 4 := of_nat ETH_HWADDR_LEN, hdr + 5 := 4)
              in case ethernet_output p ethsrc_addr ethdst_addr ETHTYPE_ARP (s\<lparr>b_net := n\<lparr>mem_bytes := m\<rparr>\<rparr>) of
                   None \<Rightarrow> None
                 | Some (_, s) \<Rightarrow>
                     case pbuf_free E p (b_net s) of
                       None \<Rightarrow> None
                     | Some (_, n) \<Rightarrow> Some (ERR_OK, s\<lparr>b_net := n\<rparr>))"

definition etharp_request_dst :: "pbuf_env \<Rightarrow> u32 \<Rightarrow> u8 list \<Rightarrow> board \<Rightarrow> (err_t \<times> board) option" where
  "etharp_request_dst E ipaddr hw_dst_addr s =
    etharp_raw E (hwaddr (b_netif s)) hw_dst_addr (hwaddr (b_netif s)) (ip_addr (b_netif s)) ethzero ipaddr ARP_REQUEST s"

definition etharp_request :: "pbuf_env \<Rightarrow> u32 \<Rightarrow> board \<Rightarrow> (err_t \<times> board) option" where
  "etharp_request E ipaddr s = etharp_request_dst E ipaddr ethbroadcast s"

section \<open>The ARP table\<close>

definition ARP_TABLE_SIZE :: nat where "ARP_TABLE_SIZE = 10"
definition ARP_MAXAGE :: nat where "ARP_MAXAGE = 300"
definition ARP_MAXPENDING :: nat where "ARP_MAXPENDING = 5"
definition ARP_AGE_REREQUEST_USED_UNICAST :: nat where "ARP_AGE_REREQUEST_USED_UNICAST = ARP_MAXAGE - 30"
definition ARP_AGE_REREQUEST_USED_BROADCAST :: nat where "ARP_AGE_REREQUEST_USED_BROADCAST = ARP_MAXAGE - 15"
definition ETHARP_FLAG_TRY_HARD :: u8 where "ETHARP_FLAG_TRY_HARD = 1"
definition ETHARP_FLAG_FIND_ONLY :: u8 where "ETHARP_FLAG_FIND_ONLY = 2"

datatype etharp_state = ETHARP_STATE_EMPTY | ETHARP_STATE_PENDING | ETHARP_STATE_STABLE
  | ETHARP_STATE_STABLE_REREQUESTING_1 | ETHARP_STATE_STABLE_REREQUESTING_2

text \<open>The states are ordered as the enumeration numbers them.\<close>

fun state_num :: "etharp_state \<Rightarrow> nat" where
  "state_num ETHARP_STATE_EMPTY = 0"
| "state_num ETHARP_STATE_PENDING = 1"
| "state_num ETHARP_STATE_STABLE = 2"
| "state_num ETHARP_STATE_STABLE_REREQUESTING_1 = 3"
| "state_num ETHARP_STATE_STABLE_REREQUESTING_2 = 4"

lemma state_num_inject [simp]: "state_num a = state_num b \<longleftrightarrow> a = b"
  by (cases a; cases b) auto

instantiation etharp_state :: linorder
begin

definition less_eq_etharp_state :: "etharp_state \<Rightarrow> etharp_state \<Rightarrow> bool" where
  "less_eq_etharp_state a b \<longleftrightarrow> state_num a \<le> state_num b"

definition less_etharp_state :: "etharp_state \<Rightarrow> etharp_state \<Rightarrow> bool" where
  "less_etharp_state a b \<longleftrightarrow> state_num a < state_num b"

instance
  by standard (auto simp: less_eq_etharp_state_def less_etharp_state_def)

end

text \<open>A table entry, with the single packet that waits for the address when \<open>ARP_QUEUEING\<close> is off.\<close>

record etharp_entry =
  arp_q :: nat
  arp_ipaddr :: u32
  arp_netif :: nat
  arp_ethaddr :: "u8 list"
  arp_ctime :: nat
  arp_state :: etharp_state

record arp =
  arp_board :: board
  arp_table :: "etharp_entry list"
  etharp_cached_entry :: nat

definition arp_net :: "arp \<Rightarrow> net" where "arp_net s = b_net (arp_board s)"
definition arp_nif :: "arp \<Rightarrow> netif" where "arp_nif s = b_netif (arp_board s)"

definition set_net :: "net \<Rightarrow> arp \<Rightarrow> arp" where
  "set_net n s = s\<lparr>arp_board := (arp_board s)\<lparr>b_net := n\<rparr>\<rparr>"

definition upd_entry :: "nat \<Rightarrow> (etharp_entry \<Rightarrow> etharp_entry) \<Rightarrow> arp \<Rightarrow> arp" where
  "upd_entry i f s = s\<lparr>arp_table := (arp_table s)[i := f (arp_table s ! i)]\<rparr>"

definition arp_pbuf_free :: "pbuf_env \<Rightarrow> nat \<Rightarrow> arp \<Rightarrow> arp option" where
  "arp_pbuf_free E p s = map_option (\<lambda>r. set_net (snd r) s) (pbuf_free E p (arp_net s))"

text \<open>A function of the layers below, run on the board.\<close>

definition on_board :: "(board \<Rightarrow> (err_t \<times> board) option) \<Rightarrow> arp \<Rightarrow> (err_t \<times> arp) option" where
  "on_board f s = map_option (\<lambda>(err, b). (err, s\<lparr>arp_board := b\<rparr>)) (f (arp_board s))"

definition etharp_free_entry :: "pbuf_env \<Rightarrow> nat \<Rightarrow> arp \<Rightarrow> arp option" where
  "etharp_free_entry E i s =
    (case if arp_q (arp_table s ! i) \<noteq> 0
          then map_option (upd_entry i (\<lambda>e. e\<lparr>arp_q := 0\<rparr>)) (arp_pbuf_free E (arp_q (arp_table s ! i)) s)
          else Some s of
       None \<Rightarrow> None
     | Some s \<Rightarrow> Some (upd_entry i (\<lambda>e. e\<lparr>arp_state := ETHARP_STATE_EMPTY, arp_ctime := 0, arp_netif := 0,
         arp_ipaddr := 0, arp_ethaddr := ethzero\<rparr>) s))"

text \<open>A loop over table indices whose body may not return.\<close>

fun each :: "(nat \<Rightarrow> 's \<Rightarrow> 's option) \<Rightarrow> nat list \<Rightarrow> 's \<Rightarrow> 's option" where
  "each f [] s = Some s"
| "each f (i # is) s = (case f i s of None \<Rightarrow> None | Some s \<Rightarrow> each f is s)"

definition etharp_tmr_entry :: "pbuf_env \<Rightarrow> nat \<Rightarrow> arp \<Rightarrow> arp option" where
  "etharp_tmr_entry E i s =
    (if arp_state (arp_table s ! i) \<noteq> ETHARP_STATE_EMPTY then
       let s = upd_entry i (\<lambda>e. e\<lparr>arp_ctime := u16_of (arp_ctime e + 1)\<rparr>) s;
           e = arp_table s ! i
       in if arp_ctime e \<ge> ARP_MAXAGE \<or> arp_state e = ETHARP_STATE_PENDING \<and> arp_ctime e \<ge> ARP_MAXPENDING
          then etharp_free_entry E i s
          else if arp_state e = ETHARP_STATE_STABLE_REREQUESTING_1
          then Some (upd_entry i (\<lambda>e. e\<lparr>arp_state := ETHARP_STATE_STABLE_REREQUESTING_2\<rparr>) s)
          else if arp_state e = ETHARP_STATE_STABLE_REREQUESTING_2
          then Some (upd_entry i (\<lambda>e. e\<lparr>arp_state := ETHARP_STATE_STABLE\<rparr>) s)
          else if arp_state e = ETHARP_STATE_PENDING
          then map_option snd (on_board (etharp_request E (arp_ipaddr e)) s)
          else Some s
     else Some s)"

definition etharp_tmr :: "pbuf_env \<Rightarrow> arp \<Rightarrow> arp option" where
  "etharp_tmr E s = each (etharp_tmr_entry E) [0..<ARP_TABLE_SIZE] s"

text \<open>
  The search of \<open>etharp_find_entry\<close>: the index of a matching entry, or the candidates to recycle. A NULL
  address is \<open>None\<close>. An index of \<open>ARP_TABLE_SIZE\<close> means none.
\<close>

record candidates =
  c_empty :: nat
  old_pending :: nat
  old_stable :: nat
  old_queue :: nat
  age_pending :: nat
  age_stable :: nat
  age_queue :: nat

definition no_candidates :: candidates where
  "no_candidates = \<lparr>c_empty = ARP_TABLE_SIZE, old_pending = ARP_TABLE_SIZE, old_stable = ARP_TABLE_SIZE,
    old_queue = ARP_TABLE_SIZE, age_pending = 0, age_stable = 0, age_queue = 0\<rparr>"

definition remember :: "nat \<Rightarrow> etharp_entry \<Rightarrow> candidates \<Rightarrow> candidates" where
  "remember i e c =
    (if arp_state e = ETHARP_STATE_PENDING then
       if arp_q e \<noteq> 0 then
         if arp_ctime e \<ge> age_queue c then c\<lparr>old_queue := i, age_queue := arp_ctime e\<rparr> else c
       else if arp_ctime e \<ge> age_pending c then c\<lparr>old_pending := i, age_pending := arp_ctime e\<rparr> else c
     else if arp_state e \<ge> ETHARP_STATE_STABLE then
       if arp_ctime e \<ge> age_stable c then c\<lparr>old_stable := i, age_stable := arp_ctime e\<rparr> else c
     else c)"

fun find_loop :: "u32 option \<Rightarrow> nat \<Rightarrow> etharp_entry list \<Rightarrow> nat \<Rightarrow> candidates \<Rightarrow> nat + candidates" where
  "find_loop ipaddr netif [] i c = Inr c"
| "find_loop ipaddr netif (e # es) i c =
    (if c_empty c = ARP_TABLE_SIZE \<and> arp_state e = ETHARP_STATE_EMPTY
     then find_loop ipaddr netif es (i + 1) (c\<lparr>c_empty := i\<rparr>)
     else if arp_state e \<noteq> ETHARP_STATE_EMPTY then
       if ipaddr = Some (arp_ipaddr e) \<and> (netif = 0 \<or> netif = arp_netif e) then Inl i
       else find_loop ipaddr netif es (i + 1) (remember i e c)
     else find_loop ipaddr netif es (i + 1) c)"

text \<open>The index returned, or \<open>None\<close> for \<open>ERR_MEM\<close>.\<close>

definition etharp_find_entry :: "pbuf_env \<Rightarrow> u32 option \<Rightarrow> u8 \<Rightarrow> nat \<Rightarrow> arp \<Rightarrow> (nat option \<times> arp) option" where
  "etharp_find_entry E ipaddr flags netif s =
    (case find_loop ipaddr netif (arp_table s) 0 no_candidates of
       Inl i \<Rightarrow> Some (Some i, s)
     | Inr c \<Rightarrow>
         if flags AND ETHARP_FLAG_FIND_ONLY \<noteq> 0 \<or> c_empty c = ARP_TABLE_SIZE \<and> flags AND ETHARP_FLAG_TRY_HARD = 0
         then Some (None, s)
         else let i = (if c_empty c < ARP_TABLE_SIZE then c_empty c
                       else if old_stable c < ARP_TABLE_SIZE then old_stable c
                       else if old_pending c < ARP_TABLE_SIZE then old_pending c
                       else old_queue c)
              in if \<not> i < ARP_TABLE_SIZE then Some (None, s)
                 else case if c_empty c < ARP_TABLE_SIZE then Some s else etharp_free_entry E i s of
                   None \<Rightarrow> None
                 | Some s \<Rightarrow>
                     Some (Some i, upd_entry i (\<lambda>e. e\<lparr>arp_ipaddr := (case ipaddr of None \<Rightarrow> arp_ipaddr e | Some a \<Rightarrow> a),
                       arp_ctime := 0, arp_netif := netif\<rparr>) s))"

definition etharp_update_arp_entry :: "pbuf_env \<Rightarrow> nat \<Rightarrow> u32 \<Rightarrow> u8 list \<Rightarrow> u8 \<Rightarrow> arp \<Rightarrow> (err_t \<times> arp) option" where
  "etharp_update_arp_entry E netif ipaddr eth_addr flags s =
    (if ip4_addr_isany_val ipaddr \<or> ip4_addr_isbroadcast_u32 ipaddr (arp_nif s) \<or> ip4_addr_ismulticast ipaddr
     then Some (ERR_ARG, s)
     else case etharp_find_entry E (Some ipaddr) flags netif s of
       None \<Rightarrow> None
     | Some (None, s) \<Rightarrow> Some (ERR_MEM, s)
     | Some (Some i, s) \<Rightarrow>
         let s = upd_entry i (\<lambda>e. e\<lparr>arp_state := ETHARP_STATE_STABLE, arp_netif := netif,
                   arp_ethaddr := take ETH_HWADDR_LEN eth_addr, arp_ctime := 0\<rparr>) s;
             p = arp_q (arp_table s ! i)
         in if p \<noteq> 0 then
              let s = upd_entry i (\<lambda>e. e\<lparr>arp_q := 0\<rparr>) s
              in case on_board (ethernet_output p (hwaddr (arp_nif s)) eth_addr ETHTYPE_IP) s of
                   None \<Rightarrow> None
                 | Some (_, s) \<Rightarrow> map_option (Pair ERR_OK) (arp_pbuf_free E p s)
            else Some (ERR_OK, s))"

definition etharp_cleanup_netif :: "pbuf_env \<Rightarrow> nat \<Rightarrow> arp \<Rightarrow> arp option" where
  "etharp_cleanup_netif E netif s =
    each (\<lambda>i s. if arp_state (arp_table s ! i) \<noteq> ETHARP_STATE_EMPTY \<and> arp_netif (arp_table s ! i) = netif
                then etharp_free_entry E i s else Some s) [0..<ARP_TABLE_SIZE] s"

text \<open>The index with the addresses that \<open>*eth_ret\<close> and \<open>*ip_ret\<close> then point to, or \<open>None\<close> for -1.\<close>

definition etharp_find_addr :: "pbuf_env \<Rightarrow> nat \<Rightarrow> u32 \<Rightarrow> arp \<Rightarrow> ((nat \<times> u8 list \<times> u32) option \<times> arp) option" where
  "etharp_find_addr E netif ipaddr s =
    (case etharp_find_entry E (Some ipaddr) ETHARP_FLAG_FIND_ONLY netif s of
       None \<Rightarrow> None
     | Some (None, s) \<Rightarrow> Some (None, s)
     | Some (Some i, s) \<Rightarrow>
         let e = arp_table s ! i
         in Some (if arp_state e \<ge> ETHARP_STATE_STABLE then Some (i, arp_ethaddr e, arp_ipaddr e) else None, s))"

definition etharp_get_entry :: "nat \<Rightarrow> arp \<Rightarrow> (u32 \<times> nat \<times> u8 list) option" where
  "etharp_get_entry i s =
    (if i < ARP_TABLE_SIZE \<and> arp_state (arp_table s ! i) \<ge> ETHARP_STATE_STABLE
     then Some (arp_ipaddr (arp_table s ! i), arp_netif (arp_table s ! i), arp_ethaddr (arp_table s ! i))
     else None)"

section \<open>Input\<close>

text \<open>\<open>dhcp_arp_reply\<close>, which belongs to DHCP, is an argument.\<close>

definition etharp_input :: "pbuf_env \<Rightarrow> (u32 \<Rightarrow> arp \<Rightarrow> arp) \<Rightarrow> nat \<Rightarrow> nat \<Rightarrow> arp \<Rightarrow> arp option" where
  "etharp_input E dhcp_arp_reply netif p s =
    (let hdr = pb_payload (pbufs (arp_net s) p);
         m = mem_bytes (arp_net s)
     in if ld16 m hdr \<noteq> PP_HTONS LWIP_IANA_HWTYPE_ETHERNET \<or> m (hdr + 4) \<noteq> of_nat ETH_HWADDR_LEN \<or>
           m (hdr + 5) \<noteq> 4 \<or> ld16 m (hdr + 2) \<noteq> PP_HTONS ETHTYPE_IP
     then arp_pbuf_free E p s
     else let sipaddr = ld_ip m (hdr + 14);
              dipaddr = ld_ip m (hdr + 24);
              for_us = (if ip4_addr_isany_val (ip_addr (arp_nif s)) then False else dipaddr = ip_addr (arp_nif s))
     in case etharp_update_arp_entry E netif sipaddr (get_bytes m (hdr + 8) 6)
               (if for_us then ETHARP_FLAG_TRY_HARD else ETHARP_FLAG_FIND_ONLY) s of
          None \<Rightarrow> None
        | Some (_, s) \<Rightarrow>
            let m = mem_bytes (arp_net s);
                shwaddr = get_bytes m (hdr + 8) 6;
                opcode = ld16 m (hdr + 6);
                acted = (if opcode = PP_HTONS ARP_REQUEST then
                           if for_us
                           then map_option snd (on_board (etharp_raw E (hwaddr (arp_nif s)) shwaddr (hwaddr (arp_nif s))
                                  (ip_addr (arp_nif s)) shwaddr sipaddr ARP_REPLY) s)
                           else Some s
                         else if opcode = PP_HTONS ARP_REPLY then Some (dhcp_arp_reply sipaddr s)
                         else Some s)
            in case acted of None \<Rightarrow> None | Some s \<Rightarrow> arp_pbuf_free E p s)"

text \<open>
  \<open>ethernet_input\<close> always returns \<open>ERR_OK\<close>. \<open>ip4_input\<close>, the layer above, is an argument; it consumes the
  packet.
\<close>

definition ethernet_input ::
    "pbuf_env \<Rightarrow> (u32 \<Rightarrow> arp \<Rightarrow> arp) \<Rightarrow> (nat \<Rightarrow> arp \<Rightarrow> arp) \<Rightarrow> nat \<Rightarrow> nat \<Rightarrow> arp \<Rightarrow> (err_t \<times> arp) option" where
  "ethernet_input E dhcp_arp_reply ip4_input netif p s =
    map_option (Pair ERR_OK)
     (if pb_len (pbufs (arp_net s) p) \<le> SIZEOF_ETH_HDR then arp_pbuf_free E p s
      else let n = arp_net s;
               n = (if pb_if_idx (pbufs n p) = NETIF_NO_INDEX
                    then pb_upd p (\<lambda>b. b\<lparr>pb_if_idx := of_nat (nif_num (arp_nif s) + 1)\<rparr>) n else n);
               ethhdr = pb_payload (pbufs n p);
               m = mem_bytes n;
               type = ld16 m (ethhdr + 12);
               n = (if m ethhdr AND 1 \<noteq> 0 then
                      if m ethhdr = LL_IP4_MULTICAST_ADDR_0 then
                        if m (ethhdr + 1) = LL_IP4_MULTICAST_ADDR_1 \<and> m (ethhdr + 2) = LL_IP4_MULTICAST_ADDR_2
                        then pb_upd p (\<lambda>b. b\<lparr>pb_flags := pb_flags b OR PBUF_FLAG_LLMCAST\<rparr>) n
                        else n
                      else if get_bytes m ethhdr 6 = ethbroadcast
                      then pb_upd p (\<lambda>b. b\<lparr>pb_flags := pb_flags b OR PBUF_FLAG_LLBCAST\<rparr>) n
                      else n
                    else n);
               s = set_net n s;
               etharp = nif_flags (arp_nif s) AND NETIF_FLAG_ETHARP \<noteq> 0
           in if type = PP_HTONS ETHTYPE_IP then
                if \<not> etharp then arp_pbuf_free E p s
                else case pbuf_remove_header p SIZEOF_ETH_HDR n of (err, n) \<Rightarrow>
                  if err \<noteq> 0 then arp_pbuf_free E p (set_net n s) else Some (ip4_input p (set_net n s))
              else if type = PP_HTONS ETHTYPE_ARP then
                if \<not> etharp then arp_pbuf_free E p s
                else case pbuf_remove_header p SIZEOF_ETH_HDR n of (err, n) \<Rightarrow>
                  if err \<noteq> 0 then arp_pbuf_free E p (set_net n s)
                  else etharp_input E dhcp_arp_reply netif p (set_net n s)
              else arp_pbuf_free E p s)"

section \<open>Output\<close>

definition etharp_output_to_arp_index :: "pbuf_env \<Rightarrow> nat \<Rightarrow> nat \<Rightarrow> arp \<Rightarrow> (err_t \<times> arp) option" where
  "etharp_output_to_arp_index E q arp_idx s =
    (let e = arp_table s ! arp_idx;
         rerequest = (\<lambda>r. map_option (\<lambda>(err, s).
           if err = ERR_OK then upd_entry arp_idx (\<lambda>e. e\<lparr>arp_state := ETHARP_STATE_STABLE_REREQUESTING_1\<rparr>) s else s) r);
         requested = (if arp_state e = ETHARP_STATE_STABLE then
                        if arp_ctime e \<ge> ARP_AGE_REREQUEST_USED_BROADCAST
                        then rerequest (on_board (etharp_request E (arp_ipaddr e)) s)
                        else if arp_ctime e \<ge> ARP_AGE_REREQUEST_USED_UNICAST
                        then rerequest (on_board (etharp_request_dst E (arp_ipaddr e) (arp_ethaddr e)) s)
                        else Some s
                      else Some s)
     in case requested of
          None \<Rightarrow> None
        | Some s \<Rightarrow> on_board (ethernet_output q (hwaddr (arp_nif s)) (arp_ethaddr (arp_table s ! arp_idx)) ETHTYPE_IP) s)"

definition PBUF_NEEDS_COPY :: "pbuf \<Rightarrow> bool" where
  "PBUF_NEEDS_COPY p \<longleftrightarrow> (ucast (pb_type_internal p) :: u32) AND PBUF_TYPE_FLAG_DATA_VOLATILE \<noteq> 0"

partial_function (option) copy_needed_loop :: "net \<Rightarrow> nat \<Rightarrow> bool option" where
  "copy_needed_loop n p =
    (if p \<noteq> 0 then
       if PBUF_NEEDS_COPY (pbufs n p) then Some True else copy_needed_loop n (pb_next (pbufs n p))
     else Some False)"

text \<open>Queueing the packet on a pending entry: a copy if it must be copied, else another reference to it.\<close>

definition query_queue :: "pbuf_env \<Rightarrow> nat \<Rightarrow> nat \<Rightarrow> arp \<Rightarrow> (err_t \<times> arp) option" where
  "query_queue E i q s =
    (case copy_needed_loop (arp_net s) q of
       None \<Rightarrow> None
     | Some copy_needed \<Rightarrow>
         case if copy_needed then pbuf_clone E PBUF_LINK PBUF_RAM q (arp_net s) else Some (q, pbuf_ref q (arp_net s)) of
           None \<Rightarrow> None
         | Some (p, n) \<Rightarrow>
             let s = set_net n s
             in if p \<noteq> 0 then
                  case if arp_q (arp_table s ! i) \<noteq> 0 then arp_pbuf_free E (arp_q (arp_table s ! i)) s else Some s of
                    None \<Rightarrow> None
                  | Some s \<Rightarrow> Some (ERR_OK, upd_entry i (\<lambda>e. e\<lparr>arp_q := p\<rparr>) s)
                else Some (ERR_MEM, s))"

definition etharp_query :: "pbuf_env \<Rightarrow> nat \<Rightarrow> u32 \<Rightarrow> nat \<Rightarrow> arp \<Rightarrow> (err_t \<times> arp) option" where
  "etharp_query E netif ipaddr q s =
    (let srcaddr = hwaddr (arp_nif s)
     in if ip4_addr_isbroadcast_u32 ipaddr (arp_nif s) \<or> ip4_addr_ismulticast ipaddr \<or> ip4_addr_isany_val ipaddr
     then Some (ERR_ARG, s)
     else case etharp_find_entry E (Some ipaddr) ETHARP_FLAG_TRY_HARD netif s of
       None \<Rightarrow> None
     | Some (None, s) \<Rightarrow> Some (ERR_MEM, s)
     | Some (Some i, s) \<Rightarrow>
         let is_new_entry = arp_state (arp_table s ! i) = ETHARP_STATE_EMPTY;
             s = (if is_new_entry then upd_entry i (\<lambda>e. e\<lparr>arp_state := ETHARP_STATE_PENDING, arp_netif := netif\<rparr>) s else s);
             requested = (if is_new_entry \<or> q = 0 then
                            map_option (\<lambda>(result, s).
                              (result, if result = ERR_OK \<and> arp_state (arp_table s ! i) = ETHARP_STATE_PENDING \<and> \<not> is_new_entry
                                       then upd_entry i (\<lambda>e. e\<lparr>arp_ctime := 0\<rparr>) s else s))
                              (on_board (etharp_request E ipaddr) s)
                          else Some (ERR_MEM, s))
         in case requested of
              None \<Rightarrow> None
            | Some (result, s) \<Rightarrow>
                if q = 0 then Some (result, s)
                else if arp_state (arp_table s ! i) \<ge> ETHARP_STATE_STABLE then
                  on_board (ethernet_output q srcaddr (arp_ethaddr (arp_table s ! i)) ETHTYPE_IP)
                    (s\<lparr>etharp_cached_entry := i\<rparr>)
                else if arp_state (arp_table s ! i) = ETHARP_STATE_PENDING then query_queue E i q s
                else Some (result, s))"

definition usable :: "nat \<Rightarrow> u32 \<Rightarrow> etharp_entry \<Rightarrow> bool" where
  "usable netif dst_addr e \<longleftrightarrow> arp_state e \<ge> ETHARP_STATE_STABLE \<and> arp_netif e = netif \<and> dst_addr = arp_ipaddr e"

definition etharp_output :: "pbuf_env \<Rightarrow> nat \<Rightarrow> nat \<Rightarrow> u32 \<Rightarrow> arp \<Rightarrow> (err_t \<times> arp) option" where
  "etharp_output E netif q ipaddr s =
    (let n = arp_nif s
     in if ip4_addr_isbroadcast_u32 ipaddr n
     then on_board (ethernet_output q (hwaddr n) ethbroadcast ETHTYPE_IP) s
     else if ip4_addr_ismulticast ipaddr
     then let mcastaddr = [LL_IP4_MULTICAST_ADDR_0, LL_IP4_MULTICAST_ADDR_1, LL_IP4_MULTICAST_ADDR_2,
                ip4_addr_get_byte ipaddr 1 AND 0x7f, ip4_addr_get_byte ipaddr 2, ip4_addr_get_byte ipaddr 3]
          in on_board (ethernet_output q (hwaddr n) mcastaddr ETHTYPE_IP) s
     else let outside = \<not> ip4_addr_netcmp ipaddr (ip_addr n) (netmask n) \<and> \<not> ip4_addr_islinklocal ipaddr
     in if outside \<and> ip4_addr_isany_val (gw n) then Some (ERR_RTE, s)
     else let dst_addr = (if outside then gw n else ipaddr)
     in if usable netif dst_addr (arp_table s ! etharp_cached_entry s)
     then etharp_output_to_arp_index E q (etharp_cached_entry s) s
     else case find (\<lambda>i. usable netif dst_addr (arp_table s ! i)) [0..<ARP_TABLE_SIZE] of
            Some i \<Rightarrow> etharp_output_to_arp_index E q i (s\<lparr>etharp_cached_entry := i\<rparr>)
          | None \<Rightarrow> etharp_query E netif dst_addr q s)"

end
