(* ===== verification/Lwip_Packet_Own.thy ===== *)
theory Lwip_Packet_Own
  imports Lwip_Pbuf_Spec "HOL-Library.Multiset"
begin

text \<open>
  Ownership of packets by reference count. A multiset of packets (head and chain) collects the
  references that parts of the program hold; the same packet may be held several times. The lemmas
  state which references an operation needs and which it leaves.
\<close>

section \<open>Owned packets\<close>

definition sourced :: "net \<Rightarrow> nat \<Rightarrow> bool" where
  "sourced n a \<longleftrightarrow> from_pool n a \<or> from_ref n a \<or> from_heap n a"

definition chain_ok :: "pbuf_env \<Rightarrow> net \<Rightarrow> nat \<Rightarrow> nat list \<Rightarrow> bool" where
  "chain_ok E n p xs \<longleftrightarrow> pchain n p xs \<and> plain n xs \<and> (\<forall>a \<in> set xs. sourced n a \<and> held E n a)"

text \<open>The linker keeps the pools of pbufs outside the heap.\<close>

definition pools_apart :: "pbuf_env \<Rightarrow> net \<Rightarrow> bool" where
  "pools_apart E n \<longleftrightarrow> (\<forall>t \<in> {MEMP_PBUF, MEMP_PBUF_POOL}. \<forall>a \<in> elems (memp_pools E ! t).
    apart (a, memp_size (memp_pools E ! t)) (ram (mem_heap n), MEM_SIZE_ALIGNED))"

definition owned :: "pbuf_env \<Rightarrow> net \<Rightarrow> (nat \<times> nat list) multiset \<Rightarrow> bool" where
  "owned E n M \<longleftrightarrow> net_inv E n \<and> pools_apart E n \<and>
    (\<forall>p xs. (p, xs) \<in># M \<longrightarrow> chain_ok E n p xs \<and> (p \<noteq> 0 \<longrightarrow> count M (p, xs) \<le> unat (pb_ref (pbufs n p)))) \<and>
    (\<forall>x \<in># M. \<forall>y \<in># M. x \<noteq> y \<longrightarrow> set (snd x) \<inter> set (snd y) = {})"

lemma ownedD:
  assumes "owned E n M"
  shows "net_inv E n" "pools_apart E n" "(p, xs) \<in># M \<Longrightarrow> chain_ok E n p xs"
    "(p, xs) \<in># M \<Longrightarrow> p \<noteq> 0 \<Longrightarrow> count M (p, xs) \<le> unat (pb_ref (pbufs n p))"
    "x \<in># M \<Longrightarrow> y \<in># M \<Longrightarrow> x \<noteq> y \<Longrightarrow> set (snd x) \<inter> set (snd y) = {}"
  using assms unfolding owned_def by blast+

lemma chain_ok_0 [simp]: "chain_ok E n 0 xs \<longleftrightarrow> xs = []"
  by (auto simp: chain_ok_def)

lemma sourced_cong:
  "pb_type_internal (pbufs n' a) = pb_type_internal (pbufs n a) \<Longrightarrow> sourced n' a = sourced n a"
  using sources_cong [of n' a n] by (simp add: sourced_def)

lemma owned_mono:
  assumes "owned E n M" "N \<subseteq># M"
  shows "owned E n N"
proof -
  have "chain_ok E n p xs \<and> (p \<noteq> 0 \<longrightarrow> count N (p, xs) \<le> unat (pb_ref (pbufs n p)))" if "(p, xs) \<in># N" for p xs
  proof -
    have "(p, xs) \<in># M" "count N (p, xs) \<le> count M (p, xs)"
      using that assms(2) by (auto dest: mset_subset_eqD mset_subset_eq_count)
    then show ?thesis using ownedD(3,4) [OF assms(1)] by fastforce
  qed
  moreover have "set (snd x) \<inter> set (snd y) = {}" if "x \<in># N" "y \<in># N" "x \<noteq> y" for x y
    using ownedD(5) [OF assms(1)] mset_subset_eqD [OF assms(2)] that by blast
  ultimately show ?thesis using ownedD(1,2) [OF assms(1)] by (simp add: owned_def)
qed

text \<open>What an operation has to keep of the pbufs of a chain and of the storage.\<close>

lemma chain_ok_frame:
  assumes "chain_ok E n p xs" "\<forall>a \<in> set xs. pb_next (pbufs n' a) = pb_next (pbufs n a) \<and>
      pb_type_internal (pbufs n' a) = pb_type_internal (pbufs n a) \<and>
      (pb_flags (pbufs n' a) AND PBUF_FLAG_IS_CUSTOM) = (pb_flags (pbufs n a) AND PBUF_FLAG_IS_CUSTOM)"
    and "set xs \<inter> pool_used E n \<subseteq> pool_used E n'" "set xs \<inter> ref_used E n \<subseteq> ref_used E n'"
    "set xs \<inter> fst ` heap_live (mem_heap n) \<subseteq> fst ` heap_live (mem_heap n')"
  shows "chain_ok E n' p xs"
proof -
  have "pchain n' p xs" using assms(1,2) pchain_cong [of xs n' n p] by (simp add: chain_ok_def)
  moreover have "plain n' xs" using assms(1,2) by (simp add: chain_ok_def plain_def)
  moreover have "sourced n' a \<and> held E n' a" if a: "a \<in> set xs" for a
  proof -
    have t: "pb_type_internal (pbufs n' a) = pb_type_internal (pbufs n a)" using assms(2) a by blast
    have "sourced n a" "held E n a" using assms(1) a by (simp_all add: chain_ok_def)
    then show ?thesis
      using sourced_cong [OF t] sources_cong [OF t] assms(3-5) a unfolding held_def by blast
  qed
  ultimately show ?thesis by (simp add: chain_ok_def)
qed

lemma owned_cong:
  assumes "owned E n M" "mem_pools n' = mem_pools n" "mem_heap n' = mem_heap n"
    and "\<And>a. pb_next (pbufs n' a) = pb_next (pbufs n a) \<and> pb_type_internal (pbufs n' a) = pb_type_internal (pbufs n a) \<and>
      pb_ref (pbufs n' a) = pb_ref (pbufs n a) \<and>
      (pb_flags (pbufs n' a) AND PBUF_FLAG_IS_CUSTOM) = (pb_flags (pbufs n a) AND PBUF_FLAG_IS_CUSTOM)"
  shows "owned E n' M"
proof -
  have st: "net_inv E n' = net_inv E n" "pools_apart E n' = pools_apart E n" "pool_used E n' = pool_used E n"
    "ref_used E n' = ref_used E n"
    using assms(2,3) by (simp_all add: net_inv_def pools_apart_def pool_used_def ref_used_def)
  have "chain_ok E n' p xs" if "(p, xs) \<in># M" for p xs
    using chain_ok_frame [OF ownedD(3) [OF assms(1) that], of n'] assms(3,4) st by simp
  then show ?thesis using assms(1,4) unfolding owned_def st by simp
qed

lemma owned_bytes [simp]: "owned E (n\<lparr>mem_bytes := m\<rparr>) M = owned E n M"
  by (rule iffI; erule owned_cong) simp_all

section \<open>Release and further references\<close>

lemma ram_mem_join [simp]: "ram (mem_join a b h) = ram h"
  unfolding mem_join_def Let_def by (simp add: upd_blk_def)

lemma ram_plug_holes [simp]: "ram (plug_holes a h) = ram h"
  unfolding plug_holes_def Let_def by simp

lemma ram_mem_free [simp]: "ram (mem_free p h) = ram h"
  unfolding mem_free_def Let_def by (simp add: upd_blk_def)

lemma ram_pbuf_dealloc:
  "pb_flags (pbufs n a) AND PBUF_FLAG_IS_CUSTOM = 0 \<Longrightarrow> ram (mem_heap (pbuf_dealloc E a n)) = ram (mem_heap n)"
  by (simp add: pbuf_dealloc_def Let_def)

lemma ram_release_all: "plain n xs \<Longrightarrow> ram (mem_heap (release_all E xs n)) = ram (mem_heap n)"
proof (induction xs arbitrary: n)
  case (Cons x xs)
  let ?n = "pbuf_dealloc E x (pb_upd x (\<lambda>b. b\<lparr>pb_ref := 0\<rparr>) n)"
  have f: "pb_flags (pbufs (pb_upd x (\<lambda>b. b\<lparr>pb_ref := 0\<rparr>) n) x) AND PBUF_FLAG_IS_CUSTOM = 0" using Cons.prems by simp
  have "plain ?n xs" using Cons.prems pbuf_dealloc_frame(1) [OF f, of E] by (auto simp: plain_def)
  from Cons.IH [OF this] show ?case using ram_pbuf_dealloc [OF f, of E] by simp
qed simp

lemma ram_pbuf_free:
  assumes "pchain n p xs" "plain n xs" "pbuf_free E p n = Some (r, n')"
  shows "ram (mem_heap n') = ram (mem_heap n)"
proof (cases "p = 0")
  case False
  have "plain n (takeWhile (\<lambda>a. pb_ref (pbufs n a) = 1) xs)"
    using assms(2) by (auto simp: plain_def dest: set_takeWhileD)
  from ram_release_all [OF this, of E] show ?thesis
    using pbuf_free_loop_eq [OF assms(1,2), of E 0] assms(3) False
    by (auto simp: pbuf_free_def drop_ref_def split: list.splits)
qed (use assms in \<open>simp add: pbuf_free_def\<close>)

lemma pbuf_free_fields:
  assumes "pchain n p xs" "plain n xs" "pbuf_free E p n = Some (r, n')"
  shows "\<exists>c. pbufs n' a = (pbufs n a)\<lparr>pb_ref := c\<rparr>"
proof (cases "p = 0")
  case True
  then show ?thesis using assms(3) by (intro exI [of _ "pb_ref (pbufs n a)"]) (simp add: pbuf_free_def)
next
  case False
  define us vs where "us = takeWhile (\<lambda>a. pb_ref (pbufs n a) = 1) xs" and "vs = dropWhile (\<lambda>a. pb_ref (pbufs n a) = 1) xs"
  have "plain n us" using assms(2) by (auto simp: us_def plain_def dest: set_takeWhileD)
  from release_all_pbufs [OF this, of E]
  have r: "pbufs (release_all E us n) = (\<lambda>a. if a \<in> set us then (pbufs n a)\<lparr>pb_ref := 0\<rparr> else pbufs n a)" by simp
  have n': "n' = drop_ref vs (release_all E us n)"
    using pbuf_free_loop_eq [OF assms(1,2), of E 0] assms(3) False by (simp add: pbuf_free_def us_def vs_def)
  have id: "\<exists>c. b = b\<lparr>pb_ref := c\<rparr>" for b :: pbuf by (rule exI [of _ "pb_ref b"]) simp
  have "\<exists>c. pbufs (release_all E us n) a = (pbufs n a)\<lparr>pb_ref := c\<rparr>" using r id [of "pbufs n a"] by auto
  moreover have "\<exists>c. pbufs n' a = (pbufs (release_all E us n) a)\<lparr>pb_ref := c\<rparr>"
    unfolding n' using id [of "pbufs (release_all E us n) a"] by (cases vs) (auto simp: drop_ref_def)
  ultimately show ?thesis by force
qed

text \<open>
  \<open>pbuf_free\<close> uses up one reference: it returns, and all other references stay good. No byte and no
  field but reference counts changes.
\<close>

lemma owned_free:
  assumes own: "owned E n (add_mset (p, xs) M)"
  shows "\<exists>r n'. pbuf_free E p n = Some (r, n') \<and> owned E n' M \<and> mem_bytes n' = mem_bytes n \<and>
    (\<forall>a. a \<notin> set xs \<longrightarrow> pbufs n' a = pbufs n a) \<and> (\<forall>a. \<exists>c. pbufs n' a = (pbufs n a)\<lparr>pb_ref := c\<rparr>) \<and>
    (\<forall>q ys. (q, ys) \<in># M \<longrightarrow> q \<noteq> 0 \<longrightarrow> pb_ref (pbufs n' q) \<le> pb_ref (pbufs n q))"
proof (cases "p = 0")
  case True
  moreover have "owned E n M" using owned_mono [OF own] by simp
  moreover have "\<exists>c. pbufs n a = (pbufs n a)\<lparr>pb_ref := c\<rparr>" for a by (rule exI [of _ "pb_ref (pbufs n a)"]) simp
  ultimately show ?thesis by (simp add: pbuf_free_def)
next
  case False
  have ck: "chain_ok E n p xs" using ownedD(3) [OF own, of p xs] by simp
  then have ch: "pchain n p xs" and pl: "plain n xs" and hl: "\<forall>a \<in> set xs. held E n a" by (simp_all add: chain_ok_def)
  obtain us vs n' where xs: "xs = us @ vs" and one: "\<forall>a \<in> set us. pb_ref (pbufs n a) = 1"
    and two: "vs \<noteq> [] \<longrightarrow> pb_ref (pbufs n (hd vs)) \<noteq> 1"
    and fr: "pbuf_free E p n = Some (of_nat (length us), n')" and inv: "net_inv E n'" and mb: "mem_bytes n' = mem_bytes n"
    and st: "pool_used E n' = pool_used E n - {a \<in> set us. from_pool n a}"
      "ref_used E n' = ref_used E n - {a \<in> set us. from_ref n a}"
      "heap_live (mem_heap n') = heap_live (mem_heap n) - {x. fst x \<in> set us \<and> from_heap n (fst x)}"
    and pv: "vs \<noteq> [] \<longrightarrow> pbufs n' (hd vs) = (pbufs n (hd vs))\<lparr>pb_ref := pb_ref (pbufs n (hd vs)) - 1\<rparr>"
    and po: "\<forall>a. a \<notin> set us \<and> (vs \<noteq> [] \<longrightarrow> a \<noteq> hd vs) \<longrightarrow> pbufs n' a = pbufs n a"
    using pbuf_free_spec [OF ownedD(1) [OF own] ch False pl hl] by blast
  have out: "pbufs n' a = pbufs n a" if "a \<notin> set xs" for a
    using po that xs by (cases vs) auto
  have any: "\<exists>c. pbufs n' a = (pbufs n a)\<lparr>pb_ref := c\<rparr>" for a
    using pbuf_free_fields [OF ch pl fr] .
  have ap: "pools_apart E n'"
    using ownedD(2) [OF own] ram_pbuf_free [OF ch pl fr] by (simp add: pools_apart_def)
  have keep: "chain_ok E n' q ys \<and> (q \<noteq> 0 \<longrightarrow> count M (q, ys) \<le> unat (pb_ref (pbufs n' q)) \<and>
    pb_ref (pbufs n' q) \<le> pb_ref (pbufs n q))" if m: "(q, ys) \<in># M" for q ys
  proof (cases "(q, ys) = (p, xs)")
    case True
    then have "2 \<le> unat (pb_ref (pbufs n p))" using ownedD(4) [OF own, of p xs] False m by (simp add: Suc_le_eq flip: count_greater_zero_iff)
    then have "pb_ref (pbufs n p) \<noteq> 1" "pb_ref (pbufs n p) \<noteq> 0" by auto
    then have us: "us = []" "vs = xs" using \<open>pb_ref (pbufs n p) \<noteq> 1\<close> one xs pchain_head [OF ch False] by (cases us; auto)+
    then have hd: "hd vs = p" "vs \<noteq> []" using pchain_head [OF ch False] by auto
    have fields: "pb_next (pbufs n' a) = pb_next (pbufs n a)" "pb_type_internal (pbufs n' a) = pb_type_internal (pbufs n a)"
      "pb_flags (pbufs n' a) = pb_flags (pbufs n a)" for a using any [of a] by auto
    have "chain_ok E n' q ys" using chain_ok_frame [OF ck, of n'] fields st us True by simp
    moreover have "unat (pb_ref (pbufs n' p)) = unat (pb_ref (pbufs n p)) - 1"
      using pv hd unat_minus_one [OF \<open>pb_ref (pbufs n p) \<noteq> 0\<close>] by simp
    ultimately show ?thesis using ownedD(4) [OF own, of p xs] False True by (simp add: word_le_nat_alt)
  next
    case ne: False
    then have dj: "set ys \<inter> set xs = {}" using ownedD(5) [OF own, of "(q, ys)" "(p, xs)"] m by simp
    have ckq: "chain_ok E n q ys" using ownedD(3) [OF own, of q ys] m by simp
    have "chain_ok E n' q ys"
    proof (rule chain_ok_frame [OF ckq])
      show "set ys \<inter> fst ` heap_live (mem_heap n) \<subseteq> fst ` heap_live (mem_heap n')"
        unfolding st(3) using dj xs by force
    next
      have "pbufs n' a = pbufs n a" if "a \<in> set ys" for a using out dj that by blast
      then show "\<forall>a \<in> set ys. pb_next (pbufs n' a) = pb_next (pbufs n a) \<and>
          pb_type_internal (pbufs n' a) = pb_type_internal (pbufs n a) \<and>
          (pb_flags (pbufs n' a) AND PBUF_FLAG_IS_CUSTOM) = (pb_flags (pbufs n a) AND PBUF_FLAG_IS_CUSTOM)" by simp
    qed (use dj xs st in auto)
    moreover have "q \<noteq> 0 \<Longrightarrow> q \<notin> set xs" using dj pchain_head [of n q ys] ckq by (auto simp: chain_ok_def)
    ultimately show ?thesis using ownedD(4) [OF own, of q ys] m ne out by auto
  qed
  have "set (snd x) \<inter> set (snd y) = {}" if "x \<in># M" "y \<in># M" "x \<noteq> y" for x y
    using ownedD(5) [OF own, of x y] that by simp
  then have "owned E n' M" using inv ap keep by (simp add: owned_def)
  then show ?thesis using fr mb out any keep by blast
qed

text \<open>Of the packets \<open>M\<close> at most reference counts have changed, and none of a head has grown.\<close>

definition kept :: "(nat \<times> nat list) multiset \<Rightarrow> net \<Rightarrow> net \<Rightarrow> bool" where
  "kept M n n' \<longleftrightarrow> (\<forall>q ys. (q, ys) \<in># M \<longrightarrow>
    (\<forall>a \<in> set ys. \<exists>c. pbufs n' a = (pbufs n a)\<lparr>pb_ref := c\<rparr>) \<and> (q \<noteq> 0 \<longrightarrow> pb_ref (pbufs n' q) \<le> pb_ref (pbufs n q)))"

lemma kept_same: "\<forall>a. pbufs n' a = pbufs n a \<Longrightarrow> kept M n n'"
proof -
  assume eq: "\<forall>a. pbufs n' a = pbufs n a"
  have "\<exists>c. b = b\<lparr>pb_ref := c\<rparr>" for b :: pbuf by (rule exI [of _ "pb_ref b"]) simp
  then show ?thesis using eq by (auto simp: kept_def)
qed

lemma kept_trans: "kept M n n1 \<Longrightarrow> kept M n1 n2 \<Longrightarrow> kept M n n2"
  unfolding kept_def by (fastforce intro: order_trans)

lemma owned_free_kept:
  assumes "owned E n (add_mset (p, xs) M)"
  shows "\<exists>r n'. pbuf_free E p n = Some (r, n') \<and> owned E n' M \<and> mem_bytes n' = mem_bytes n \<and> kept M n n'"
  using owned_free [OF assms] unfolding kept_def by blast

lemma pchain_unique: "pchain s p xs \<Longrightarrow> pchain s p ys \<Longrightarrow> xs = ys"
  unfolding pchain_def by (rule chain_unique)

text \<open>\<open>pbuf_ref\<close> on a packet one holds adds a reference, while the count fits its byte.\<close>

lemma owned_ref:
  assumes own: "owned E n (add_mset (p, xs) M)" and "p \<noteq> 0" "pb_ref (pbufs n p) \<noteq> 255"
  shows "owned E (pbuf_ref p n) (add_mset (p, xs) (add_mset (p, xs) M))"
proof -
  let ?n = "pbuf_ref p n" and ?M = "add_mset (p, xs) M"
  have st: "net_inv E ?n" "pools_apart E ?n" "pool_used E ?n = pool_used E n" "ref_used E ?n = ref_used E n" "mem_heap ?n = mem_heap n"
    using ownedD(1,2) [OF own] by (simp_all add: pbuf_ref_def pools_apart_def)
  have inc: "unat (pb_ref (pbufs ?n p)) = Suc (unat (pb_ref (pbufs n p)))"
  proof -
    have "(-1 :: u8) = 255" by simp
    then have "1 + pb_ref (pbufs n p) \<noteq> 0" using assms(3) by (metis add.inverse_unique)
    from unatSuc [OF this] show ?thesis using assms(2) by (simp add: pbuf_ref_def add.commute)
  qed
  have ot: "pbufs ?n a = pbufs n a" if "a \<noteq> p" for a using that by (simp add: pbuf_ref_def)
  have ck: "chain_ok E ?n q ys" if "(q, ys) \<in># ?M" for q ys
    using chain_ok_frame [OF ownedD(3) [OF own that], of ?n] st by (simp add: pbuf_ref_def)
  have "chain_ok E ?n q ys \<and> (q \<noteq> 0 \<longrightarrow> count (add_mset (p, xs) ?M) (q, ys) \<le> unat (pb_ref (pbufs ?n q)))"
    if m: "(q, ys) \<in># add_mset (p, xs) ?M" for q ys
  proof (cases "(q, ys) = (p, xs)")
    case True
    then show ?thesis using ownedD(4) [OF own, of p xs] assms(2) ck [of p xs] inc by simp
  next
    case False
    then have mm: "(q, ys) \<in># ?M" using m by auto
    have "q \<noteq> 0 \<Longrightarrow> q \<noteq> p"
    proof
      assume "q \<noteq> 0" "q = p"
      moreover have "pchain n q ys" "pchain n p xs" using ownedD(3) [OF own] mm by (auto simp: chain_ok_def)
      ultimately show False using pchain_unique [of n p xs ys] False by simp
    qed
    then show ?thesis using ownedD(4) [OF own mm] ck [OF mm] ot False by auto
  qed
  moreover have "set (snd x) \<inter> set (snd y) = {}" if "x \<in># add_mset (p, xs) ?M" "y \<in># add_mset (p, xs) ?M" "x \<noteq> y" for x y
    using ownedD(5) [OF own, of x y] that by auto
  ultimately show ?thesis using st(1,2) by (simp add: owned_def)
qed

section \<open>Allocation from the heap\<close>

lemma mem_malloc_ram:
  assumes "heap_inv h" "request_ok k" "mem_malloc k h = Some (p, h')"
  shows "ram h' = ram h"
proof -
  obtain xs where ok: "heap_ok h xs" using assms(1) by (auto simp: heap_inv_def)
  show ?thesis using assms(3) by (cases rule: mem_malloc_cases [OF ok assms(2)]) auto
qed

text \<open>A header pbuf with \<open>len\<close> bytes of payload behind room for an Ethernet header.\<close>

definition ram_pbuf :: "nat \<Rightarrow> nat \<Rightarrow> pbuf" where
  "ram_pbuf p len = \<lparr>pb_next = 0, pb_payload = 32 + p, pb_tot_len = len, pb_len = len, pb_type_internal = 0x80,
    pb_flags = 0, pb_ref = 1, pb_if_idx = 0\<rparr>"

lemma pbuf_alloc_link:
  assumes "len \<le> 1500"
  shows "pbuf_alloc E PBUF_LINK len PBUF_RAM n =
    (case mem_malloc (32 + LWIP_MEM_ALIGN_SIZE len) (mem_heap n) of
       None \<Rightarrow> None
     | Some (p, h) \<Rightarrow> if p = 0 then Some (0, n\<lparr>mem_heap := h\<rparr>)
         else Some (p, (n\<lparr>mem_heap := h\<rparr>)\<lparr>pbufs := (pbufs n)(p := (ram_pbuf p len)\<lparr>pb_payload := LWIP_MEM_ALIGN (30 + p)\<rparr>)\<rparr>))"
proof -
  have "LWIP_MEM_ALIGN_SIZE len \<le> 1504" using assms by (auto simp: LWIP_MEM_ALIGN_SIZE_def)
  then have a: "mem_size_t (LWIP_MEM_ALIGN_SIZE 14 + LWIP_MEM_ALIGN_SIZE len) = 16 + LWIP_MEM_ALIGN_SIZE len"
    "mem_size_t (LWIP_MEM_ALIGN_SIZE 16 + (16 + LWIP_MEM_ALIGN_SIZE len)) = 32 + LWIP_MEM_ALIGN_SIZE len"
    by (simp_all add: mem_size_t_def LWIP_MEM_ALIGN_SIZE_def)
  have t: "(ucast PBUF_RAM :: u8) = 0x80" by (simp add: pbuf_types)
  have ne: "PBUF_RAM \<noteq> PBUF_REF" "PBUF_RAM \<noteq> PBUF_ROM" "PBUF_RAM \<noteq> PBUF_POOL" by (simp_all add: pbuf_types)
  show ?thesis using a
    by (simp add: pbuf_alloc_def PBUF_LINK_def ne Let_def pbuf_init_alloced_pbuf_def ram_pbuf_def pb_upd_def t
        split: option.splits)
qed

text \<open>A fresh heap block is none of the pbufs in use.\<close>

lemma fresh_block:
  assumes own: "owned E n M" and h: "heap_inv h" "ram h = ram (mem_heap n)" "(p, k) \<in> heap_live h"
    and new: "p \<notin> fst ` heap_live (mem_heap n)" and m: "(q, ys) \<in># M"
  shows "p \<notin> set ys"
proof
  assume p: "p \<in> set ys"
  note b = heap_live_bounds [OF h(1,3)]
  have "sourced n p" "held E n p" using ownedD(3) [OF own m] p by (simp_all add: chain_ok_def)
  then have "p \<in> pool_used E n \<union> ref_used E n" using new by (auto simp: sourced_def held_def)
  then have "\<exists>t \<in> {MEMP_PBUF, MEMP_PBUF_POOL}. p \<in> elems (memp_pools E ! t)"
    by (auto simp: pool_used_def ref_used_def memp_used_def)
  then show False using ownedD(2) [OF own] b h(2) by (auto simp: pools_apart_def apart_def)
qed

lemma owned_alloc:
  assumes own: "owned E n M" and len: "len \<le> 1500"
  shows "\<exists>p n'. pbuf_alloc E PBUF_LINK len PBUF_RAM n = Some (p, n') \<and> mem_bytes n' = mem_bytes n \<and>
    (if p = 0 then pbufs n' = pbufs n \<and> owned E n' M
     else pbufs n' = (pbufs n)(p := ram_pbuf p len) \<and> owned E n' (add_mset (p, [p]) M) \<and>
       (\<exists>k. 32 + len \<le> k \<and> (p, k) \<in> heap_live (mem_heap n') \<and> p \<notin> fst ` heap_live (mem_heap n)))"
proof -
  let ?k = "32 + LWIP_MEM_ALIGN_SIZE len" and ?h = "mem_heap n"
  have al: "len \<le> LWIP_MEM_ALIGN_SIZE len" "LWIP_MEM_ALIGN_SIZE len \<le> 1504" using len by (auto simp: LWIP_MEM_ALIGN_SIZE_def)
  then have rq: "request_ok ?k" by (simp add: request_ok_def)
  have hi: "heap_inv ?h" using ownedD(1) [OF own] by (simp add: net_inv_def)
  from heap.alloc_law [OF hi rq] obtain p h where mm: "mem_malloc ?k ?h = Some (p, h)" "heap_inv h"
    and lv: "if p = 0 then heap_live h = heap_live ?h
       else p \<notin> fst ` heap_live ?h \<and> (\<exists>m. ?k \<le> m \<and> heap_live h = insert (p, m) (heap_live ?h))" by blast
  have rm: "ram h = ram ?h" by (rule mem_malloc_ram [OF hi rq mm(1)])
  let ?n = "n\<lparr>mem_heap := h\<rparr>"
  have st: "net_inv E ?n" "pools_apart E ?n" "pool_used E ?n = pool_used E n" "ref_used E ?n = ref_used E n"
    using ownedD(1,2) [OF own] mm(2) rm by (simp_all add: net_inv_def pools_apart_def pool_used_def ref_used_def)
  show ?thesis
  proof (cases "p = 0")
    case True
    have "chain_ok E ?n q ys" if "(q, ys) \<in># M" for q ys
      using chain_ok_frame [OF ownedD(3) [OF own that], of ?n] st lv True by simp
    then have "owned E ?n M" using own st by (simp add: owned_def)
    then show ?thesis using pbuf_alloc_link [OF len, of E n] mm(1) True by simp
  next
    case False
    then obtain m where m: "?k \<le> m" "heap_live h = insert (p, m) (heap_live ?h)" and new: "p \<notin> fst ` heap_live ?h"
      using lv by auto
    have d4: "4 dvd p" using heap_live_bounds(1) [OF mm(2), of p m] m by simp
    then have pay: "LWIP_MEM_ALIGN (30 + p) = 32 + p" using align_payload [of p 14] by (simp add: LWIP_MEM_ALIGN_SIZE_def)
    let ?n' = "?n\<lparr>pbufs := (pbufs n)(p := ram_pbuf p len)\<rparr>"
    have res: "pbuf_alloc E PBUF_LINK len PBUF_RAM n = Some (p, ?n')"
      using pbuf_alloc_link [OF len, of E n] mm(1) False pay by (simp add: ram_pbuf_def)
    have nin: "p \<notin> set ys" if "(q, ys) \<in># M" for q ys
      by (rule fresh_block [OF own mm(2) rm _ new that, of m]) (simp add: m)
    have st': "net_inv E ?n'" "pools_apart E ?n'" "pool_used E ?n' = pool_used E n" "ref_used E ?n' = ref_used E n"
      using st by (simp_all add: net_inv_def pools_apart_def pool_used_def ref_used_def)
    have ck: "chain_ok E ?n' q ys" if "(q, ys) \<in># M" for q ys
      by (rule chain_ok_frame [OF ownedD(3) [OF own that]]) (use st' m nin [OF that] in auto)
    have cp: "chain_ok E ?n' p [p]"
      using False m by (simp add: chain_ok_def ram_pbuf_def sourced_def held_def from_pool_def from_ref_def from_heap_def
          pbuf_get_allocsrc_def pbuf_types)
    have hq: "q \<noteq> p" if "(q, ys) \<in># M" "q \<noteq> 0" for q ys
      using nin [OF that(1)] pchain_head [of n q ys] ownedD(3) [OF own that(1)] that(2) by (auto simp: chain_ok_def)
    have np: "(p, [p]) \<notin># M" using nin [of p "[p]"] by auto
    have "owned E ?n' (add_mset (p, [p]) M)" unfolding owned_def
    proof (intro conjI allI ballI impI)
      fix q ys assume "(q, ys) \<in># add_mset (p, [p]) M"
      then show "chain_ok E ?n' q ys" using ck cp by auto
    next
      fix q ys assume q: "(q, ys) \<in># add_mset (p, [p]) M" "q \<noteq> 0"
      show "count (add_mset (p, [p]) M) (q, ys) \<le> unat (pb_ref (pbufs ?n' q))"
      proof (cases "(q, ys) = (p, [p])")
        case True
        then show ?thesis using np by (simp add: ram_pbuf_def not_in_iff)
      next
        case False
        then show ?thesis using q hq ownedD(4) [OF own, of q ys] by auto
      qed
    next
      fix x y assume "x \<in># add_mset (p, [p]) M" "y \<in># add_mset (p, [p]) M" "x \<noteq> y"
      then show "set (snd x) \<inter> set (snd y) = {}" using nin ownedD(5) [OF own, of x y] by (cases x; cases y) auto
    qed (use st' in simp_all)
    moreover have "32 + len \<le> m" using m(1) al(1) by simp
    ultimately show ?thesis using res m(2) new False by (intro exI [of _ p] exI [of _ ?n']) (auto intro!: exI [of _ m])
  qed
qed

end
