(* ===== verification/Lwip_Etharp_Msg.thy ===== *)
theory Lwip_Etharp_Msg
  imports Lwip_Etharp Lwip_Packet_Own
begin

text \<open>
  The messages of the Ethernet layer: what \<open>ethernet_output\<close> and \<open>etharp_raw\<close> put on the wire, byte by
  byte, and that they leave every packet in the program's hands intact.
\<close>

section \<open>The Ethernet header\<close>

lemma pbuf_add_header_frame:
  assumes "pbuf_add_header p k n = (err, n')"
  shows "mem_bytes n' = mem_bytes n" "mem_heap n' = mem_heap n" "mem_pools n' = mem_pools n"
    "pb_next (pbufs n' a) = pb_next (pbufs n a)" "pb_type_internal (pbufs n' a) = pb_type_internal (pbufs n a)"
    "pb_ref (pbufs n' a) = pb_ref (pbufs n a)" "pb_flags (pbufs n' a) = pb_flags (pbufs n a)"
    "a \<noteq> p \<Longrightarrow> pbufs n' a = pbufs n a"
  using assms by (auto simp: pbuf_add_header_def pbuf_add_header_impl_def Let_def split: if_splits)

lemma low_level_output_frame [simp]:
  "b_net (snd (low_level_output p b)) = b_net b" "b_netif (snd (low_level_output p b)) = b_netif b"
  by (simp_all add: low_level_output_def Let_def)

text \<open>Whatever it answers, \<open>ethernet_output\<close> returns and keeps all references good.\<close>

lemma ethernet_output_returns:
  assumes "nif_linkoutput (b_netif b) = low_level_output_fn"
  shows "\<exists>r b'. ethernet_output p src dst t b = Some (r, b') \<and> b_netif b' = b_netif b \<and>
    mem_heap (b_net b') = mem_heap (b_net b) \<and> (\<forall>a. a \<noteq> p \<longrightarrow> pbufs (b_net b') a = pbufs (b_net b) a) \<and>
    (\<forall>E M. owned E (b_net b) M \<longrightarrow> owned E (b_net b') M)"
proof -
  obtain err n where h: "pbuf_add_header p SIZEOF_ETH_HDR (b_net b) = (err, n)" by force
  note fr = pbuf_add_header_frame [OF h]
  have own: "owned E n M" if "owned E (b_net b) M" for E M
    using owned_cong [OF that, of n] fr by simp
  show ?thesis
  proof (cases "err = 0")
    case True
    then show ?thesis
      using assms h fr own by (simp add: ethernet_output_def netif_linkoutput_def Let_def prod_eq_iff [of "low_level_output _ _"])
  next
    case False
    then show ?thesis using h fr own by (simp add: ethernet_output_def)
  qed
qed

lemma put_bytes_swap:
  assumes "apart (a, length xs) (b, length ys)"
  shows "put_bytes a xs (put_bytes b ys m) = put_bytes b ys (put_bytes a xs m)"
  using assms by (intro ext) (auto simp: put_bytes_def apart_def)

lemma u16_bytes_htons: "t < 65536 \<Longrightarrow> u16_bytes (lwip_htons t) = [of_nat (t div 256), of_nat t]"
proof -
  assume "t < 65536"
  then have d: "t div 256 < 256" by (simp add: less_mult_imp_div_less)
  then have "lwip_htons t = 256 * (t mod 256) + t div 256" by (simp add: lwip_htons_def PP_HTONS_eq)
  moreover have "(256 * (t mod 256) + t div 256) div 256 = t mod 256" using d by simp
  moreover have "(of_nat (t mod 256) :: u8) = of_nat t" "(of_nat (256 * (t mod 256) + t div 256) :: u8) = of_nat (t div 256)"
    by (simp_all add: word_of_nat_eq_iff take_bit_eq_mod del: of_nat_add of_nat_mult)
  ultimately show ?thesis by (simp add: u16_bytes_def del: of_nat_add of_nat_mult)
qed

lemma ethernet_output_sends:
  assumes "nif_linkoutput (b_netif b) = low_level_output_fn" and inv: "emac_inv L (b_emac b)"
    and p: "p \<noteq> 0" "contiguous (b_net b) p" "p + 30 \<le> pb_payload (pbufs (b_net b) p)" "pb_payload (pbufs (b_net b) p) < 4294967296"
    and len: "pb_len (pbufs (b_net b) p) + 14 \<le> EMAC_MAX_PKT_SIZE" "pb_tot_len (pbufs (b_net b) p) + 14 < 65536"
    and mac: "length src = 6" "length dst = 6" and t: "t < 65536"
  defines "fr \<equiv> dst @ src @ [of_nat (t div 256), of_nat t] @
      get_bytes (mem_bytes (b_net b)) (pb_payload (pbufs (b_net b) p)) (pb_len (pbufs (b_net b) p))"
  shows "\<exists>r b'. ethernet_output p src dst t b = Some (r, b') \<and>
    (if own (desc (b_emac b) (u32NextTxDesc (b_emac b))) then r = ERR_USE \<and> b_emac b' = b_emac b
     else r = ERR_OK \<and> frame_queued L (b_emac b) fr (b_emac b'))"
proof -
  let ?b = "pbufs (b_net b) p" and ?m = "mem_bytes (b_net b)"
  define a where "a = pb_payload ?b - 14"
  have a: "pb_payload ?b = a + 14" using p(3) by (simp add: a_def)
  let ?n = "pb_upd p (\<lambda>b. b\<lparr>pb_payload := pb_payload b - 14, pb_len := u16_of (pb_len b + 14), pb_tot_len := pb_tot_len b + 14\<rparr>) (b_net b)"
  have h: "pbuf_add_header p SIZEOF_ETH_HDR (b_net b) = (0, ?n)"
    using pbuf_add_header_eq [OF p(1) _ _ p(2), of 14] p len by (simp add: SIZEOF_ETH_HDR_def)
  let ?hd = "dst @ src @ u16_bytes (lwip_htons t)"
  define m where "m = put_bytes (a + 6) src (put_bytes a dst (put_bytes (a + 12) (u16_bytes (lwip_htons t)) ?m))"
  have l2: "length (u16_bytes k) = 2" for k by (simp add: u16_bytes_def)
  have m: "m = put_bytes a ?hd ?m"
    using mac l2 by (simp add: m_def put_bytes_append put_bytes_swap [of a dst "a + 12"] put_bytes_swap [of "a + 6" src "a + 12"] apart_def)
       (simp add: add.commute)
  let ?b1 = "b\<lparr>b_net := ?n\<lparr>mem_bytes := m\<rparr>\<rparr>"
  have eo: "ethernet_output p src dst t b = Some (low_level_output p ?b1)"
    using h assms(1) mac by (simp add: ethernet_output_def Let_def netif_linkoutput_def m_def a ETH_HWADDR_LEN_def a_def [symmetric])
  have len': "pb_len (pbufs (b_net ?b1) p) = pb_len ?b + 14" "pb_payload (pbufs (b_net ?b1) p) = a"
    using len by (simp_all add: EMAC_MAX_PKT_SIZE_def a)
  have "get_bytes m a (14 + pb_len ?b) = get_bytes m a 14 @ get_bytes m (a + 14) (pb_len ?b)" by (rule get_bytes_add)
  also have "get_bytes m a 14 = ?hd" using get_put_same [of a ?hd ?m] mac l2 by (simp add: m)
  also have "get_bytes m (a + 14) (pb_len ?b) = get_bytes ?m (a + 14) (pb_len ?b)"
    unfolding m by (rule get_put_apart) (simp add: apart_def mac l2)
  finally have "get_bytes m a (14 + pb_len ?b) = fr" by (simp add: fr_def a u16_bytes_htons [OF t])
  then have fr: "get_bytes (mem_bytes (b_net ?b1)) (pb_payload (pbufs (b_net ?b1) p)) (pb_len (pbufs (b_net ?b1) p)) = fr"
    unfolding len' by (simp add: add.commute)
  have "pb_len (pbufs (b_net ?b1) p) \<le> EMAC_MAX_PKT_SIZE" using len len' by simp
  from low_level_output_spec [OF _ this, of L, unfolded fr] inv show ?thesis unfolding eo by (auto split: if_splits)
qed

section \<open>ARP messages\<close>

definition arp_msg :: "nat \<Rightarrow> u8 list \<Rightarrow> u32 \<Rightarrow> u8 list \<Rightarrow> u32 \<Rightarrow> u8 list" where
  "arp_msg opcode hwsrc ipsrc hwdst ipdst =
    [0, 1, 8, 0, 6, 4, of_nat (opcode div 256), of_nat opcode] @ hwsrc @ ip_bytes ipsrc @ hwdst @ ip_bytes ipdst"

definition arp_frame :: "u8 list \<Rightarrow> u8 list \<Rightarrow> nat \<Rightarrow> u8 list \<Rightarrow> u32 \<Rightarrow> u8 list \<Rightarrow> u32 \<Rightarrow> u8 list" where
  "arp_frame ethdst ethsrc opcode hwsrc ipsrc hwdst ipdst =
    ethdst @ ethsrc @ [8, 6] @ arp_msg opcode hwsrc ipsrc hwdst ipdst"

definition arp_fill :: "nat \<Rightarrow> nat \<Rightarrow> u8 list \<Rightarrow> u32 \<Rightarrow> u8 list \<Rightarrow> u32 \<Rightarrow> bytes \<Rightarrow> bytes" where
  "arp_fill hdr opcode hwsrc ipsrc hwdst ipdst m =
    (put_bytes (hdr + 2) (u16_bytes (PP_HTONS ETHTYPE_IP)) (put_bytes hdr (u16_bytes (PP_HTONS LWIP_IANA_HWTYPE_ETHERNET))
      (put_bytes (hdr + 24) (ip_bytes ipdst) (put_bytes (hdr + 14) (ip_bytes ipsrc) (put_bytes (hdr + 18) hwdst
        (put_bytes (hdr + 8) hwsrc (put_bytes (hdr + 6) (u16_bytes (lwip_htons opcode)) m)))))))
      (hdr + 4 := of_nat ETH_HWADDR_LEN, hdr + 5 := 4)"

lemma length_ip_bytes [simp]: "length (ip_bytes a) = 4"
  by (simp add: ip_bytes_def)

lemma length_u16_bytes [simp]: "length (u16_bytes k) = 2"
  by (simp add: u16_bytes_def)

lemma get_bytes_split: "k + l = n \<Longrightarrow> a + k = b \<Longrightarrow> get_bytes m a n = get_bytes m a k @ get_bytes m b l"
  using get_bytes_add [of m a k l] by simp

lemma SIZEOF_ETHARP_HDR_le: "SIZEOF_ETHARP_HDR \<le> 1500"
  by (simp add: SIZEOF_ETHARP_HDR_def)

lemma fun_upd_put: "m(a := x) = put_bytes a [x] m"
  by (rule ext) (auto simp: put_bytes_def)

text \<open>The fields, written one by one in the order of the code, are the message.\<close>

lemma arp_fill_msg:
  assumes "length hwsrc = 6" "length hwdst = 6" "opcode < 65536"
  shows "get_bytes (arp_fill hdr opcode hwsrc ipsrc hwdst ipdst m) hdr 28 = arp_msg opcode hwsrc ipsrc hwdst ipdst"
proof -
  define f where "f = arp_fill hdr opcode hwsrc ipsrc hwdst ipdst m"
  have c: "u16_bytes (PP_HTONS ETHTYPE_IP) = [8, 0]" "u16_bytes (PP_HTONS LWIP_IANA_HWTYPE_ETHERNET) = [0, 1]"
    using u16_bytes_htons [of ETHTYPE_IP] u16_bytes_htons [of LWIP_IANA_HWTYPE_ETHERNET]
    by (simp_all add: lwip_htons_def ETHTYPE_IP_def LWIP_IANA_HWTYPE_ETHERNET_def)
  note f = f_def [unfolded arp_fill_def c u16_bytes_htons [OF assms(3)] fun_upd_put]
  have cut: "get_bytes f hdr 28 = get_bytes f hdr 2 @ get_bytes f (hdr + 2) 26"
    "get_bytes f (hdr + 2) 26 = get_bytes f (hdr + 2) 2 @ get_bytes f (hdr + 4) 24"
    "get_bytes f (hdr + 4) 24 = get_bytes f (hdr + 4) 1 @ get_bytes f (hdr + 5) 23"
    "get_bytes f (hdr + 5) 23 = get_bytes f (hdr + 5) 1 @ get_bytes f (hdr + 6) 22"
    "get_bytes f (hdr + 6) 22 = get_bytes f (hdr + 6) 2 @ get_bytes f (hdr + 8) 20"
    "get_bytes f (hdr + 8) 20 = get_bytes f (hdr + 8) 6 @ get_bytes f (hdr + 14) 14"
    "get_bytes f (hdr + 14) 14 = get_bytes f (hdr + 14) 4 @ get_bytes f (hdr + 18) 10"
    "get_bytes f (hdr + 18) 10 = get_bytes f (hdr + 18) 6 @ get_bytes f (hdr + 24) 4"
    by (rule get_bytes_split; simp)+
  have same: "length bs = k \<Longrightarrow> get_bytes (put_bytes a bs m) a k = bs" for bs a k and m :: bytes
    using get_put_same [of a bs m] by simp
  show ?thesis unfolding f_def [symmetric] cut arp_msg_def
    by (simp add: f get_put_apart apart_def assms same ETH_HWADDR_LEN_def)
qed

text \<open>The three steps of \<open>etharp_raw\<close> once its packet is allocated.\<close>

lemma etharp_raw_alloced:
  assumes "pbuf_alloc E PBUF_LINK SIZEOF_ETHARP_HDR PBUF_RAM (b_net b) = Some (p, n)" "p \<noteq> 0"
    and "length hwsrc = 6" "length hwdst = 6"
  shows "etharp_raw E ethsrc ethdst hwsrc ipsrc hwdst ipdst opcode b =
    (case ethernet_output p ethsrc ethdst ETHTYPE_ARP
       (b\<lparr>b_net := n\<lparr>mem_bytes := arp_fill (pb_payload (pbufs n p)) opcode hwsrc ipsrc hwdst ipdst (mem_bytes n)\<rparr>\<rparr>) of
       None \<Rightarrow> None
     | Some (_, b) \<Rightarrow> (case pbuf_free E p (b_net b) of None \<Rightarrow> None | Some (_, n) \<Rightarrow> Some (ERR_OK, b\<lparr>b_net := n\<rparr>)))"
  using assms by (simp add: etharp_raw_def arp_fill_def Let_def ETH_HWADDR_LEN_def)

text \<open>\<open>etharp_raw\<close> returns, and the packets in other hands stay as they are.\<close>

lemma etharp_raw_returns:
  assumes own: "owned E (b_net b) M" and link: "nif_linkoutput (b_netif b) = low_level_output_fn"
    and mac: "length hwsrc = 6" "length hwdst = 6"
  shows "\<exists>r b'. etharp_raw E ethsrc ethdst hwsrc ipsrc hwdst ipdst opcode b = Some (r, b') \<and> b_netif b' = b_netif b \<and>
    owned E (b_net b') M \<and> (\<forall>q ys. (q, ys) \<in># M \<longrightarrow> (\<forall>a \<in> set ys. pbufs (b_net b') a = pbufs (b_net b) a))"
proof -
  obtain p n where al: "pbuf_alloc E PBUF_LINK SIZEOF_ETHARP_HDR PBUF_RAM (b_net b) = Some (p, n)"
    and res: "if p = 0 then pbufs n = pbufs (b_net b) \<and> owned E n M
     else pbufs n = (pbufs (b_net b))(p := ram_pbuf p SIZEOF_ETHARP_HDR) \<and> owned E n (add_mset (p, [p]) M)"
    using owned_alloc [OF own, of SIZEOF_ETHARP_HDR] by (auto simp: SIZEOF_ETHARP_HDR_def split: if_splits)
  show ?thesis
  proof (cases "p = 0")
    case True
    then show ?thesis using al res by (simp add: etharp_raw_def)
  next
    case False
    let ?b = "b\<lparr>b_net := n\<lparr>mem_bytes := arp_fill (pb_payload (pbufs n p)) opcode hwsrc ipsrc hwdst ipdst (mem_bytes n)\<rparr>\<rparr>"
    have o1: "owned E (b_net ?b) (add_mset (p, [p]) M)" using res False by simp
    obtain r b1 where eo: "ethernet_output p ethsrc ethdst ETHTYPE_ARP ?b = Some (r, b1)" "b_netif b1 = b_netif b"
      and pb: "\<forall>a. a \<noteq> p \<longrightarrow> pbufs (b_net b1) a = pbufs n a" and o2: "owned E (b_net b1) (add_mset (p, [p]) M)"
      using ethernet_output_returns [of ?b p ethsrc ethdst ETHTYPE_ARP] link o1 by auto
    from owned_free [OF o2] obtain k n2 where fr: "pbuf_free E p (b_net b1) = Some (k, n2)" "owned E n2 M"
      and pb2: "\<forall>a. a \<noteq> p \<longrightarrow> pbufs n2 a = pbufs (b_net b1) a" by auto
    have "pbufs n2 a = pbufs (b_net b) a" if "(q, ys) \<in># M" "a \<in> set ys" for q ys a
    proof -
      have "(q, ys) \<noteq> (p, [p]) \<or> 2 \<le> count (add_mset (p, [p]) M) (p, [p])" using that(1)
        by (auto simp: Suc_le_eq simp flip: count_greater_zero_iff)
      moreover have "unat (pb_ref (pbufs n p)) = 1" using res False by (simp add: ram_pbuf_def)
      ultimately have "(q, ys) \<noteq> (p, [p])" using ownedD(4) [OF o1, of p "[p]"] False by (auto simp: count_eq_zero_iff)
      then have "p \<notin> set ys" using ownedD(5) [OF o1, of "(q, ys)" "(p, [p])"] that(1) by auto
      then show ?thesis using pb pb2 res False that(2) by auto
    qed
    then show ?thesis using etharp_raw_alloced [OF al False mac] eo fr by simp
  qed
qed

text \<open>
  What it sends. It answers \<open>ERR_MEM\<close> when the heap has no room for the message. Otherwise it answers
  \<open>ERR_OK\<close>: also when the frame was refused because the EMAC still owned the descriptor.
\<close>

lemma etharp_raw_sends:
  assumes own: "owned E (b_net b) M" and link: "nif_linkoutput (b_netif b) = low_level_output_fn"
    and inv: "emac_inv L (b_emac b)"
    and mac: "length ethsrc = 6" "length ethdst = 6" "length hwsrc = 6" "length hwdst = 6" and op: "opcode < 65536"
  shows "\<exists>r b'. etharp_raw E ethsrc ethdst hwsrc ipsrc hwdst ipdst opcode b = Some (r, b') \<and>
    (if fst (the (mem_malloc 60 (mem_heap (b_net b)))) = 0 then r = ERR_MEM \<and> b_emac b' = b_emac b
     else r = ERR_OK \<and>
       (if own (desc (b_emac b) (u32NextTxDesc (b_emac b))) then b_emac b' = b_emac b
        else frame_queued L (b_emac b) (arp_frame ethdst ethsrc opcode hwsrc ipsrc hwdst ipdst) (b_emac b')))"
proof -
  from owned_alloc [OF own SIZEOF_ETHARP_HDR_le]
  obtain p n where al: "pbuf_alloc E PBUF_LINK SIZEOF_ETHARP_HDR PBUF_RAM (b_net b) = Some (p, n)"
    and "if p = 0 then pbufs n = pbufs (b_net b) \<and> owned E n M
     else pbufs n = (pbufs (b_net b))(p := ram_pbuf p SIZEOF_ETHARP_HDR) \<and> owned E n (add_mset (p, [p]) M) \<and>
       (\<exists>k. 32 + SIZEOF_ETHARP_HDR \<le> k \<and> (p, k) \<in> heap_live (mem_heap n) \<and> p \<notin> fst ` heap_live (mem_heap (b_net b)))"
    by blast
  then have res: "if p = 0 then owned E n M
     else pbufs n = (pbufs (b_net b))(p := ram_pbuf p SIZEOF_ETHARP_HDR) \<and> owned E n (add_mset (p, [p]) M) \<and>
       (\<exists>k. 32 + SIZEOF_ETHARP_HDR \<le> k \<and> (p, k) \<in> heap_live (mem_heap n))"
    by (auto split: if_splits)
  have p: "p = fst (the (mem_malloc 60 (mem_heap (b_net b))))"
    using al pbuf_alloc_link [of 28 E "b_net b"]
    by (auto simp: SIZEOF_ETHARP_HDR_def LWIP_MEM_ALIGN_SIZE_def split: option.splits if_splits)
  show ?thesis
  proof (cases "p = 0")
    case True
    then show ?thesis using al p by (simp add: etharp_raw_def)
  next
    case False
    let ?n = "n\<lparr>mem_bytes := arp_fill (pb_payload (pbufs n p)) opcode hwsrc ipsrc hwdst ipdst (mem_bytes n)\<rparr>"
    let ?b = "b\<lparr>b_net := ?n\<rparr>"
    have pb: "pbufs n p = ram_pbuf p 28" and o1: "owned E ?n (add_mset (p, [p]) M)"
      using res False by (simp_all add: SIZEOF_ETHARP_HDR_def)
    obtain k where k: "60 \<le> k" "(p, k) \<in> heap_live (mem_heap n)" using res False by (auto simp: SIZEOF_ETHARP_HDR_def)
    have hi: "heap_inv (mem_heap n)" using ownedD(1) [OF o1] by (simp add: net_inv_def)
    have top: "p + 60 \<le> 4294967296"
    proof -
      obtain xs where "heap_ok (mem_heap n) xs" using hi by (auto simp: heap_inv_def)
      then have "ram (mem_heap n) + 30728 \<le> 4294967296" by (simp add: heap_ok_def heap_rep_def)
      then show ?thesis using heap_live_bounds(3) [OF hi k(2)] k(1) by simp
    qed
    have fr: "get_bytes (mem_bytes ?n) (32 + p) 28 = arp_msg opcode hwsrc ipsrc hwdst ipdst"
      using arp_fill_msg [OF mac(3,4) op, of "32 + p"] pb by (simp add: ram_pbuf_def)
    have six: "(2054 :: u8) = 6" by simp
    have "\<exists>r b'. ethernet_output p ethsrc ethdst ETHTYPE_ARP ?b = Some (r, b') \<and>
      (if own (desc (b_emac b) (u32NextTxDesc (b_emac b))) then r = ERR_USE \<and> b_emac b' = b_emac b
       else r = ERR_OK \<and> frame_queued L (b_emac b) (arp_frame ethdst ethsrc opcode hwsrc ipsrc hwdst ipdst) (b_emac b'))"
      using ethernet_output_sends [of ?b L p ethsrc ethdst ETHTYPE_ARP] link inv False top mac fr pb
      by (simp add: ram_pbuf_def contiguous_def PBUF_TYPE_FLAG_STRUCT_DATA_CONTIGUOUS_def EMAC_MAX_PKT_SIZE_def
          ETHTYPE_ARP_def arp_frame_def six cong: if_cong)
    then obtain r b1 where eo: "ethernet_output p ethsrc ethdst ETHTYPE_ARP ?b = Some (r, b1)"
      and em: "if own (desc (b_emac b) (u32NextTxDesc (b_emac b))) then b_emac b1 = b_emac b
        else frame_queued L (b_emac b) (arp_frame ethdst ethsrc opcode hwsrc ipsrc hwdst ipdst) (b_emac b1)"
      by (auto split: if_splits)
    have "owned E (b_net b1) (add_mset (p, [p]) M)"
      using ethernet_output_returns [of ?b p ethsrc ethdst ETHTYPE_ARP] link o1 eo by auto
    from owned_free [OF this] obtain c n2 where "pbuf_free E p (b_net b1) = Some (c, n2)" by auto
    then have "etharp_raw E ethsrc ethdst hwsrc ipsrc hwdst ipdst opcode b = Some (ERR_OK, b1\<lparr>b_net := n2\<rparr>)"
      using etharp_raw_alloced [OF al False mac(3,4)] eo by simp
    then show ?thesis using em p False by simp
  qed
qed

end
