(* ===== verification/Lwip_Etharp_Table.thy ===== *)
theory Lwip_Etharp_Table
  imports Lwip_Etharp_Msg
begin

text \<open>
  The ARP table: its invariant, the search with its choice of what to recycle, and that every operation
  of \<open>etharp.c\<close> returns and keeps the invariant.
\<close>

section \<open>The invariant\<close>

text \<open>
  Only a pending entry holds a packet, entries expire before their counters pass the limits, and no two
  entries in use are for the same address and interface.
\<close>

definition entry_ok :: "etharp_entry \<Rightarrow> bool" where
  "entry_ok e \<longleftrightarrow> (arp_state e \<noteq> ETHARP_STATE_PENDING \<longrightarrow> arp_q e = 0) \<and> arp_ctime e < ARP_MAXAGE \<and>
    (arp_state e = ETHARP_STATE_PENDING \<longrightarrow> arp_ctime e < ARP_MAXPENDING) \<and> length (arp_ethaddr e) = 6"

definition same_key :: "etharp_entry \<Rightarrow> etharp_entry \<Rightarrow> bool" where
  "same_key e f \<longleftrightarrow> arp_state e \<noteq> ETHARP_STATE_EMPTY \<and> arp_state f \<noteq> ETHARP_STATE_EMPTY \<and>
    arp_ipaddr e = arp_ipaddr f \<and> arp_netif e = arp_netif f"

definition table_ok :: "etharp_entry list \<Rightarrow> bool" where
  "table_ok t \<longleftrightarrow> length t = ARP_TABLE_SIZE \<and> (\<forall>e \<in> set t. entry_ok e) \<and>
    (\<forall>i < ARP_TABLE_SIZE. \<forall>j < ARP_TABLE_SIZE. i \<noteq> j \<longrightarrow> \<not> same_key (t ! i) (t ! j))"

text \<open>The references that the entries hold; \<open>C\<close> gives the chain behind each head.\<close>

definition entry_refs :: "(nat \<Rightarrow> nat list) \<Rightarrow> etharp_entry \<Rightarrow> (nat \<times> nat list) multiset" where
  "entry_refs C e = (if arp_q e = 0 then {#} else {#(arp_q e, C (arp_q e))#})"

definition table_refs :: "(nat \<Rightarrow> nat list) \<Rightarrow> etharp_entry list \<Rightarrow> (nat \<times> nat list) multiset" where
  "table_refs C t = sum_list (map (entry_refs C) t)"

text \<open>\<open>M\<close> are the references that others hold.\<close>

definition arp_ok :: "pbuf_env \<Rightarrow> (nat \<times> nat list) multiset \<Rightarrow> arp \<Rightarrow> bool" where
  "arp_ok E M s \<longleftrightarrow> table_ok (arp_table s) \<and> etharp_cached_entry s < ARP_TABLE_SIZE \<and>
    nif_linkoutput (arp_nif s) = low_level_output_fn \<and> length (hwaddr (arp_nif s)) = 6 \<and>
    (\<exists>C. owned E (arp_net s) (table_refs C (arp_table s) + M))"

lemma table_refs_update:
  "i < length t \<Longrightarrow> table_refs C (t[i := e]) + entry_refs C (t ! i) = table_refs C t + entry_refs C e"
proof (induction t arbitrary: i)
  case (Cons f t)
  show ?case
  proof (cases i)
    case 0
    then show ?thesis by (simp add: table_refs_def add_ac)
  next
    case (Suc j)
    then have "table_refs C (t[j := e]) + entry_refs C (t ! j) = table_refs C t + entry_refs C e"
      using Cons.IH [of j] Cons.prems by simp
    then show ?thesis using Suc by (simp add: table_refs_def add_ac)
  qed
qed simp

lemma table_refs_same: "i < length t \<Longrightarrow> arp_q e = arp_q (t ! i) \<Longrightarrow> table_refs C (t[i := e]) = table_refs C t"
  using table_refs_update [of i t C e] by (simp add: entry_refs_def split: if_splits)

lemma arp_sel [simp]:
  "arp_table (set_net n s) = arp_table s" "arp_net (set_net n s) = n" "arp_nif (set_net n s) = arp_nif s"
  "etharp_cached_entry (set_net n s) = etharp_cached_entry s"
  "arp_table (upd_entry i f s) = (arp_table s)[i := f (arp_table s ! i)]" "arp_net (upd_entry i f s) = arp_net s"
  "arp_nif (upd_entry i f s) = arp_nif s" "etharp_cached_entry (upd_entry i f s) = etharp_cached_entry s"
  "arp_board (upd_entry i f s) = arp_board s" "b_emac (arp_board (set_net n s)) = b_emac (arp_board s)"
  by (simp_all add: set_net_def upd_entry_def arp_net_def arp_nif_def)

lemma table_ok_len: "table_ok t \<Longrightarrow> length t = ARP_TABLE_SIZE"
  by (simp add: table_ok_def)

lemma table_ok_entry: "table_ok t \<Longrightarrow> i < ARP_TABLE_SIZE \<Longrightarrow> entry_ok (t ! i)"
  by (auto simp: table_ok_def)

lemma table_ok_update:
  assumes "table_ok t" "i < ARP_TABLE_SIZE" "entry_ok e"
    and "\<And>j. j < ARP_TABLE_SIZE \<Longrightarrow> j \<noteq> i \<Longrightarrow> \<not> same_key e (t ! j)"
  shows "table_ok (t[i := e])"
proof -
  have s: "same_key x y = same_key y x" for x y by (auto simp: same_key_def)
  have "\<forall>f \<in> set (t[i := e]). entry_ok f" using assms(1,3) set_update_subset_insert [of t i e] by (auto simp: table_ok_def)
  then show ?thesis using assms(1,2,4) s by (auto simp: table_ok_def nth_list_update)
qed

text \<open>An entry that is free, or stays in use for the same address, does not clash.\<close>

lemma same_key_mono:
  assumes "table_ok t" "i < ARP_TABLE_SIZE" "j < ARP_TABLE_SIZE" "j \<noteq> i"
    and "arp_state e \<noteq> ETHARP_STATE_EMPTY \<longrightarrow> arp_state (t ! i) \<noteq> ETHARP_STATE_EMPTY \<and> arp_ipaddr e = arp_ipaddr (t ! i) \<and>
      arp_netif e = arp_netif (t ! i)"
  shows "\<not> same_key e (t ! j)"
proof
  assume "same_key e (t ! j)"
  then have "same_key (t ! i) (t ! j)" using assms(5) by (auto simp: same_key_def)
  then show False using assms(1-4) by (simp add: table_ok_def)
qed

lemma table_ok_keep:
  assumes "table_ok t" "i < ARP_TABLE_SIZE" "entry_ok e"
    and "arp_state e \<noteq> ETHARP_STATE_EMPTY \<longrightarrow> arp_state (t ! i) \<noteq> ETHARP_STATE_EMPTY \<and> arp_ipaddr e = arp_ipaddr (t ! i) \<and>
      arp_netif e = arp_netif (t ! i)"
  shows "table_ok (t[i := e])"
  using table_ok_update [OF assms(1-3)] same_key_mono [OF assms(1,2) _ _ assms(4)] by blast

lemma arp_ok_upd:
  assumes "arp_ok E M s" "i < ARP_TABLE_SIZE" "arp_q (f (arp_table s ! i)) = arp_q (arp_table s ! i)"
    and "table_ok ((arp_table s)[i := f (arp_table s ! i)])"
  shows "arp_ok E M (upd_entry i f s)"
proof -
  have "length (arp_table s) = ARP_TABLE_SIZE" using assms(1) by (simp add: arp_ok_def table_ok_def)
  then have "table_refs C ((arp_table s)[i := f (arp_table s ! i)]) = table_refs C (arp_table s)" for C
    using table_refs_same assms(2,3) by simp
  then show ?thesis using assms(1,4) by (simp add: arp_ok_def)
qed

section \<open>Freeing an entry\<close>

definition free_entry :: etharp_entry where
  "free_entry = \<lparr>arp_q = 0, arp_ipaddr = 0, arp_netif = 0, arp_ethaddr = ethzero, arp_ctime = 0, arp_state = ETHARP_STATE_EMPTY\<rparr>"

lemma free_entry_ok [simp]: "entry_ok free_entry" "arp_state free_entry = ETHARP_STATE_EMPTY" "arp_q free_entry = 0"
  by (simp_all add: free_entry_def entry_ok_def ARP_MAXAGE_def ethzero_def)

text \<open>Giving up the packet of an entry.\<close>

lemma entry_release:
  assumes ok: "arp_ok E M s" and i: "i < ARP_TABLE_SIZE" and t: "table_ok ((arp_table s)[i := e])" "arp_q e = 0"
  shows "\<exists>r n. pbuf_free E (arp_q (arp_table s ! i)) (arp_net s) = Some (r, n) \<and> mem_bytes n = mem_bytes (arp_net s) \<and>
    arp_ok E M (upd_entry i (\<lambda>_. e) (set_net n s)) \<and> 
    kept M (arp_net s) n"
proof -
  obtain C where C: "owned E (arp_net s) (table_refs C (arp_table s) + M)" using ok by (auto simp: arp_ok_def)
  have l: "i < length (arp_table s)" using ok i by (simp add: arp_ok_def table_ok_def)
  let ?q = "arp_q (arp_table s ! i)" and ?R = "table_refs C ((arp_table s)[i := e]) + M"
  have eq: "table_refs C (arp_table s) + M = entry_refs C (arp_table s ! i) + ?R"
    using table_refs_update [OF l, of C e] t(2) by (simp add: entry_refs_def add_ac)
  have "\<exists>r n. pbuf_free E ?q (arp_net s) = Some (r, n) \<and> owned E n ?R \<and> mem_bytes n = mem_bytes (arp_net s) \<and>
    kept M (arp_net s) n"
  proof (cases "?q = 0")
    case True
    then show ?thesis using True C eq kept_same [of "arp_net s"] by (auto simp: entry_refs_def pbuf_free_def)
  next
    case False
    then have "owned E (arp_net s) (add_mset (?q, C ?q) ?R)" using C eq by (simp add: entry_refs_def)
    from owned_free_kept [OF this] show ?thesis unfolding kept_def by (metis union_iff)
  qed
  then show ?thesis using ok t by (auto simp: arp_ok_def)
qed

lemma etharp_free_entry_ok:
  assumes ok: "arp_ok E M s" and i: "i < ARP_TABLE_SIZE"
  shows "\<exists>n. etharp_free_entry E i s = Some (upd_entry i (\<lambda>_. free_entry) (set_net n s)) \<and> mem_bytes n = mem_bytes (arp_net s) \<and>
    arp_ok E M (upd_entry i (\<lambda>_. free_entry) (set_net n s)) \<and>
    kept M (arp_net s) n"
proof -
  have tk: "table_ok (arp_table s)" and l: "i < length (arp_table s)" using ok i by (simp_all add: arp_ok_def table_ok_def)
  then have t: "table_ok ((arp_table s)[i := free_entry])" using table_ok_keep [OF tk i, of free_entry] by simp
  from entry_release [OF ok i t free_entry_ok(3)] obtain r n where rel: "pbuf_free E (arp_q (arp_table s ! i)) (arp_net s) = Some (r, n)"
    "mem_bytes n = mem_bytes (arp_net s)" "arp_ok E M (upd_entry i (\<lambda>_. free_entry) (set_net n s))"
    "kept M (arp_net s) n" by blast
  have "etharp_free_entry E i s = Some (upd_entry i (\<lambda>_. free_entry) (set_net n s))"
  proof (cases "arp_q (arp_table s ! i) = 0")
    case True
    then have "n = arp_net s" using rel(1) by (simp add: pbuf_free_def)
    moreover have "(arp_table s ! i)\<lparr>arp_state := ETHARP_STATE_EMPTY, arp_ctime := 0, arp_netif := 0, arp_ipaddr := 0,
        arp_ethaddr := ethzero\<rparr> = free_entry" using True by (cases "arp_table s ! i") (simp add: free_entry_def)
    ultimately show ?thesis using True l
      by (simp add: etharp_free_entry_def upd_entry_def set_net_def arp_net_def)
  next
    case False
    moreover have "e\<lparr>arp_q := 0, arp_state := ETHARP_STATE_EMPTY, arp_ctime := 0, arp_netif := 0, arp_ipaddr := 0,
        arp_ethaddr := ethzero\<rparr> = free_entry" for e by (cases e) (simp add: free_entry_def)
    ultimately show ?thesis using rel(1) l
      by (simp add: etharp_free_entry_def arp_pbuf_free_def upd_entry_def set_net_def arp_net_def)
  qed
  then show ?thesis using rel by blast
qed

section \<open>Searching\<close>

definition wanted :: "u32 option \<Rightarrow> nat \<Rightarrow> etharp_entry \<Rightarrow> bool" where
  "wanted ip netif e \<longleftrightarrow> arp_state e \<noteq> ETHARP_STATE_EMPTY \<and> ip = Some (arp_ipaddr e) \<and> (netif = 0 \<or> netif = arp_netif e)"

definition is_stable :: "etharp_entry \<Rightarrow> bool" where
  "is_stable e \<longleftrightarrow> arp_state e \<ge> ETHARP_STATE_STABLE"

definition is_pending :: "bool \<Rightarrow> etharp_entry \<Rightarrow> bool" where
  "is_pending queued e \<longleftrightarrow> arp_state e = ETHARP_STATE_PENDING \<and> (arp_q e \<noteq> 0) = queued"

text \<open>Among the first \<open>k\<close> entries, \<open>i\<close> is the oldest with property \<open>P\<close>; \<open>ARP_TABLE_SIZE\<close> if there is none.\<close>

definition oldest :: "(etharp_entry \<Rightarrow> bool) \<Rightarrow> etharp_entry list \<Rightarrow> nat \<Rightarrow> nat \<Rightarrow> nat \<Rightarrow> bool" where
  "oldest P t k i age \<longleftrightarrow>
    (if i = ARP_TABLE_SIZE then age = 0 \<and> (\<forall>j < k. \<not> P (t ! j))
     else i < k \<and> P (t ! i) \<and> age = arp_ctime (t ! i) \<and> (\<forall>j < k. P (t ! j) \<longrightarrow> arp_ctime (t ! j) \<le> age))"

definition scanned :: "etharp_entry list \<Rightarrow> nat \<Rightarrow> candidates \<Rightarrow> bool" where
  "scanned t k c \<longleftrightarrow>
    (if c_empty c = ARP_TABLE_SIZE then \<forall>j < k. arp_state (t ! j) \<noteq> ETHARP_STATE_EMPTY
     else c_empty c < k \<and> arp_state (t ! c_empty c) = ETHARP_STATE_EMPTY \<and>
       (\<forall>j < c_empty c. arp_state (t ! j) \<noteq> ETHARP_STATE_EMPTY)) \<and>
    oldest is_stable t k (old_stable c) (age_stable c) \<and>
    oldest (is_pending False) t k (old_pending c) (age_pending c) \<and>
    oldest (is_pending True) t k (old_queue c) (age_queue c)"

lemma oldest_skip: "oldest P t k i age \<Longrightarrow> \<not> P (t ! k) \<Longrightarrow> oldest P t (Suc k) i age"
  by (auto simp: oldest_def less_Suc_eq)

lemma oldest_step:
  assumes "oldest P t k i age" "P (t ! k)" "k < ARP_TABLE_SIZE"
  shows "if arp_ctime (t ! k) \<ge> age then oldest P t (Suc k) k (arp_ctime (t ! k)) else oldest P t (Suc k) i age"
  using assms by (auto simp: oldest_def less_Suc_eq split: if_splits)

lemma states_cases:
  "arp_state e = ETHARP_STATE_EMPTY \<or> is_stable e \<or> is_pending False e \<or> is_pending True e"
  "is_stable e \<longleftrightarrow> arp_state e \<noteq> ETHARP_STATE_EMPTY \<and> arp_state e \<noteq> ETHARP_STATE_PENDING"
  by (cases "arp_state e"; auto simp: is_stable_def is_pending_def less_eq_etharp_state_def)+

lemma scanned_remember:
  assumes sc: "scanned t k c" and k: "k < ARP_TABLE_SIZE" and ne: "arp_state (t ! k) \<noteq> ETHARP_STATE_EMPTY"
  shows "scanned t (Suc k) (remember k (t ! k) c)"
proof -
  have e: "if c_empty c = ARP_TABLE_SIZE then \<forall>j < Suc k. arp_state (t ! j) \<noteq> ETHARP_STATE_EMPTY
     else c_empty c < Suc k \<and> arp_state (t ! c_empty c) = ETHARP_STATE_EMPTY \<and>
       (\<forall>j < c_empty c. arp_state (t ! j) \<noteq> ETHARP_STATE_EMPTY)"
    using sc ne by (auto simp: scanned_def less_Suc_eq split: if_splits)
  have o: "oldest is_stable t k (old_stable c) (age_stable c)" "oldest (is_pending False) t k (old_pending c) (age_pending c)"
    "oldest (is_pending True) t k (old_queue c) (age_queue c)" using sc by (simp_all add: scanned_def)
  consider (st) "is_stable (t ! k)" | (pf) "is_pending False (t ! k)" | (pt) "is_pending True (t ! k)"
    using states_cases(1) [of "t ! k"] ne by blast
  then show ?thesis
  proof cases
    case st
    then have "\<not> is_pending False (t ! k)" "\<not> is_pending True (t ! k)" "arp_state (t ! k) \<noteq> ETHARP_STATE_PENDING"
      by (auto simp: states_cases(2) is_pending_def)
    then show ?thesis
      using oldest_step [OF o(1) st k] oldest_skip [OF o(2)] oldest_skip [OF o(3)] e st
      by (auto simp: scanned_def remember_def is_stable_def)
  next
    case pf
    then have "\<not> is_stable (t ! k)" "\<not> is_pending True (t ! k)" by (auto simp: states_cases(2) is_pending_def)
    then show ?thesis
      using oldest_step [OF o(2) pf k] oldest_skip [OF o(1)] oldest_skip [OF o(3)] e pf
      by (auto simp: scanned_def remember_def is_pending_def)
  next
    case pt
    then have "\<not> is_stable (t ! k)" "\<not> is_pending False (t ! k)" by (auto simp: states_cases(2) is_pending_def)
    then show ?thesis
      using oldest_step [OF o(3) pt k] oldest_skip [OF o(1)] oldest_skip [OF o(2)] e pt
      by (auto simp: scanned_def remember_def is_pending_def)
  qed
qed

lemma scanned_empty:
  assumes sc: "scanned t k c" and k: "k < ARP_TABLE_SIZE" and e: "arp_state (t ! k) = ETHARP_STATE_EMPTY"
  shows "scanned t (Suc k) (if c_empty c = ARP_TABLE_SIZE then c\<lparr>c_empty := k\<rparr> else c)"
proof -
  have "\<not> is_stable (t ! k)" "\<not> is_pending b (t ! k)" for b using e by (auto simp: states_cases(2) is_pending_def)
  then show ?thesis using sc k e by (auto simp: scanned_def oldest_skip less_Suc_eq split: if_splits)
qed

lemma find_loop_spec:
  assumes "length t = ARP_TABLE_SIZE" "scanned t k c" "k \<le> ARP_TABLE_SIZE" "\<forall>j < k. \<not> wanted ip netif (t ! j)"
  shows "case find_loop ip netif (drop k t) k c of
      Inl i \<Rightarrow> i < ARP_TABLE_SIZE \<and> wanted ip netif (t ! i) \<and> (\<forall>j < i. \<not> wanted ip netif (t ! j))
    | Inr c' \<Rightarrow> (\<forall>j < ARP_TABLE_SIZE. \<not> wanted ip netif (t ! j)) \<and> scanned t ARP_TABLE_SIZE c'"
  using assms(2-4)
proof (induction "ARP_TABLE_SIZE - k" arbitrary: k c)
  case 0
  then have "k = ARP_TABLE_SIZE" "drop k t = []" using assms(1) by simp_all
  then show ?case using 0 by simp
next
  case (Suc d)
  then have k: "k < ARP_TABLE_SIZE" by simp
  then have dr: "drop k t = t ! k # drop (Suc k) t" using assms(1) by (simp add: Cons_nth_drop_Suc)
  show ?case
  proof (cases "wanted ip netif (t ! k)")
    case True
    then show ?thesis using k Suc.prems(3) unfolding dr by (auto simp: wanted_def)
  next
    case False
    then have nw: "\<forall>j < Suc k. \<not> wanted ip netif (t ! j)" using Suc.prems(3) by (auto simp: less_Suc_eq)
    show ?thesis
    proof (cases "arp_state (t ! k) = ETHARP_STATE_EMPTY")
      case True
      then show ?thesis using Suc.hyps(1) [OF _ scanned_empty [OF Suc.prems(1) k True] _ nw] Suc.hyps(2) k dr by auto
    next
      case ne: False
      then show ?thesis
        using Suc.hyps(1) [OF _ scanned_remember [OF Suc.prems(1) k ne] _ nw] Suc.hyps(2) k dr False
        by (auto simp: wanted_def)
    qed
  qed
qed

lemma scanned_none: "scanned t 0 no_candidates"
  by (simp add: scanned_def oldest_def no_candidates_def)

text \<open>The entry to use when none matches: an empty one, else the oldest of the least valuable kind.\<close>

definition recycled :: "etharp_entry list \<Rightarrow> nat \<Rightarrow> bool" where
  "recycled t i \<longleftrightarrow> i < ARP_TABLE_SIZE \<and>
    (if \<exists>e \<in> set t. arp_state e = ETHARP_STATE_EMPTY then arp_state (t ! i) = ETHARP_STATE_EMPTY \<and> (\<forall>j < i. arp_state (t ! j) \<noteq> ETHARP_STATE_EMPTY)
     else let P = (if \<exists>e \<in> set t. is_stable e then is_stable
                   else if \<exists>e \<in> set t. is_pending False e then is_pending False else is_pending True)
          in P (t ! i) \<and> (\<forall>e \<in> set t. P e \<longrightarrow> arp_ctime e \<le> arp_ctime (t ! i)))"

lemma scanned_recycled:
  assumes len: "length t = ARP_TABLE_SIZE" and sc: "scanned t ARP_TABLE_SIZE c"
  defines "i \<equiv> (if c_empty c < ARP_TABLE_SIZE then c_empty c else if old_stable c < ARP_TABLE_SIZE then old_stable c
    else if old_pending c < ARP_TABLE_SIZE then old_pending c else old_queue c)"
  shows "recycled t i"
proof -
  have ex: "(\<exists>e \<in> set t. P e) \<longleftrightarrow> (\<exists>j < ARP_TABLE_SIZE. P (t ! j))" for P using len by (metis in_set_conv_nth)
  have al: "(\<forall>e \<in> set t. P e) \<longleftrightarrow> (\<forall>j < ARP_TABLE_SIZE. P (t ! j))" for P using len by (metis in_set_conv_nth)
  have o: "oldest is_stable t ARP_TABLE_SIZE (old_stable c) (age_stable c)"
    "oldest (is_pending False) t ARP_TABLE_SIZE (old_pending c) (age_pending c)"
    "oldest (is_pending True) t ARP_TABLE_SIZE (old_queue c) (age_queue c)" using sc by (simp_all add: scanned_def)
  have has: "(i < ARP_TABLE_SIZE) = (\<exists>j < ARP_TABLE_SIZE. P (t ! j))" if "oldest P t ARP_TABLE_SIZE i age" for P i age
    using that by (auto simp: oldest_def split: if_splits)
  have best: "P (t ! i) \<and> (\<forall>j < ARP_TABLE_SIZE. P (t ! j) \<longrightarrow> arp_ctime (t ! j) \<le> arp_ctime (t ! i))"
    if "oldest P t ARP_TABLE_SIZE i age" "i < ARP_TABLE_SIZE" for P i age
    using that by (auto simp: oldest_def split: if_splits)
  show ?thesis
  proof (cases "c_empty c < ARP_TABLE_SIZE")
    case True
    then show ?thesis using sc by (auto simp: recycled_def i_def ex scanned_def split: if_splits)
  next
    case False
    then have ne: "\<forall>j < ARP_TABLE_SIZE. arp_state (t ! j) \<noteq> ETHARP_STATE_EMPTY" using sc by (auto simp: scanned_def split: if_splits)
    have q: "old_queue c < ARP_TABLE_SIZE" if "\<not> old_stable c < ARP_TABLE_SIZE" "\<not> old_pending c < ARP_TABLE_SIZE"
      using that has [OF o(1)] has [OF o(2)] has [OF o(3)] states_cases(1) [of "t ! 0"] ne by (auto simp: ARP_TABLE_SIZE_def)
    show ?thesis
      using False ne q has [OF o(1)] has [OF o(2)] best [OF o(1)] best [OF o(2)] best [OF o(3)]
      by (auto simp: recycled_def i_def ex al Let_def)
  qed
qed

text \<open>Nothing but table entries and reference counts has changed.\<close>

definition quiet :: "(nat \<times> nat list) multiset \<Rightarrow> arp \<Rightarrow> arp \<Rightarrow> bool" where
  "quiet M s s' \<longleftrightarrow> arp_nif s' = arp_nif s \<and> b_emac (arp_board s') = b_emac (arp_board s) \<and>
    mem_bytes (arp_net s') = mem_bytes (arp_net s) \<and> etharp_cached_entry s' = etharp_cached_entry s \<and> kept M (arp_net s) (arp_net s')"

lemma etharp_find_entry_spec:
  assumes ok: "arp_ok E M s"
  shows "\<exists>r s'. etharp_find_entry E ip flags netif s = Some (r, s') \<and> arp_ok E M s' \<and> quiet M s s' \<and>
    (if \<exists>e \<in> set (arp_table s). wanted ip netif e
     then s' = s \<and> (\<exists>i < ARP_TABLE_SIZE. r = Some i \<and> wanted ip netif (arp_table s ! i))
     else if flags AND ETHARP_FLAG_FIND_ONLY \<noteq> 0 \<or>
       (\<forall>e \<in> set (arp_table s). arp_state e \<noteq> ETHARP_STATE_EMPTY) \<and> flags AND ETHARP_FLAG_TRY_HARD = 0
     then r = None \<and> s' = s
     else \<exists>i e. r = Some i \<and> recycled (arp_table s) i \<and> arp_table s' = (arp_table s)[i := e] \<and>
       arp_state e = ETHARP_STATE_EMPTY \<and> arp_q e = 0 \<and> arp_ctime e = 0 \<and> arp_netif e = netif \<and> length (arp_ethaddr e) = 6 \<and>
       (\<forall>a. ip = Some a \<longrightarrow> arp_ipaddr e = a) \<and>
       ((\<exists>e \<in> set (arp_table s). arp_state e = ETHARP_STATE_EMPTY) \<longrightarrow> arp_board s' = arp_board s))"
    (is "\<exists>r s'. ?run r s' \<and> arp_ok E M s' \<and> quiet M s s' \<and> ?res r s'")
proof -
  let ?t = "arp_table s"
  have tk: "table_ok ?t" using ok by (simp add: arp_ok_def)
  note len = table_ok_len [OF tk]
  have ex: "(\<exists>e \<in> set ?t. P e) \<longleftrightarrow> (\<exists>j < ARP_TABLE_SIZE. P (?t ! j))" for P using len by (metis in_set_conv_nth)
  have al: "(\<forall>e \<in> set ?t. P e) \<longleftrightarrow> (\<forall>j < ARP_TABLE_SIZE. P (?t ! j))" for P using len by (metis in_set_conv_nth)
  have q0: "quiet M s s" by (simp add: quiet_def kept_same)
  note sp = find_loop_spec [OF len scanned_none, of ip netif, simplified]
  show ?thesis
  proof (cases "find_loop ip netif ?t 0 no_candidates")
    case (Inl i)
    then have i: "i < ARP_TABLE_SIZE" "wanted ip netif (?t ! i)" using sp by simp_all
    moreover have "etharp_find_entry E ip flags netif s = Some (Some i, s)" using Inl by (simp add: etharp_find_entry_def)
    ultimately show ?thesis using ok q0 ex by auto
  next
    case (Inr c)
    then have nw: "\<not> (\<exists>e \<in> set ?t. wanted ip netif e)" and sc: "scanned ?t ARP_TABLE_SIZE c" using sp by (auto simp: ex)
    have emp: "c_empty c = ARP_TABLE_SIZE \<longleftrightarrow> (\<forall>e \<in> set ?t. arp_state e \<noteq> ETHARP_STATE_EMPTY)" "c_empty c \<le> ARP_TABLE_SIZE"
      using sc by (auto simp: scanned_def al split: if_splits)
    show ?thesis
    proof (cases "flags AND ETHARP_FLAG_FIND_ONLY \<noteq> 0 \<or> c_empty c = ARP_TABLE_SIZE \<and> flags AND ETHARP_FLAG_TRY_HARD = 0")
      case True
      then have "etharp_find_entry E ip flags netif s = Some (None, s)" using Inr by (simp add: etharp_find_entry_def)
      then show ?thesis using ok q0 nw True emp(1) by auto
    next
      case False
      define i where "i = (if c_empty c < ARP_TABLE_SIZE then c_empty c else if old_stable c < ARP_TABLE_SIZE then old_stable c
        else if old_pending c < ARP_TABLE_SIZE then old_pending c else old_queue c)"
      have rc: "recycled ?t i" unfolding i_def by (rule scanned_recycled [OF len sc])
      then have i: "i < ARP_TABLE_SIZE" by (simp add: recycled_def)
      let ?f = "\<lambda>e. e\<lparr>arp_ipaddr := (case ip of None \<Rightarrow> arp_ipaddr e | Some a \<Rightarrow> a), arp_ctime := 0, arp_netif := netif\<rparr>"
      have "\<exists>s1 e. (if c_empty c < ARP_TABLE_SIZE then Some s else etharp_free_entry E i s) = Some s1 \<and> arp_ok E M s1 \<and> quiet M s s1 \<and>
        arp_table s1 = ?t[i := e] \<and> arp_state e = ETHARP_STATE_EMPTY \<and> entry_ok e \<and> (c_empty c < ARP_TABLE_SIZE \<longrightarrow> s1 = s)"
      proof (cases "c_empty c < ARP_TABLE_SIZE")
        case True
        then have "arp_state (?t ! i) = ETHARP_STATE_EMPTY" using sc by (simp add: i_def scanned_def)
        then show ?thesis using True ok q0 table_ok_entry [OF tk i] by (intro exI [of _ s] exI [of _ "?t ! i"]) simp
      next
        case False
        with etharp_free_entry_ok [OF ok i] show ?thesis by (auto simp: quiet_def intro!: exI [of _ free_entry])
      qed
      then obtain s1 e where s1: "(if c_empty c < ARP_TABLE_SIZE then Some s else etharp_free_entry E i s) = Some s1" "arp_ok E M s1" "quiet M s s1"
        and t1: "arp_table s1 = ?t[i := e]" and e: "arp_state e = ETHARP_STATE_EMPTY" "entry_ok e"
        and same: "c_empty c < ARP_TABLE_SIZE \<longrightarrow> s1 = s" by blast
      have ti: "arp_table s1 ! i = e" using t1 i len by simp
      have run: "etharp_find_entry E ip flags netif s = Some (Some i, upd_entry i ?f s1)"
        using Inr False s1(1) i unfolding etharp_find_entry_def by (simp add: i_def [symmetric])
      have fe: "entry_ok (?f e)" using e by (simp add: entry_ok_def ARP_MAXAGE_def)
      have "table_ok (arp_table s1)" using s1(2) by (simp add: arp_ok_def)
      from table_ok_keep [OF this i fe] have "arp_ok E M (upd_entry i ?f s1)"
        using arp_ok_upd [OF s1(2) i, of ?f, unfolded ti] e by simp
      moreover have "quiet M s (upd_entry i ?f s1)" using s1(3) by (simp add: quiet_def)
      moreover have "arp_table (upd_entry i ?f s1) = ?t[i := ?f e]" unfolding arp_sel ti unfolding t1 by simp
      then have "?res (Some i) (upd_entry i ?f s1)"
        using nw False emp rc e same by (auto simp: entry_ok_def intro!: exI [of _ "?f e"])
      ultimately show ?thesis using run by blast
    qed
  qed
qed

section \<open>Sending from the table\<close>

lemma arp_board_sel [simp]:
  "arp_table (s\<lparr>arp_board := b\<rparr>) = arp_table s" "arp_net (s\<lparr>arp_board := b\<rparr>) = b_net b"
  "arp_nif (s\<lparr>arp_board := b\<rparr>) = b_netif b" "upd_entry i f s\<lparr>arp_board := b\<rparr> = upd_entry i f (s\<lparr>arp_board := b\<rparr>)"
  by (simp_all add: arp_net_def arp_nif_def upd_entry_def)

lemma arp_ok_link: "arp_ok E M s \<Longrightarrow> nif_linkoutput (b_netif (arp_board s)) = low_level_output_fn"
  "arp_ok E M s \<Longrightarrow> length (hwaddr (arp_nif s)) = 6"
  by (simp_all add: arp_ok_def arp_nif_def)

lemma arp_ok_board:
  assumes "arp_ok E M s" "b_netif b = b_netif (arp_board s)"
    and "\<And>N. owned E (arp_net s) N \<Longrightarrow> owned E (b_net b) N"
  shows "arp_ok E M (s\<lparr>arp_board := b\<rparr>)"
  using assms by (auto simp: arp_ok_def arp_nif_def)

lemma on_board_output:
  assumes "arp_ok E M s"
  shows "\<exists>r b. on_board (ethernet_output p src dst t) s = Some (r, s\<lparr>arp_board := b\<rparr>) \<and> b_netif b = b_netif (arp_board s) \<and>
    arp_ok E M (s\<lparr>arp_board := b\<rparr>)"
proof -
  obtain r b where "ethernet_output p src dst t (arp_board s) = Some (r, b)" "b_netif b = b_netif (arp_board s)"
    "\<forall>E M. owned E (b_net (arp_board s)) M \<longrightarrow> owned E (b_net b) M"
    using ethernet_output_returns [OF arp_ok_link(1) [OF assms], of p src dst t] by blast
  then show ?thesis using arp_ok_board [OF assms, of b]
    by (intro exI [of _ r] exI [of _ b]) (simp add: on_board_def arp_net_def)
qed

lemma on_board_raw:
  assumes ok: "arp_ok E M s" and mac: "length hwsrc = 6" "length hwdst = 6"
  shows "\<exists>r b. on_board (etharp_raw E ethsrc ethdst hwsrc ipsrc hwdst ipdst opcode) s = Some (r, s\<lparr>arp_board := b\<rparr>) \<and>
    b_netif b = b_netif (arp_board s) \<and> arp_ok E M (s\<lparr>arp_board := b\<rparr>) \<and> kept M (arp_net s) (b_net b)"
proof -
  obtain C where C: "owned E (b_net (arp_board s)) (table_refs C (arp_table s) + M)" using ok by (auto simp: arp_ok_def arp_net_def)
  from etharp_raw_returns [OF C arp_ok_link(1) [OF ok] mac, of ethsrc ethdst ipsrc ipdst opcode]
  obtain r b where "etharp_raw E ethsrc ethdst hwsrc ipsrc hwdst ipdst opcode (arp_board s) = Some (r, b)"
    "b_netif b = b_netif (arp_board s)" "owned E (b_net b) (table_refs C (arp_table s) + M)"
    and same: "\<forall>q ys. (q, ys) \<in># table_refs C (arp_table s) + M \<longrightarrow> (\<forall>a \<in> set ys. pbufs (b_net b) a = pbufs (b_net (arp_board s)) a)" by blast
  moreover have "kept M (arp_net s) (b_net b)" unfolding kept_def
  proof (intro allI impI conjI ballI)
    fix q ys assume q: "(q, ys) \<in># M"
    have id: "\<exists>c. b = b\<lparr>pb_ref := c\<rparr>" for b :: pbuf by (rule exI [of _ "pb_ref b"]) simp
    show "\<exists>c. pbufs (b_net b) a = (pbufs (arp_net s) a)\<lparr>pb_ref := c\<rparr>" if "a \<in> set ys" for a
      using same q that id by (auto simp: arp_net_def)
    assume "q \<noteq> 0"
    moreover have "chain_ok E (b_net (arp_board s)) q ys" using ownedD(3) [OF C] q by simp
    ultimately have "q \<in> set ys" by (cases ys) (auto simp: chain_ok_def)
    then show "pb_ref (pbufs (b_net b) q) \<le> pb_ref (pbufs (arp_net s) q)" using same q by (auto simp: arp_net_def)
  qed
  ultimately show ?thesis using ok by (auto simp: on_board_def arp_ok_def arp_nif_def)
qed

lemma on_board_request:
  assumes "arp_ok E M s"
  shows "\<exists>r b. on_board (etharp_request_dst E ip dst) s = Some (r, s\<lparr>arp_board := b\<rparr>) \<and>
    b_netif b = b_netif (arp_board s) \<and> arp_ok E M (s\<lparr>arp_board := b\<rparr>) \<and> kept M (arp_net s) (b_net b)"
    "\<exists>r b. on_board (etharp_request E ip) s = Some (r, s\<lparr>arp_board := b\<rparr>) \<and>
    b_netif b = b_netif (arp_board s) \<and> arp_ok E M (s\<lparr>arp_board := b\<rparr>) \<and> kept M (arp_net s) (b_net b)"
proof -
  have l: "length (hwaddr (b_netif (arp_board s))) = 6" "length ethzero = 6"
    using arp_ok_link(2) [OF assms] by (simp_all add: arp_nif_def ethzero_def)
  have eq: "on_board (etharp_request_dst E ip d) s = on_board (etharp_raw E (hwaddr (b_netif (arp_board s))) d
    (hwaddr (b_netif (arp_board s))) (ip_addr (b_netif (arp_board s))) ethzero ip ARP_REQUEST) s" for d
    by (simp add: on_board_def etharp_request_dst_def)
  show "\<exists>r b. on_board (etharp_request_dst E ip dst) s = Some (r, s\<lparr>arp_board := b\<rparr>) \<and>
    b_netif b = b_netif (arp_board s) \<and> arp_ok E M (s\<lparr>arp_board := b\<rparr>) \<and> kept M (arp_net s) (b_net b)"
    unfolding eq by (rule on_board_raw [OF assms l])
  show "\<exists>r b. on_board (etharp_request E ip) s = Some (r, s\<lparr>arp_board := b\<rparr>) \<and>
    b_netif b = b_netif (arp_board s) \<and> arp_ok E M (s\<lparr>arp_board := b\<rparr>) \<and> kept M (arp_net s) (b_net b)"
    using on_board_raw [OF assms l, of "hwaddr (b_netif (arp_board s))" ethbroadcast "ip_addr (b_netif (arp_board s))" ip ARP_REQUEST]
    unfolding eq [symmetric] by (simp add: on_board_def etharp_request_def)
qed

text \<open>With leave to recycle, the search always ends with an entry, whose key no other entry has.\<close>

lemma find_try_hard:
  assumes ok: "arp_ok E M s"
  obtains i s1 where "etharp_find_entry E (Some ip) ETHARP_FLAG_TRY_HARD netif s = Some (Some i, s1)" "arp_ok E M s1"
    "quiet M s s1" "i < ARP_TABLE_SIZE"
    "arp_state (arp_table s1 ! i) = ETHARP_STATE_EMPTY \<Longrightarrow> arp_q (arp_table s1 ! i) = 0 \<and> arp_ctime (arp_table s1 ! i) = 0 \<and>
      arp_ipaddr (arp_table s1 ! i) = ip \<and> (\<forall>j < ARP_TABLE_SIZE. j \<noteq> i \<longrightarrow> \<not> wanted (Some ip) netif (arp_table s1 ! j))"
proof -
  let ?t = "arp_table s" and ?w = "wanted (Some ip) netif"
  have len: "length ?t = ARP_TABLE_SIZE" using ok by (simp add: arp_ok_def table_ok_def)
  have fl: "ETHARP_FLAG_TRY_HARD AND ETHARP_FLAG_FIND_ONLY = 0" "ETHARP_FLAG_TRY_HARD AND ETHARP_FLAG_TRY_HARD \<noteq> 0"
    by (simp_all add: ETHARP_FLAG_TRY_HARD_def ETHARP_FLAG_FIND_ONLY_def)
  from etharp_find_entry_spec [OF ok, of "Some ip" ETHARP_FLAG_TRY_HARD netif]
  obtain r s1 where run: "etharp_find_entry E (Some ip) ETHARP_FLAG_TRY_HARD netif s = Some (r, s1)" "arp_ok E M s1" "quiet M s s1"
    and res: "if \<exists>e \<in> set ?t. ?w e then s1 = s \<and> (\<exists>i < ARP_TABLE_SIZE. r = Some i \<and> ?w (?t ! i))
     else if ETHARP_FLAG_TRY_HARD AND ETHARP_FLAG_FIND_ONLY \<noteq> 0 \<or>
       (\<forall>e \<in> set ?t. arp_state e \<noteq> ETHARP_STATE_EMPTY) \<and> ETHARP_FLAG_TRY_HARD AND ETHARP_FLAG_TRY_HARD = 0
     then r = None \<and> s1 = s
     else \<exists>i e. r = Some i \<and> recycled ?t i \<and> arp_table s1 = ?t[i := e] \<and>
       arp_state e = ETHARP_STATE_EMPTY \<and> arp_q e = 0 \<and> arp_ctime e = 0 \<and> arp_netif e = netif \<and> length (arp_ethaddr e) = 6 \<and>
       (\<forall>a. Some ip = Some a \<longrightarrow> arp_ipaddr e = a) \<and>
       ((\<exists>e \<in> set ?t. arp_state e = ETHARP_STATE_EMPTY) \<longrightarrow> arp_board s1 = arp_board s)" by blast
  show thesis
  proof (cases "\<exists>e \<in> set ?t. ?w e")
    case True
    then have "s1 = s \<and> (\<exists>i < ARP_TABLE_SIZE. r = Some i \<and> ?w (?t ! i))" using res by (simp only: if_True)
    then obtain i where "i < ARP_TABLE_SIZE" "r = Some i" "?w (?t ! i)" "s1 = s" by blast
    then show thesis using that [of i s] run by (auto simp: wanted_def)
  next
    case False
    then obtain i e where i: "r = Some i" "recycled ?t i" "arp_table s1 = ?t[i := e]" "arp_q e = 0" "arp_ctime e = 0" "arp_ipaddr e = ip"
      using res fl by (simp only: if_False) auto
    moreover have "\<not> ?w (?t ! j)" if "j < ARP_TABLE_SIZE" for j using False len that by (metis nth_mem)
    ultimately show thesis using that [of i s1] run len by (simp add: recycled_def)
  qed
qed

section \<open>Updating\<close>

definition resolved :: "u32 \<Rightarrow> nat \<Rightarrow> u8 list \<Rightarrow> etharp_entry" where
  "resolved ip netif eth = \<lparr>arp_q = 0, arp_ipaddr = ip, arp_netif = netif, arp_ethaddr = eth, arp_ctime = 0,
    arp_state = ETHARP_STATE_STABLE\<rparr>"

definition not_unicast :: "u32 \<Rightarrow> netif \<Rightarrow> bool" where
  "not_unicast ip n \<longleftrightarrow> ip4_addr_isany_val ip \<or> ip4_addr_isbroadcast_u32 ip n \<or> ip4_addr_ismulticast ip"

lemma resolved_ok: "length eth = 6 \<Longrightarrow> entry_ok (resolved ip netif eth)"
  by (simp add: resolved_def entry_ok_def ARP_MAXAGE_def)

text \<open>A found entry becomes stable, and the packet that waited for it is sent and released.\<close>

lemma resolve_entry:
  assumes ok: "arp_ok E M s" and i: "i < ARP_TABLE_SIZE" and eth: "length eth = 6"
    and key: "arp_ipaddr (arp_table s ! i) = ip" "\<And>j. j < ARP_TABLE_SIZE \<Longrightarrow> j \<noteq> i \<Longrightarrow> \<not> same_key (resolved ip netif eth) (arp_table s ! j)"
  defines "s1 \<equiv> upd_entry i (\<lambda>e. e\<lparr>arp_state := ETHARP_STATE_STABLE, arp_netif := netif, arp_ethaddr := take ETH_HWADDR_LEN eth, arp_ctime := 0\<rparr>) s"
    and "q \<equiv> arp_q (arp_table s ! i)"
  shows "\<exists>s'. (if q \<noteq> 0 then
       (case on_board (ethernet_output q (hwaddr (arp_nif (upd_entry i (\<lambda>e. e\<lparr>arp_q := 0\<rparr>) s1))) eth ETHTYPE_IP) (upd_entry i (\<lambda>e. e\<lparr>arp_q := 0\<rparr>) s1) of
          None \<Rightarrow> None
        | Some (_, s) \<Rightarrow> map_option (Pair ERR_OK) (arp_pbuf_free E q s))
     else Some (ERR_OK, s1)) = Some (ERR_OK, s') \<and> arp_ok E M s' \<and> arp_nif s' = arp_nif s \<and>
    arp_table s' = (arp_table s)[i := resolved ip netif eth] \<and> (q = 0 \<longrightarrow> arp_board s' = arp_board s)"
proof -
  let ?t = "arp_table s" and ?e = "resolved ip netif eth"
  obtain C where C: "owned E (arp_net s) (table_refs C ?t + M)" using ok by (auto simp: arp_ok_def)
  have tk: "table_ok ?t" and l: "i < length ?t" using ok i by (simp_all add: arp_ok_def table_ok_def)
  have t': "table_ok (?t[i := ?e])" using table_ok_update [OF tk i resolved_ok [OF eth] key(2)] .
  let ?R = "table_refs C (?t[i := ?e]) + M"
  have eq: "table_refs C ?t + M = entry_refs C (?t ! i) + ?R"
  proof -
    have "entry_refs C ?e = {#}" by (simp add: entry_refs_def resolved_def)
    then show ?thesis using table_refs_update [OF l, of C ?e] by (simp add: add_ac)
  qed
  have s2: "upd_entry i (\<lambda>e. e\<lparr>arp_q := 0\<rparr>) s1 = upd_entry i (\<lambda>_. ?e) s"
  proof -
    have "(?t ! i)\<lparr>arp_state := ETHARP_STATE_STABLE, arp_netif := netif, arp_ethaddr := take ETH_HWADDR_LEN eth, arp_ctime := 0, arp_q := 0\<rparr> = ?e"
      using key(1) eth by (cases "?t ! i") (simp add: resolved_def ETH_HWADDR_LEN_def)
    then show ?thesis using l by (simp add: s1_def upd_entry_def)
  qed
  show ?thesis
  proof (cases "q = 0")
    case True
    have "(?t ! i)\<lparr>arp_state := ETHARP_STATE_STABLE, arp_netif := netif, arp_ethaddr := take ETH_HWADDR_LEN eth, arp_ctime := 0\<rparr> = ?e"
      using key(1) eth True by (cases "?t ! i") (simp add: resolved_def ETH_HWADDR_LEN_def q_def)
    then have "s1 = upd_entry i (\<lambda>_. ?e) s" by (simp add: s1_def upd_entry_def)
    moreover have "arp_ok E M (upd_entry i (\<lambda>_. ?e) s)"
      using ok t' C eq True by (auto simp: arp_ok_def entry_refs_def q_def)
    ultimately show ?thesis using True by simp
  next
    case False
    let ?s2 = "upd_entry i (\<lambda>_. ?e) s"
    have own: "owned E (b_net (arp_board ?s2)) (add_mset (q, C q) ?R)" using C eq False by (simp add: entry_refs_def q_def arp_net_def)
    obtain r b where o: "ethernet_output q (hwaddr (arp_nif ?s2)) eth ETHTYPE_IP (arp_board ?s2) = Some (r, b)"
      "b_netif b = b_netif (arp_board ?s2)" "owned E (b_net b) (add_mset (q, C q) ?R)"
      using ethernet_output_returns [of "arp_board ?s2" q "hwaddr (arp_nif ?s2)" eth ETHTYPE_IP] arp_ok_link(1) [OF ok] own by auto
    from owned_free [OF o(3)] obtain c n where f: "pbuf_free E q (b_net b) = Some (c, n)" "owned E n ?R" by blast
    let ?s = "set_net n (?s2\<lparr>arp_board := b\<rparr>)"
    have nb: "b_netif b = arp_nif s" using o(2) by (simp add: arp_nif_def)
    have "arp_ok E M ?s" using ok t' f(2) nb by (auto simp: arp_ok_def)
    moreover have "arp_nif ?s = arp_nif s" using nb by simp
    ultimately show ?thesis unfolding s2 using False o(1) f(1)
      by (intro exI [of _ ?s]) (simp add: on_board_def arp_pbuf_free_def)
  qed
qed

lemma etharp_update_spec:
  assumes ok: "arp_ok E M s" and eth: "length eth = 6" and nif: "netif \<noteq> 0"
    and fl: "flags \<in> {ETHARP_FLAG_TRY_HARD, ETHARP_FLAG_FIND_ONLY}"
  shows "\<exists>r s'. etharp_update_arp_entry E netif ip eth flags s = Some (r, s') \<and> arp_ok E M s' \<and> arp_nif s' = arp_nif s \<and>
    (if not_unicast ip (arp_nif s) then r = ERR_ARG \<and> s' = s
     else if flags = ETHARP_FLAG_FIND_ONLY \<and> \<not> (\<exists>e \<in> set (arp_table s). wanted (Some ip) netif e) then r = ERR_MEM \<and> s' = s
     else r = ERR_OK \<and> (\<exists>i < ARP_TABLE_SIZE. arp_table s' = (arp_table s)[i := resolved ip netif eth] \<and>
       (if \<exists>e \<in> set (arp_table s). wanted (Some ip) netif e then wanted (Some ip) netif (arp_table s ! i) else recycled (arp_table s) i) \<and>
       (arp_q (arp_table s ! i) = 0 \<and> (\<exists>e \<in> set (arp_table s). wanted (Some ip) netif e \<or> arp_state e = ETHARP_STATE_EMPTY) \<longrightarrow>
         arp_board s' = arp_board s)))"
proof (cases "not_unicast ip (arp_nif s)")
  case True
  then show ?thesis using ok by (simp add: etharp_update_arp_entry_def not_unicast_def)
next
  case False
  let ?t = "arp_table s" and ?w = "wanted (Some ip) netif"
  have tk: "table_ok ?t" using ok by (simp add: arp_ok_def)
  have flags: "ETHARP_FLAG_TRY_HARD AND ETHARP_FLAG_FIND_ONLY = 0" "ETHARP_FLAG_FIND_ONLY AND ETHARP_FLAG_FIND_ONLY \<noteq> 0"
    "ETHARP_FLAG_TRY_HARD AND ETHARP_FLAG_TRY_HARD \<noteq> 0" "ETHARP_FLAG_TRY_HARD \<noteq> ETHARP_FLAG_FIND_ONLY"
    by (simp_all add: ETHARP_FLAG_TRY_HARD_def ETHARP_FLAG_FIND_ONLY_def)
  have upd: "etharp_update_arp_entry E netif ip eth flags s = (case etharp_find_entry E (Some ip) flags netif s of
       None \<Rightarrow> None
     | Some (None, s) \<Rightarrow> Some (ERR_MEM, s)
     | Some (Some i, s) \<Rightarrow>
         let s = upd_entry i (\<lambda>e. e\<lparr>arp_state := ETHARP_STATE_STABLE, arp_netif := netif, arp_ethaddr := take ETH_HWADDR_LEN eth, arp_ctime := 0\<rparr>) s;
             p = arp_q (arp_table s ! i)
         in if p \<noteq> 0 then
              let s = upd_entry i (\<lambda>e. e\<lparr>arp_q := 0\<rparr>) s
              in case on_board (ethernet_output p (hwaddr (arp_nif s)) eth ETHTYPE_IP) s of
                   None \<Rightarrow> None
                 | Some (_, s) \<Rightarrow> map_option (Pair ERR_OK) (arp_pbuf_free E p s)
            else Some (ERR_OK, s))"
    using False by (simp add: etharp_update_arp_entry_def not_unicast_def)
  from etharp_find_entry_spec [OF ok, of "Some ip" flags netif]
  obtain r s1 where run: "etharp_find_entry E (Some ip) flags netif s = Some (r, s1)" and ok1: "arp_ok E M s1" and q: "quiet M s s1"
    and res: "if \<exists>e \<in> set ?t. ?w e then s1 = s \<and> (\<exists>i < ARP_TABLE_SIZE. r = Some i \<and> ?w (?t ! i))
     else if flags AND ETHARP_FLAG_FIND_ONLY \<noteq> 0 \<or> (\<forall>e \<in> set ?t. arp_state e \<noteq> ETHARP_STATE_EMPTY) \<and> flags AND ETHARP_FLAG_TRY_HARD = 0
     then r = None \<and> s1 = s
     else \<exists>i e. r = Some i \<and> recycled ?t i \<and> arp_table s1 = ?t[i := e] \<and>
       arp_state e = ETHARP_STATE_EMPTY \<and> arp_q e = 0 \<and> arp_ctime e = 0 \<and> arp_netif e = netif \<and> length (arp_ethaddr e) = 6 \<and>
       (\<forall>a. Some ip = Some a \<longrightarrow> arp_ipaddr e = a) \<and>
       ((\<exists>e \<in> set ?t. arp_state e = ETHARP_STATE_EMPTY) \<longrightarrow> arp_board s1 = arp_board s)" by blast
  show ?thesis
  proof (cases "flags = ETHARP_FLAG_FIND_ONLY \<and> \<not> (\<exists>e \<in> set ?t. ?w e)")
    case True
    then have "r = None" "s1 = s" using res flags by auto
    then show ?thesis using upd run ok False True by simp
  next
    case found: False
    obtain i e where i: "r = Some i" "i < ARP_TABLE_SIZE" "arp_table s1 = ?t[i := e]" "arp_ipaddr e = ip"
      and how: "if \<exists>e \<in> set ?t. ?w e then ?w (?t ! i) \<and> s1 = s \<and> e = ?t ! i else recycled ?t i \<and> arp_q e = 0"
      and bd: "(\<exists>e \<in> set ?t. ?w e \<or> arp_state e = ETHARP_STATE_EMPTY) \<Longrightarrow> arp_board s1 = arp_board s"
    proof (cases "\<exists>e \<in> set ?t. ?w e")
      case True
      then obtain i where "s1 = s" "i < ARP_TABLE_SIZE" "r = Some i" "?w (?t ! i)" using res by auto
      then show thesis using that [of i "?t ! i"] True by (auto simp: wanted_def)
    next
      case ne: False
      then obtain i e where "r = Some i" "recycled ?t i" "arp_table s1 = ?t[i := e]" "arp_q e = 0" "arp_ipaddr e = ip"
        "(\<exists>e \<in> set ?t. arp_state e = ETHARP_STATE_EMPTY) \<longrightarrow> arp_board s1 = arp_board s"
        using res fl found flags by auto
      then show thesis using that [of i e] ne by (auto simp: recycled_def)
    qed
    have l: "i < length ?t" using i(2) table_ok_len [OF tk] by simp
    have ti: "arp_table s1 ! i = e" using i(3) l by simp
    have key: "\<not> same_key (resolved ip netif eth) (arp_table s1 ! j)" if j: "j < ARP_TABLE_SIZE" "j \<noteq> i" for j
    proof
      assume "same_key (resolved ip netif eth) (arp_table s1 ! j)"
      then have w: "?w (?t ! j)" using i(3) j l by (auto simp: same_key_def resolved_def wanted_def)
      then have "\<exists>e \<in> set ?t. ?w e" using j table_ok_len [OF tk] by (metis nth_mem)
      then have "?w (?t ! i)" using how by simp
      then have "same_key (?t ! i) (?t ! j)" using w nif by (auto simp: wanted_def same_key_def)
      then show False using tk i(2) j by (simp add: table_ok_def)
    qed
    have l1: "i < length (arp_table s1)" using i(3) l by simp
    have "arp_ipaddr (arp_table s1 ! i) = ip" using ti i(4) by simp
    note rs = resolve_entry [OF ok1 i(2) eth this key]
    have pq: "arp_q (arp_table (upd_entry i (\<lambda>e. e\<lparr>arp_state := ETHARP_STATE_STABLE, arp_netif := netif,
      arp_ethaddr := take ETH_HWADDR_LEN eth, arp_ctime := 0\<rparr>) s1) ! i) = arp_q (arp_table s1 ! i)" using l1 by simp
    have "\<exists>s'. etharp_update_arp_entry E netif ip eth flags s = Some (ERR_OK, s') \<and> arp_ok E M s' \<and> arp_nif s' = arp_nif s1 \<and>
      arp_table s' = (arp_table s1)[i := resolved ip netif eth] \<and> (arp_q (arp_table s1 ! i) = 0 \<longrightarrow> arp_board s' = arp_board s1)"
      unfolding upd run i(1) option.case prod.case Let_def pq by (rule rs)
    then obtain s' where s': "arp_ok E M s'" "arp_nif s' = arp_nif s1"
      "arp_table s' = (arp_table s1)[i := resolved ip netif eth]" "arp_q (arp_table s1 ! i) = 0 \<longrightarrow> arp_board s' = arp_board s1"
      and "etharp_update_arp_entry E netif ip eth flags s = Some (ERR_OK, s')" by (elim exE conjE) (rule that)
    moreover have "\<exists>i < ARP_TABLE_SIZE. arp_table s' = ?t[i := resolved ip netif eth] \<and>
       (if \<exists>e \<in> set ?t. ?w e then ?w (?t ! i) else recycled ?t i) \<and>
       (arp_q (?t ! i) = 0 \<and> (\<exists>e \<in> set ?t. ?w e \<or> arp_state e = ETHARP_STATE_EMPTY) \<longrightarrow> arp_board s' = arp_board s)"
    proof (intro exI [of _ i] conjI impI)
      show "arp_table s' = ?t[i := resolved ip netif eth]" using s'(3) i(3) by simp
      show "if \<exists>e \<in> set ?t. ?w e then ?w (?t ! i) else recycled ?t i" using how by presburger
      assume b: "arp_q (?t ! i) = 0 \<and> (\<exists>e \<in> set ?t. ?w e \<or> arp_state e = ETHARP_STATE_EMPTY)"
      then have "arp_q e = 0" using how by presburger
      then show "arp_board s' = arp_board s" using s'(4) ti bd b by simp
    qed (rule i(2))
    moreover have "arp_nif s' = arp_nif s" using s'(2) q by (simp add: quiet_def)
    ultimately show ?thesis unfolding if_not_P [OF False] if_not_P [OF found] by blast
  qed
qed

section \<open>Ageing and clean-up\<close>

lemma each_table:
  assumes step: "\<And>i s. arp_ok E M s \<Longrightarrow> i < ARP_TABLE_SIZE \<Longrightarrow> \<exists>s'. f i s = Some s' \<and> arp_ok E M s' \<and> arp_nif s' = arp_nif s \<and>
      arp_table s' = (arp_table s)[i := g (arp_table s ! i)]"
    and ok: "arp_ok E M s"
  shows "\<exists>s'. each f [0..<ARP_TABLE_SIZE] s = Some s' \<and> arp_ok E M s' \<and> arp_nif s' = arp_nif s \<and> arp_table s' = map g (arp_table s)"
proof -
  have "\<exists>s'. each f [k..<ARP_TABLE_SIZE] s = Some s' \<and> arp_ok E M s' \<and> arp_nif s' = arp_nif s \<and>
    arp_table s' = take k (arp_table s) @ map g (drop k (arp_table s))"
    if "arp_ok E M s" "k \<le> ARP_TABLE_SIZE" for k s
    using that
  proof (induction "ARP_TABLE_SIZE - k" arbitrary: k s)
    case 0
    then have "k = ARP_TABLE_SIZE" "length (arp_table s) = ARP_TABLE_SIZE" by (simp_all add: arp_ok_def table_ok_def)
    then show ?case using 0 by simp
  next
    case (Suc d)
    then have k: "k < ARP_TABLE_SIZE" and len: "length (arp_table s) = ARP_TABLE_SIZE" by (simp_all add: arp_ok_def table_ok_def)
    obtain s1 where s1: "f k s = Some s1" "arp_ok E M s1" "arp_nif s1 = arp_nif s" "arp_table s1 = (arp_table s)[k := g (arp_table s ! k)]"
      using step [OF Suc.prems(1) k] by blast
    have up: "[k..<ARP_TABLE_SIZE] = k # [Suc k..<ARP_TABLE_SIZE]" using k by (simp add: upt_conv_Cons)
    have t: "take (Suc k) (arp_table s1) = take k (arp_table s) @ [g (arp_table s ! k)]" "drop (Suc k) (arp_table s1) = drop (Suc k) (arp_table s)"
      using s1(4) k len by (simp_all add: take_Suc_conv_app_nth list_update_append)
    have d: "drop k (arp_table s) = arp_table s ! k # drop (Suc k) (arp_table s)" using k len by (simp add: Cons_nth_drop_Suc)
    have "d = ARP_TABLE_SIZE - Suc k" using Suc.hyps(2) by simp
    from Suc.hyps(1) [OF this s1(2)] k obtain s' where "each f [Suc k..<ARP_TABLE_SIZE] s1 = Some s'" "arp_ok E M s'"
      "arp_nif s' = arp_nif s1" "arp_table s' = take (Suc k) (arp_table s1) @ map g (drop (Suc k) (arp_table s1))" by auto
    then show ?case unfolding up using s1 t d by simp
  qed
  from this [OF ok, of 0] show ?thesis by simp
qed

text \<open>What one call of the timer does to an entry.\<close>

definition tick :: "etharp_entry \<Rightarrow> etharp_entry" where
  "tick e = (if arp_state e = ETHARP_STATE_EMPTY then e
     else if arp_ctime e + 1 \<ge> ARP_MAXAGE \<or> arp_state e = ETHARP_STATE_PENDING \<and> arp_ctime e + 1 \<ge> ARP_MAXPENDING then free_entry
     else e\<lparr>arp_ctime := arp_ctime e + 1,
       arp_state := (if arp_state e = ETHARP_STATE_STABLE_REREQUESTING_1 then ETHARP_STATE_STABLE_REREQUESTING_2
         else if arp_state e = ETHARP_STATE_STABLE_REREQUESTING_2 then ETHARP_STATE_STABLE else arp_state e)\<rparr>)"

lemma etharp_tmr_entry_ok:
  assumes ok: "arp_ok E M s" and i: "i < ARP_TABLE_SIZE"
  shows "\<exists>s'. etharp_tmr_entry E i s = Some s' \<and> arp_ok E M s' \<and> arp_nif s' = arp_nif s \<and>
    arp_table s' = (arp_table s)[i := tick (arp_table s ! i)]"
proof -
  let ?e = "arp_table s ! i"
  let ?s = "upd_entry i (\<lambda>e. e\<lparr>arp_ctime := u16_of (arp_ctime e + 1)\<rparr>) s"
  have tk: "table_ok (arp_table s)" and l: "i < length (arp_table s)" using ok i by (simp_all add: arp_ok_def table_ok_def)
  note ent = table_ok_entry [OF tk i]
  have ct: "u16_of (arp_ctime ?e + 1) = arp_ctime ?e + 1" using ent by (simp add: entry_ok_def ARP_MAXAGE_def)
  show ?thesis
  proof (cases "arp_state ?e = ETHARP_STATE_EMPTY")
    case True
    then show ?thesis using ok l by (simp add: etharp_tmr_entry_def tick_def)
  next
    case ne: False
    show ?thesis
    proof (cases "arp_ctime ?e + 1 \<ge> ARP_MAXAGE \<or> arp_state ?e = ETHARP_STATE_PENDING \<and> arp_ctime ?e + 1 \<ge> ARP_MAXPENDING")
      case True
      have same: "etharp_free_entry E i ?s = etharp_free_entry E i s"
        using l by (auto simp: etharp_free_entry_def arp_pbuf_free_def upd_entry_def set_net_def arp_net_def split: option.splits)
      have "etharp_tmr_entry E i s = etharp_free_entry E i s"
        using ne True ct l same by (simp add: etharp_tmr_entry_def Let_def)
      then show ?thesis using etharp_free_entry_ok [OF ok i] ne True by (auto simp: tick_def)
    next
      case False
      have keep: "arp_ok E M (upd_entry i f s)" if "arp_q (f ?e) = arp_q ?e" "entry_ok (f ?e)" "arp_ipaddr (f ?e) = arp_ipaddr ?e"
        "arp_netif (f ?e) = arp_netif ?e" for f
        using arp_ok_upd [OF ok i, of f] table_ok_keep [OF tk i, of "f ?e"] that ne by simp
      have ok1: "arp_ok E M ?s" using keep [of "\<lambda>e. e\<lparr>arp_ctime := u16_of (arp_ctime e + 1)\<rparr>"] ent False ct
        by (auto simp: entry_ok_def)
      have two: "upd_entry i (\<lambda>e. e\<lparr>arp_state := st\<rparr>) ?s = upd_entry i (\<lambda>e. e\<lparr>arp_ctime := arp_ctime e + 1, arp_state := st\<rparr>) s" for st
        using l ct by (simp add: upd_entry_def)
      have ok2: "arp_ok E M (upd_entry i (\<lambda>e. e\<lparr>arp_state := st\<rparr>) ?s)"
        if "arp_state ?e \<noteq> ETHARP_STATE_PENDING" "st \<noteq> ETHARP_STATE_PENDING" for st
        unfolding two using that ent False by (intro keep) (auto simp: entry_ok_def)
      have stay: "arp_state e = st \<Longrightarrow> e\<lparr>arp_ctime := c, arp_state := st\<rparr> = e\<lparr>arp_ctime := c\<rparr>" for e st c
        by (cases e) simp
      consider (r1) "arp_state ?e = ETHARP_STATE_STABLE_REREQUESTING_1" | (r2) "arp_state ?e = ETHARP_STATE_STABLE_REREQUESTING_2"
        | (p) "arp_state ?e = ETHARP_STATE_PENDING" | (st) "arp_state ?e = ETHARP_STATE_STABLE"
        using ne by (cases "arp_state ?e") auto
      then show ?thesis
      proof cases
        case p
        obtain r b where "on_board (etharp_request E (arp_ipaddr ?e)) ?s = Some (r, ?s\<lparr>arp_board := b\<rparr>)"
          "b_netif b = b_netif (arp_board ?s)" "arp_ok E M (?s\<lparr>arp_board := b\<rparr>)" using on_board_request(2) [OF ok1] by blast
        then show ?thesis using p False ct l by (auto simp: etharp_tmr_entry_def tick_def Let_def arp_nif_def stay)
      next
        case st
        then show ?thesis using False ct l ok1 by (auto simp: etharp_tmr_entry_def tick_def Let_def stay)
      next
        case r1
        then show ?thesis using False ct l ok2 [simplified] by (auto simp: etharp_tmr_entry_def tick_def Let_def)
      next
        case r2
        then show ?thesis using False ct l ok2 [simplified] by (auto simp: etharp_tmr_entry_def tick_def Let_def)
      qed
    qed
  qed
qed

lemma etharp_tmr_table:
  assumes "arp_ok E M s"
  shows "\<exists>s'. etharp_tmr E s = Some s' \<and> arp_ok E M s' \<and> arp_nif s' = arp_nif s \<and> arp_table s' = map tick (arp_table s)"
  unfolding etharp_tmr_def using etharp_tmr_entry_ok by (rule each_table [OF _ assms])

lemma etharp_cleanup_table:
  assumes "arp_ok E M s"
  shows "\<exists>s'. etharp_cleanup_netif E netif s = Some s' \<and> arp_ok E M s' \<and> arp_nif s' = arp_nif s \<and>
    arp_table s' = map (\<lambda>e. if arp_state e \<noteq> ETHARP_STATE_EMPTY \<and> arp_netif e = netif then free_entry else e) (arp_table s)"
  unfolding etharp_cleanup_netif_def
proof (rule each_table [OF _ assms])
  fix i s assume ok: "arp_ok E M s" and i: "i < ARP_TABLE_SIZE"
  then have "i < length (arp_table s)" by (simp add: arp_ok_def table_ok_def)
  then show "\<exists>s'. (if arp_state (arp_table s ! i) \<noteq> ETHARP_STATE_EMPTY \<and> arp_netif (arp_table s ! i) = netif then etharp_free_entry E i s else Some s) =
      Some s' \<and> arp_ok E M s' \<and> arp_nif s' = arp_nif s \<and>
    arp_table s' = (arp_table s)[i := if arp_state (arp_table s ! i) \<noteq> ETHARP_STATE_EMPTY \<and> arp_netif (arp_table s ! i) = netif then free_entry else arp_table s ! i]"
    using etharp_free_entry_ok [OF ok i] ok by auto
qed

section \<open>Output\<close>

lemma no_copy_needed:
  "pchain n p xs \<Longrightarrow> \<forall>a \<in> set xs. \<not> PBUF_NEEDS_COPY (pbufs n a) \<Longrightarrow> copy_needed_loop n p = Some False"
proof (induction xs arbitrary: p)
  case Nil
  then show ?case by (subst copy_needed_loop.simps) simp
next
  case (Cons x xs)
  then have "copy_needed_loop n (pb_next (pbufs n p)) = Some False" by auto
  then show ?case using Cons.prems by (subst copy_needed_loop.simps) simp
qed

text \<open>The chain behind a head that another reference names is that one's.\<close>

lemma table_refs_chain:
  assumes own: "owned E n (table_refs C t + add_mset (q, xs) M)"
  shows "table_refs (C(q := xs)) t = table_refs C t"
proof -
  have "entry_refs (C(q := xs)) e = entry_refs C e" if e: "e \<in> set t" for e
  proof (cases "arp_q e = q \<and> q \<noteq> 0")
    case True
    then have "(q, C q) \<in># table_refs C t" using e by (induction t) (auto simp: table_refs_def entry_refs_def)
    then have "chain_ok E n q (C q)" "chain_ok E n q xs" using ownedD(3) [OF own] by auto
    then have "C q = xs" using pchain_unique by (auto simp: chain_ok_def)
    then have "C(q := xs) = C" by (simp add: fun_upd_idem)
    then show ?thesis by simp
  next
    case False
    then show ?thesis by (auto simp: entry_refs_def)
  qed
  then show ?thesis by (simp add: table_refs_def cong: map_cong)
qed

lemma query_queue_ok:
  assumes ok: "arp_ok E (add_mset (q, xs) M) s" and q: "q \<noteq> 0" and i: "i < ARP_TABLE_SIZE"
    and st: "arp_state (arp_table s ! i) = ETHARP_STATE_PENDING"
    and vol: "\<forall>a \<in> set xs. \<not> PBUF_NEEDS_COPY (pbufs (arp_net s) a)" and ref: "pb_ref (pbufs (arp_net s) q) \<noteq> 255"
  shows "\<exists>s'. query_queue E i q s = Some (ERR_OK, s') \<and> arp_ok E (add_mset (q, xs) M) s' \<and> arp_nif s' = arp_nif s \<and>
    arp_table s' = (arp_table s)[i := (arp_table s ! i)\<lparr>arp_q := q\<rparr>]"
proof -
  let ?t = "arp_table s" and ?e = "arp_table s ! i" and ?M = "add_mset (q, xs) M" and ?n = "pbuf_ref q (arp_net s)"
  let ?f = "?e\<lparr>arp_q := q\<rparr>"
  have tk: "table_ok ?t" and l: "i < length ?t" using ok i by (simp_all add: arp_ok_def table_ok_def)
  have t': "table_ok (?t[i := ?f])"
    using table_ok_keep [OF tk i, of ?f] table_ok_entry [OF tk i] st by (simp add: entry_ok_def)
  obtain C0 where "owned E (arp_net s) (table_refs C0 ?t + ?M)" using ok by (auto simp: arp_ok_def)
  then obtain C where C: "owned E (arp_net s) (table_refs C ?t + ?M)" "C q = xs"
    using table_refs_chain by (metis fun_upd_same)
  then have ch: "pchain (arp_net s) q xs" using ownedD(3) [OF C(1), of q xs] by (simp add: chain_ok_def)
  have "owned E ?n (add_mset (q, xs) (add_mset (q, xs) (table_refs C ?t + M)))"
    using owned_ref [of E "arp_net s" q xs "table_refs C ?t + M"] C(1) q ref by simp
  moreover have "add_mset (q, xs) (table_refs C ?t) = entry_refs C ?e + table_refs C (?t[i := ?f])"
    using table_refs_update [OF l, of C ?f] q C(2) by (simp add: entry_refs_def [of C ?f] add_ac)
  moreover have "add_mset (q, xs) (add_mset (q, xs) (table_refs C ?t + M)) = add_mset (q, xs) (table_refs C ?t) + ?M" by simp
  ultimately have own: "owned E ?n (entry_refs C ?e + (table_refs C (?t[i := ?f]) + ?M))" by (simp only: add.assoc)
  have "\<exists>n. (if arp_q ?e \<noteq> 0 then arp_pbuf_free E (arp_q ?e) (set_net ?n s) else Some (set_net ?n s)) = Some (set_net n s) \<and>
    owned E n (table_refs C (?t[i := ?f]) + ?M)"
  proof (cases "arp_q ?e = 0")
    case True
    then show ?thesis using own by (intro exI [of _ ?n]) (simp add: entry_refs_def)
  next
    case False
    then have "owned E ?n (add_mset (arp_q ?e, C (arp_q ?e)) (table_refs C (?t[i := ?f]) + ?M))"
      using own by (simp add: entry_refs_def add_mset_commute)
    from owned_free [OF this] obtain r n where "pbuf_free E (arp_q ?e) ?n = Some (r, n)" "owned E n (table_refs C (?t[i := ?f]) + ?M)" by blast
    then show ?thesis using False by (intro exI [of _ n]) (simp add: arp_pbuf_free_def set_net_def)
  qed
  then obtain n where n: "(if arp_q ?e \<noteq> 0 then arp_pbuf_free E (arp_q ?e) (set_net ?n s) else Some (set_net ?n s)) = Some (set_net n s)"
    "owned E n (table_refs C (?t[i := ?f]) + ?M)" by blast
  have "query_queue E i q s = Some (ERR_OK, upd_entry i (\<lambda>e. e\<lparr>arp_q := q\<rparr>) (set_net n s))"
    using no_copy_needed [OF ch vol] q n(1) by (auto simp: query_queue_def Let_def split: if_splits)
  then show ?thesis using ok t' n(2) by (auto simp: arp_ok_def)
qed

text \<open>
  A packet that can be queued: one reference to it is in \<open>M\<close>, none of its data is volatile, and its
  reference count can still be raised.
\<close>

definition sendable :: "(nat \<times> nat list) multiset \<Rightarrow> nat \<Rightarrow> net \<Rightarrow> bool" where
  "sendable M q n \<longleftrightarrow> (\<exists>xs. (q, xs) \<in># M \<and> (\<forall>a \<in> set xs. \<not> PBUF_NEEDS_COPY (pbufs n a)) \<and> pb_ref (pbufs n q) < 255)"

lemma sendable_kept: "sendable M q n \<Longrightarrow> kept M n n' \<Longrightarrow> q \<noteq> 0 \<Longrightarrow> sendable M q n'"
  unfolding sendable_def kept_def PBUF_NEEDS_COPY_def by (fastforce intro: le_less_trans)

lemma arp_ok_cached: "arp_ok E M s \<Longrightarrow> i < ARP_TABLE_SIZE \<Longrightarrow> arp_ok E M (s\<lparr>etharp_cached_entry := i\<rparr>)"
  by (simp add: arp_ok_def arp_net_def arp_nif_def)

lemma make_pending:
  assumes ok: "arp_ok E M s" and i: "i < ARP_TABLE_SIZE"
    and e: "arp_q (arp_table s ! i) = 0 \<and> arp_ctime (arp_table s ! i) = 0 \<and> arp_ipaddr (arp_table s ! i) = ip \<and>
      (\<forall>j < ARP_TABLE_SIZE. j \<noteq> i \<longrightarrow> \<not> wanted (Some ip) netif (arp_table s ! j))"
  shows "arp_ok E M (upd_entry i (\<lambda>e. e\<lparr>arp_state := ETHARP_STATE_PENDING, arp_netif := netif\<rparr>) s)"
proof -
  let ?f = "(arp_table s ! i)\<lparr>arp_state := ETHARP_STATE_PENDING, arp_netif := netif\<rparr>"
  have tk: "table_ok (arp_table s)" using ok by (simp add: arp_ok_def)
  have "entry_ok ?f" using table_ok_entry [OF tk i] e by (simp add: entry_ok_def ARP_MAXPENDING_def)
  moreover have "\<not> same_key ?f (arp_table s ! j)" if "j < ARP_TABLE_SIZE" "j \<noteq> i" for j
    using e that by (auto simp: same_key_def wanted_def)
  ultimately show ?thesis using arp_ok_upd [OF ok i] table_ok_update [OF tk i, of ?f] by simp
qed

text \<open>The request of \<open>etharp_query\<close> for a new entry, or when no packet is given.\<close>

lemma query_request:
  assumes ok: "arp_ok E M s" and i: "i < ARP_TABLE_SIZE" and ne: "arp_state (arp_table s ! i) \<noteq> ETHARP_STATE_EMPTY"
  shows "\<exists>r s'. map_option (\<lambda>(result, s). (result, if result = ERR_OK \<and> arp_state (arp_table s ! i) = ETHARP_STATE_PENDING \<and> \<not> new
        then upd_entry i (\<lambda>e. e\<lparr>arp_ctime := 0\<rparr>) s else s)) (on_board (etharp_request E ip) s) = Some (r, s') \<and>
    arp_ok E M s' \<and> arp_nif s' = arp_nif s \<and> kept M (arp_net s) (arp_net s')"
proof -
  obtain r b where rq: "on_board (etharp_request E ip) s = Some (r, s\<lparr>arp_board := b\<rparr>)" "b_netif b = b_netif (arp_board s)"
    "arp_ok E M (s\<lparr>arp_board := b\<rparr>)" "kept M (arp_net s) (b_net b)" using on_board_request(2) [OF ok] by blast
  let ?s = "s\<lparr>arp_board := b\<rparr>" and ?f = "(arp_table s ! i)\<lparr>arp_ctime := 0\<rparr>"
  have tk: "table_ok (arp_table s)" using ok by (simp add: arp_ok_def)
  have "table_ok ((arp_table s)[i := ?f])"
    using table_ok_keep [OF tk i, of ?f] table_ok_entry [OF tk i] ne by (simp add: entry_ok_def ARP_MAXAGE_def ARP_MAXPENDING_def)
  then have "arp_ok E M (upd_entry i (\<lambda>e. e\<lparr>arp_ctime := 0\<rparr>) ?s)" using arp_ok_upd [OF rq(3) i] by simp
  then show ?thesis using rq by (simp add: arp_nif_def)
qed

lemma etharp_query_ok:
  assumes ok: "arp_ok E M s" and nif: "netif \<noteq> 0" and pk: "q \<noteq> 0 \<longrightarrow> sendable M q (arp_net s)"
  shows "\<exists>r s'. etharp_query E netif ip q s = Some (r, s') \<and> arp_ok E M s' \<and> arp_nif s' = arp_nif s"
proof (cases "not_unicast ip (arp_nif s)")
  case True
  then show ?thesis using ok by (auto simp: etharp_query_def not_unicast_def)
next
  case False
  obtain i s1 where run: "etharp_find_entry E (Some ip) ETHARP_FLAG_TRY_HARD netif s = Some (Some i, s1)" and ok1: "arp_ok E M s1"
    and q1: "quiet M s s1" and i: "i < ARP_TABLE_SIZE"
    and e: "arp_state (arp_table s1 ! i) = ETHARP_STATE_EMPTY \<Longrightarrow> arp_q (arp_table s1 ! i) = 0 \<and> arp_ctime (arp_table s1 ! i) = 0 \<and>
      arp_ipaddr (arp_table s1 ! i) = ip \<and> (\<forall>j < ARP_TABLE_SIZE. j \<noteq> i \<longrightarrow> \<not> wanted (Some ip) netif (arp_table s1 ! j))"
    using find_try_hard [OF ok, of ip netif] by blast
  have l: "i < length (arp_table s1)" using ok1 i by (simp add: arp_ok_def table_ok_def)
  define new where "new \<longleftrightarrow> arp_state (arp_table s1 ! i) = ETHARP_STATE_EMPTY"
  define s2 where "s2 = (if new then upd_entry i (\<lambda>e. e\<lparr>arp_state := ETHARP_STATE_PENDING, arp_netif := netif\<rparr>) s1 else s1)"
  define rq where "rq = (if new \<or> q = 0 then map_option (\<lambda>(result, s).
      (result, if result = ERR_OK \<and> arp_state (arp_table s ! i) = ETHARP_STATE_PENDING \<and> \<not> new
        then upd_entry i (\<lambda>e. e\<lparr>arp_ctime := 0\<rparr>) s else s)) (on_board (etharp_request E ip) s2) else Some (ERR_MEM, s2))"
  have ok2: "arp_ok E M s2" using ok1 make_pending [OF ok1 i e] by (simp add: s2_def new_def)
  have n2: "arp_net s2 = arp_net s1" "arp_nif s2 = arp_nif s" using q1 by (simp_all add: s2_def quiet_def)
  have k1: "kept M (arp_net s) (arp_net s1)" using q1 by (simp add: quiet_def)
  have ne: "arp_state (arp_table s2 ! i) \<noteq> ETHARP_STATE_EMPTY" using l by (simp add: s2_def new_def)
  have "\<exists>r s3. rq = Some (r, s3) \<and> arp_ok E M s3 \<and> arp_nif s3 = arp_nif s \<and> kept M (arp_net s) (arp_net s3)"
    using query_request [OF ok2 i ne, of new ip] ok2 n2 k1 kept_trans unfolding rq_def by (metis (no_types, lifting))
  then obtain r s3 where s3: "rq = Some (r, s3)" "arp_ok E M s3" "arp_nif s3 = arp_nif s" "kept M (arp_net s) (arp_net s3)" by blast
  have eq: "etharp_query E netif ip q s = (if q = 0 then Some (r, s3)
     else if arp_state (arp_table s3 ! i) \<ge> ETHARP_STATE_STABLE then
       on_board (ethernet_output q (hwaddr (arp_nif s)) (arp_ethaddr (arp_table s3 ! i)) ETHTYPE_IP) (s3\<lparr>etharp_cached_entry := i\<rparr>)
     else if arp_state (arp_table s3 ! i) = ETHARP_STATE_PENDING then query_queue E i q s3
     else Some (r, s3))"
    using False run s3(1) unfolding rq_def s2_def new_def etharp_query_def not_unicast_def Let_def by auto
  show ?thesis
  proof (cases "q = 0")
    case True
    then show ?thesis using eq s3 by simp
  next
    case q: False
    then obtain xs where xs: "(q, xs) \<in># M" "\<forall>a \<in> set xs. \<not> PBUF_NEEDS_COPY (pbufs (arp_net s3) a)" "pb_ref (pbufs (arp_net s3) q) \<noteq> 255"
      using sendable_kept [OF _ s3(4), of q] pk by (auto simp: sendable_def)
    obtain N where M: "M = add_mset (q, xs) N" using xs(1) by (metis insert_DiffM)
    obtain r1 b where o: "on_board (ethernet_output q (hwaddr (arp_nif s)) (arp_ethaddr (arp_table s3 ! i)) ETHTYPE_IP) (s3\<lparr>etharp_cached_entry := i\<rparr>) =
        Some (r1, s3\<lparr>etharp_cached_entry := i, arp_board := b\<rparr>)" "b_netif b = b_netif (arp_board s3)"
        "arp_ok E M (s3\<lparr>etharp_cached_entry := i, arp_board := b\<rparr>)"
      using on_board_output [OF arp_ok_cached [OF s3(2) i], of q "hwaddr (arp_nif s)" "arp_ethaddr (arp_table s3 ! i)" ETHTYPE_IP] by auto
    show ?thesis
    proof (cases "arp_state (arp_table s3 ! i) = ETHARP_STATE_PENDING")
      case True
      then have "\<not> arp_state (arp_table s3 ! i) \<ge> ETHARP_STATE_STABLE" by (simp add: less_eq_etharp_state_def)
      then show ?thesis using eq q True query_queue_ok [OF s3(2) [unfolded M] q i True xs(2,3)] s3(3) M by auto
    next
      case False
      then show ?thesis using eq q o s3 by (auto simp: arp_nif_def)
    qed
  qed
qed

lemma output_to_index_ok:
  assumes ok: "arp_ok E M s" and i: "i < ARP_TABLE_SIZE"
  shows "\<exists>r s'. etharp_output_to_arp_index E q i s = Some (r, s') \<and> arp_ok E M s' \<and> arp_nif s' = arp_nif s"
proof -
  let ?e = "arp_table s ! i"
  let ?rr = "\<lambda>r. map_option (\<lambda>(err, s). if err = ERR_OK then upd_entry i (\<lambda>e. e\<lparr>arp_state := ETHARP_STATE_STABLE_REREQUESTING_1\<rparr>) s else s) r"
  have tk: "table_ok (arp_table s)" using ok by (simp add: arp_ok_def)
  have rr: "\<exists>s'. ?rr (Some (r, s\<lparr>arp_board := b\<rparr>)) = Some s' \<and> arp_ok E M s' \<and> arp_nif s' = arp_nif s"
    if st: "arp_state ?e = ETHARP_STATE_STABLE" and b: "b_netif b = b_netif (arp_board s)" "arp_ok E M (s\<lparr>arp_board := b\<rparr>)" for r b
  proof -
    let ?f = "?e\<lparr>arp_state := ETHARP_STATE_STABLE_REREQUESTING_1\<rparr>"
    have "table_ok ((arp_table s)[i := ?f])" using table_ok_keep [OF tk i, of ?f] table_ok_entry [OF tk i] st by (simp add: entry_ok_def)
    then have "arp_ok E M (upd_entry i (\<lambda>e. e\<lparr>arp_state := ETHARP_STATE_STABLE_REREQUESTING_1\<rparr>) (s\<lparr>arp_board := b\<rparr>))"
      using arp_ok_upd [OF b(2) i] by simp
    then show ?thesis using b by (simp add: arp_nif_def)
  qed
  define rq where "rq = (if arp_state ?e = ETHARP_STATE_STABLE then
      if arp_ctime ?e \<ge> ARP_AGE_REREQUEST_USED_BROADCAST then ?rr (on_board (etharp_request E (arp_ipaddr ?e)) s)
      else if arp_ctime ?e \<ge> ARP_AGE_REREQUEST_USED_UNICAST
      then ?rr (on_board (etharp_request_dst E (arp_ipaddr ?e) (arp_ethaddr ?e)) s) else Some s
    else Some s)"
  have "\<exists>s1. rq = Some s1 \<and> arp_ok E M s1 \<and> arp_nif s1 = arp_nif s"
  proof (cases "arp_state ?e = ETHARP_STATE_STABLE")
    case True
    obtain r b where "on_board (etharp_request E (arp_ipaddr ?e)) s = Some (r, s\<lparr>arp_board := b\<rparr>)"
      "b_netif b = b_netif (arp_board s)" "arp_ok E M (s\<lparr>arp_board := b\<rparr>)" using on_board_request(2) [OF ok] by blast
    moreover obtain r' b' where "on_board (etharp_request_dst E (arp_ipaddr ?e) (arp_ethaddr ?e)) s = Some (r', s\<lparr>arp_board := b'\<rparr>)"
      "b_netif b' = b_netif (arp_board s)" "arp_ok E M (s\<lparr>arp_board := b'\<rparr>)" using on_board_request(1) [OF ok] by blast
    ultimately show ?thesis using rr [OF True, of b r] rr [OF True, of b' r'] ok by (simp add: rq_def)
  qed (simp add: rq_def ok)
  then obtain s1 where s1: "rq = Some s1" "arp_ok E M s1" "arp_nif s1 = arp_nif s" by blast
  obtain r b where "on_board (ethernet_output q (hwaddr (arp_nif s1)) (arp_ethaddr (arp_table s1 ! i)) ETHTYPE_IP) s1 = Some (r, s1\<lparr>arp_board := b\<rparr>)"
    "b_netif b = b_netif (arp_board s1)" "arp_ok E M (s1\<lparr>arp_board := b\<rparr>)" using on_board_output [OF s1(2)] by blast
  then show ?thesis using s1 unfolding etharp_output_to_arp_index_def Let_def rq_def [symmetric] by (simp add: arp_nif_def)
qed

lemma etharp_output_ok:
  assumes ok: "arp_ok E M s" and nif: "netif \<noteq> 0" and q: "q \<noteq> 0" "sendable M q (arp_net s)"
  shows "\<exists>r s'. etharp_output E netif q ip s = Some (r, s') \<and> arp_ok E M s' \<and> arp_nif s' = arp_nif s"
proof -
  have out: "\<exists>r s'. on_board (ethernet_output q src dst ETHTYPE_IP) s = Some (r, s') \<and> arp_ok E M s' \<and> arp_nif s' = arp_nif s" for src dst
    using on_board_output [OF ok, of q src dst ETHTYPE_IP] by (auto simp: arp_nif_def)
  have qry: "\<exists>r s'. etharp_query E netif a q s = Some (r, s') \<and> arp_ok E M s' \<and> arp_nif s' = arp_nif s" for a
    using etharp_query_ok [OF ok nif] q by blast
  have c: "etharp_cached_entry s < ARP_TABLE_SIZE" using ok by (simp add: arp_ok_def)
  have idx: "\<exists>r s'. etharp_output_to_arp_index E q i (s\<lparr>etharp_cached_entry := i\<rparr>) = Some (r, s') \<and> arp_ok E M s' \<and> arp_nif s' = arp_nif s"
    if "i < ARP_TABLE_SIZE" for i
    using output_to_index_ok [OF arp_ok_cached [OF ok that] that] by (simp add: arp_nif_def)
  have "\<exists>r s'. (if usable netif a (arp_table s ! etharp_cached_entry s) then etharp_output_to_arp_index E q (etharp_cached_entry s) s
      else case find (\<lambda>i. usable netif a (arp_table s ! i)) [0..<ARP_TABLE_SIZE] of
            Some i \<Rightarrow> etharp_output_to_arp_index E q i (s\<lparr>etharp_cached_entry := i\<rparr>)
          | None \<Rightarrow> etharp_query E netif a q s) = Some (r, s') \<and> arp_ok E M s' \<and> arp_nif s' = arp_nif s" for a
  proof (cases "find (\<lambda>i. usable netif a (arp_table s ! i)) [0..<ARP_TABLE_SIZE]")
    case None
    then show ?thesis using output_to_index_ok [OF ok c] qry by simp
  next
    case (Some i)
    then have "i < ARP_TABLE_SIZE" by (auto simp: find_Some_iff)
    then show ?thesis using Some output_to_index_ok [OF ok c] idx by simp
  qed
  then show ?thesis using out ok unfolding etharp_output_def Let_def by simp
qed

section \<open>Input\<close>

lemma arp_pbuf_free_ok:
  assumes ok: "arp_ok E (add_mset (p, xs) M) s"
  shows "\<exists>s'. arp_pbuf_free E p s = Some s' \<and> arp_ok E M s' \<and> arp_nif s' = arp_nif s \<and> arp_table s' = arp_table s \<and>
    b_emac (arp_board s') = b_emac (arp_board s)"
proof -
  obtain C where "owned E (arp_net s) (add_mset (p, xs) (table_refs C (arp_table s) + M))" using ok by (auto simp: arp_ok_def)
  from owned_free [OF this] obtain r n where "pbuf_free E p (arp_net s) = Some (r, n)" "owned E n (table_refs C (arp_table s) + M)" by blast
  then show ?thesis using ok by (auto simp: arp_pbuf_free_def arp_ok_def)
qed

lemma etharp_input_ok:
  assumes ok: "arp_ok E (add_mset (p, xs) M) s" and nif: "netif \<noteq> 0"
    and dhcp: "\<And>ip s. arp_ok E (add_mset (p, xs) M) s \<Longrightarrow> arp_ok E (add_mset (p, xs) M) (dhcp_arp_reply ip s)"
  shows "\<exists>s'. etharp_input E dhcp_arp_reply netif p s = Some s' \<and> arp_ok E M s'"
proof -
  let ?M = "add_mset (p, xs) M"
  let ?hdr = "pb_payload (pbufs (arp_net s) p)" and ?m = "mem_bytes (arp_net s)"
  have fin: "\<exists>s'. arp_pbuf_free E p t = Some s' \<and> arp_ok E M s'" if "arp_ok E ?M t" for t using arp_pbuf_free_ok [OF that] by blast
  show ?thesis
  proof (cases "ld16 ?m ?hdr \<noteq> PP_HTONS LWIP_IANA_HWTYPE_ETHERNET \<or> ?m (?hdr + 4) \<noteq> of_nat ETH_HWADDR_LEN \<or>
      ?m (?hdr + 5) \<noteq> 4 \<or> ld16 ?m (?hdr + 2) \<noteq> PP_HTONS ETHTYPE_IP")
    case True
    then show ?thesis using fin [OF ok] by (simp add: etharp_input_def Let_def)
  next
    case False
    define us where "us = (if ip4_addr_isany_val (ip_addr (arp_nif s)) then False else ld_ip ?m (?hdr + 24) = ip_addr (arp_nif s))"
    have "(if us then ETHARP_FLAG_TRY_HARD else ETHARP_FLAG_FIND_ONLY) \<in> {ETHARP_FLAG_TRY_HARD, ETHARP_FLAG_FIND_ONLY}" by simp
    from etharp_update_spec [OF ok _ nif this, of "get_bytes ?m (?hdr + 8) 6" "ld_ip ?m (?hdr + 14)"]
    obtain r s1 where s1: "etharp_update_arp_entry E netif (ld_ip ?m (?hdr + 14)) (get_bytes ?m (?hdr + 8) 6)
      (if us then ETHARP_FLAG_TRY_HARD else ETHARP_FLAG_FIND_ONLY) s = Some (r, s1)" "arp_ok E ?M s1" by auto
    have raw: "\<exists>s2. map_option snd (on_board (etharp_raw E a b (hwaddr (arp_nif s1)) c (get_bytes m x 6) d e) s1) = Some s2 \<and> arp_ok E ?M s2" for a b c m x d e
      using on_board_raw [OF s1(2) arp_ok_link(2) [OF s1(2)], of "get_bytes m x 6"] by fastforce
    let ?op = "ld16 (mem_bytes (arp_net s1)) (?hdr + 6)" and ?sh = "get_bytes (mem_bytes (arp_net s1)) (?hdr + 8) 6"
    let ?act = "if ?op = PP_HTONS ARP_REQUEST then
        if us then map_option snd (on_board (etharp_raw E (hwaddr (arp_nif s1)) ?sh (hwaddr (arp_nif s1))
               (ip_addr (arp_nif s1)) ?sh (ld_ip ?m (?hdr + 14)) ARP_REPLY) s1) else Some s1
      else if ?op = PP_HTONS ARP_REPLY then Some (dhcp_arp_reply (ld_ip ?m (?hdr + 14)) s1) else Some s1"
    have "\<exists>s2. ?act = Some s2 \<and> arp_ok E ?M s2" using raw dhcp [OF s1(2)] s1(2) by simp
    then obtain s2 where s2: "?act = Some s2" "arp_ok E ?M s2" by blast
    have "etharp_input E dhcp_arp_reply netif p s = arp_pbuf_free E p s2"
      using False s1(1) s2(1) unfolding etharp_input_def Let_def us_def by simp
    then show ?thesis using fin [OF s2(2)] by simp
  qed
qed

lemma arp_ok_net:
  assumes "arp_ok E M s" "mem_pools n = mem_pools (arp_net s)" "mem_heap n = mem_heap (arp_net s)"
    and "\<And>a. pb_next (pbufs n a) = pb_next (pbufs (arp_net s) a) \<and> pb_type_internal (pbufs n a) = pb_type_internal (pbufs (arp_net s) a) \<and>
      pb_ref (pbufs n a) = pb_ref (pbufs (arp_net s) a) \<and>
      (pb_flags (pbufs n a) AND PBUF_FLAG_IS_CUSTOM) = (pb_flags (pbufs (arp_net s) a) AND PBUF_FLAG_IS_CUSTOM)"
  shows "arp_ok E M (set_net n s)"
  using assms owned_cong [OF _ assms(2-4)] by (auto simp: arp_ok_def)

text \<open>\<open>ethernet_input\<close> hands the packet to one of the layers above, which consumes it, or releases it.\<close>

lemma ethernet_input_ok:
  assumes ok: "arp_ok E (add_mset (p, xs) M) s" and nif: "netif \<noteq> 0"
    and dhcp: "\<And>ip s. arp_ok E (add_mset (p, xs) M) s \<Longrightarrow> arp_ok E (add_mset (p, xs) M) (dhcp_arp_reply ip s)"
    and ip: "\<And>s. arp_ok E (add_mset (p, xs) M) s \<Longrightarrow> arp_ok E M (ip4_input p s)"
  shows "\<exists>s'. ethernet_input E dhcp_arp_reply ip4_input netif p s = Some (ERR_OK, s') \<and> arp_ok E M s'"
proof -
  let ?M = "add_mset (p, xs) M"
  have free: "\<exists>s'. map_option (Pair ERR_OK) (arp_pbuf_free E p t) = Some (ERR_OK, s') \<and> arp_ok E M s'" if "arp_ok E ?M t" for t
    using arp_pbuf_free_ok [OF that] by auto
  define n1 where "n1 = (if pb_if_idx (pbufs (arp_net s) p) = NETIF_NO_INDEX
    then pb_upd p (\<lambda>b. b\<lparr>pb_if_idx := of_nat (nif_num (arp_nif s) + 1)\<rparr>) (arp_net s) else arp_net s)"
  define h where "h = pb_payload (pbufs n1 p)"
  define n2 where "n2 = (if mem_bytes n1 h AND 1 \<noteq> 0 then
      if mem_bytes n1 h = LL_IP4_MULTICAST_ADDR_0 then
        if mem_bytes n1 (h + 1) = LL_IP4_MULTICAST_ADDR_1 \<and> mem_bytes n1 (h + 2) = LL_IP4_MULTICAST_ADDR_2
        then pb_upd p (\<lambda>b. b\<lparr>pb_flags := pb_flags b OR PBUF_FLAG_LLMCAST\<rparr>) n1 else n1
      else if get_bytes (mem_bytes n1) h 6 = ethbroadcast
      then pb_upd p (\<lambda>b. b\<lparr>pb_flags := pb_flags b OR PBUF_FLAG_LLBCAST\<rparr>) n1 else n1
    else n1)"
  have fl: "(f OR PBUF_FLAG_LLMCAST) AND PBUF_FLAG_IS_CUSTOM = f AND PBUF_FLAG_IS_CUSTOM"
    "(f OR PBUF_FLAG_LLBCAST) AND PBUF_FLAG_IS_CUSTOM = f AND PBUF_FLAG_IS_CUSTOM" for f
    by (simp_all add: PBUF_FLAG_LLMCAST_def PBUF_FLAG_LLBCAST_def PBUF_FLAG_IS_CUSTOM_def bit.conj_disj_distrib2)
  have ok2: "arp_ok E ?M (set_net n2 s)"
    by (rule arp_ok_net [OF ok]) (simp_all add: n2_def n1_def fl)
  obtain err n3 where rh: "pbuf_remove_header p SIZEOF_ETH_HDR n2 = (err, n3)" by force
  have ok3: "arp_ok E ?M (set_net n3 (set_net n2 s))"
    using rh by (intro arp_ok_net [OF ok2]) (auto simp: pbuf_remove_header_def Let_def split: if_splits)
  obtain s' where inp: "etharp_input E dhcp_arp_reply netif p (set_net n3 (set_net n2 s)) = Some s'" "arp_ok E M s'"
    using etharp_input_ok [OF ok3 nif, of dhcp_arp_reply] dhcp by blast
  have eq: "ethernet_input E dhcp_arp_reply ip4_input netif p s = map_option (Pair ERR_OK)
     (if pb_len (pbufs (arp_net s) p) \<le> SIZEOF_ETH_HDR then arp_pbuf_free E p s
      else let type = ld16 (mem_bytes n1) (h + 12); etharp = nif_flags (arp_nif s) AND NETIF_FLAG_ETHARP \<noteq> 0; s = set_net n2 s in
        if type = PP_HTONS ETHTYPE_IP then
          if \<not> etharp then arp_pbuf_free E p s
          else if err \<noteq> 0 then arp_pbuf_free E p (set_net n3 s) else Some (ip4_input p (set_net n3 s))
        else if type = PP_HTONS ETHTYPE_ARP then
          if \<not> etharp then arp_pbuf_free E p s
          else if err \<noteq> 0 then arp_pbuf_free E p (set_net n3 s)
          else etharp_input E dhcp_arp_reply netif p (set_net n3 s)
        else arp_pbuf_free E p s)"
    unfolding ethernet_input_def Let_def n1_def [symmetric] h_def [symmetric] n2_def [symmetric] rh prod.case arp_sel ..
  show ?thesis unfolding eq Let_def using free [OF ok] free [OF ok2] free [OF ok3] ip [OF ok3] inp by simp
qed

end
