(* ===== verification/Lwip_Etharp_Spec.thy ===== *)
theory Lwip_Etharp_Spec
  imports Lwip_Etharp_Table
begin

text \<open>
  The contracts of the Ethernet layer: safety of all its operations, the choice of the table entry, the
  life of entries, the answer to an ARP request, and where packets are sent.
\<close>

section \<open>Safety\<close>


section \<open>The life of entries\<close>

lemma tick_empty [simp]: "arp_state e = ETHARP_STATE_EMPTY \<Longrightarrow> (tick ^^ n) e = e"
  by (induction n) (simp_all add: tick_def)

lemma tick_ok: "entry_ok e \<Longrightarrow> entry_ok (tick e)"
  by (auto simp: tick_def entry_ok_def free_entry_def ARP_MAXAGE_def ARP_MAXPENDING_def ethzero_def)





section \<open>Choosing an entry\<close>

text \<open>
  C17. \<open>etharp_find_entry\<close> returns the entry in use for the address, if there is one. If not, and it may
  make one, it takes the first empty entry; if there is none and it may recycle, the oldest stable entry,
  else the oldest pending entry without a packet, else the oldest with one. That entry is then empty and
  carries the address; no other entry changes. It reports failure exactly when it may not do so.
\<close>
theorem etharp_find_entry_choice:
  assumes "arp_ok E M s"
  shows "\<exists>r s'. etharp_find_entry E (Some a) flags netif s = Some (r, s') \<and> arp_ok E M s' \<and>
    (if \<exists>e \<in> set (arp_table s). wanted (Some a) netif e
     then s' = s \<and> (\<exists>i < ARP_TABLE_SIZE. r = Some i \<and> wanted (Some a) netif (arp_table s ! i))
     else if flags AND ETHARP_FLAG_FIND_ONLY \<noteq> 0 \<or>
       (\<forall>e \<in> set (arp_table s). arp_state e \<noteq> ETHARP_STATE_EMPTY) \<and> flags AND ETHARP_FLAG_TRY_HARD = 0
     then r = None \<and> s' = s
     else \<exists>i e. r = Some i \<and> recycled (arp_table s) i \<and> arp_table s' = (arp_table s)[i := e] \<and>
       arp_state e = ETHARP_STATE_EMPTY \<and> arp_q e = 0 \<and> arp_ctime e = 0 \<and> arp_netif e = netif \<and> arp_ipaddr e = a)"
proof -
  have mono: "if P then A else if Q then B else D" if "if P then A else if Q then B else C" "C \<Longrightarrow> D" for P Q A B C D :: bool
    using that by (simp split: if_splits)
  from etharp_find_entry_spec [OF assms, of "Some a" flags netif] obtain r s' where
    f: "etharp_find_entry E (Some a) flags netif s = Some (r, s')" "arp_ok E M s'" and res:
    "if \<exists>e \<in> set (arp_table s). wanted (Some a) netif e
     then s' = s \<and> (\<exists>i < ARP_TABLE_SIZE. r = Some i \<and> wanted (Some a) netif (arp_table s ! i))
     else if flags AND ETHARP_FLAG_FIND_ONLY \<noteq> 0 \<or>
       (\<forall>e \<in> set (arp_table s). arp_state e \<noteq> ETHARP_STATE_EMPTY) \<and> flags AND ETHARP_FLAG_TRY_HARD = 0
     then r = None \<and> s' = s
     else \<exists>i e. r = Some i \<and> recycled (arp_table s) i \<and> arp_table s' = (arp_table s)[i := e] \<and>
       arp_state e = ETHARP_STATE_EMPTY \<and> arp_q e = 0 \<and> arp_ctime e = 0 \<and> arp_netif e = netif \<and> length (arp_ethaddr e) = 6 \<and>
       (\<forall>b. Some a = Some b \<longrightarrow> arp_ipaddr e = b) \<and>
       ((\<exists>e \<in> set (arp_table s). arp_state e = ETHARP_STATE_EMPTY) \<longrightarrow> arp_board s' = arp_board s)" by blast
  show ?thesis
    by (rule exI, rule exI, rule conjI, rule f, rule conjI, rule f, rule mono, rule res) blast
qed

section \<open>Answering a request\<close>




section \<open>Resolving and sending\<close>









section \<open>A node\<close>

text \<open>The board as the node 192.168.0.1, with a table, and the packet \<open>node_pkt\<close> in its heap.\<close>

definition node_netif :: netif where
  "node_netif = null_netif\<lparr>ip_addr := 0x0100a8c0, netmask := 0x00ffffff, nif_linkoutput := low_level_output_fn,
    hwaddr := [2, 0, 0, 0, 0, 1], nif_flags := NETIF_FLAG_ETHARP\<rparr>"

definition node :: "net \<Rightarrow> etharp_entry list \<Rightarrow> arp" where
  "node n t = \<lparr>arp_board = board_one\<lparr>b_emac := board_open, b_net := n, b_netif := node_netif\<rparr>, arp_table = t, etharp_cached_entry = 0\<rparr>"


lemma node_sel [simp]:
  "arp_table (node n t) = t" "arp_net (node n t) = n" "arp_nif (node n t) = node_netif" "b_emac (arp_board (node n t)) = board_open"
  "ip_addr node_netif = 0x0100a8c0" "netmask node_netif = 0x00ffffff" "gw node_netif = 0"
  "nif_linkoutput node_netif = low_level_output_fn" "hwaddr node_netif = [2, 0, 0, 0, 0, 1]" "etharp_cached_entry (node n t) = 0"
  by (simp_all add: node_def node_netif_def arp_net_def arp_nif_def null_netif_def)


lemma node_empty: "owned net_env net_boot {#}"
proof -
  have "pools_apart net_env net_boot"
    by (auto simp: pools_apart_def elems_def net_env_def net_pools_def MEMP_PBUF_def MEMP_PBUF_POOL_def LWIP_MEM_ALIGN_def
        apart_def net_boot_def boot_ok(2))
  then show ?thesis using net_boot_inv(1) by (simp add: owned_def)
qed


lemma node_ok:
  assumes "owned net_env n M" "table_ok t" "\<forall>e \<in> set t. arp_q e = 0"
  shows "arp_ok net_env M (node n t)"
proof -
  have "table_refs C t = {#}" for C using assms(3) by (induction t) (simp_all add: table_refs_def entry_refs_def)
  then show ?thesis using assms by (simp add: arp_ok_def ARP_TABLE_SIZE_def)
qed


lemma node_idle: "owned net_env n M \<Longrightarrow> arp_ok net_env M (node n (replicate ARP_TABLE_SIZE free_entry))"
  by (rule node_ok) (simp_all add: table_ok_def same_key_def ARP_TABLE_SIZE_def)





theorem etharp_find_entry_choice_witness:
  "\<exists>s'. etharp_find_entry net_env (Some 0x0200a8c0) ETHARP_FLAG_TRY_HARD 1 (node net_boot (replicate ARP_TABLE_SIZE free_entry)) = Some (Some 0, s')"
proof -
  let ?t = "replicate ARP_TABLE_SIZE free_entry"
  have "recycled ?t i \<Longrightarrow> i = 0" for i by (cases i) (auto simp: recycled_def ARP_TABLE_SIZE_def)
  moreover have "\<not> (\<exists>e \<in> set ?t. wanted a 1 e)" for a by (simp add: wanted_def)
  ultimately show ?thesis
    using etharp_find_entry_choice [OF node_idle [OF node_empty], of "0x0200a8c0" ETHARP_FLAG_TRY_HARD 1]
    by (auto simp: ETHARP_FLAG_TRY_HARD_def ETHARP_FLAG_FIND_ONLY_def ARP_TABLE_SIZE_def)
qed




end
