(* ===== verification/Spec2Isabelle.thy ===== *)
theory Spec2Isabelle
  imports Emac_Queue Lwip_Heap_Spec Lwip_Ethernetif Lwip_Timeouts Lwip_Ip4_Addr Lwip_Chksum_Spec Lwip_Etharp_Spec
begin

text \<open>
  A verification of the NuM487ETH firmware: an Ethernet node on the Nuvoton M487 that runs lwIP without
  an operating system.

  \<^bold>\<open>The program.\<close> \<open>Drivers/Library/StdDriver\<close> drives the Ethernet controller (EMAC) through its registers
  and two rings of four descriptors, shared with the DMA engine. \<open>Middleware/lwIP/port\<close> binds the driver
  to lwIP: \<open>ethernetif.c\<close> copies received frames into packet buffers and packets into transmit buffers,
  \<open>sys_arch.c\<close> provides a millisecond clock. lwIP itself keeps its memory in a heap (\<open>core/mem.c\<close>) and in
  pools of fixed-size elements (\<open>core/memp.c\<close>), builds packets from both (\<open>core/pbuf.c\<close>), protects them
  with Internet checksums (\<open>core/inet_chksum.c\<close>) and drives its protocols by timeouts (\<open>core/timeouts.c\<close>).
  \<open>netif/ethernet.c\<close> and \<open>core/ipv4/etharp.c\<close> put packets into Ethernet frames, for destinations that they
  find by ARP. The receive interrupt calls \<open>ethernetif_input\<close>, the transmit interrupt \<open>EMAC_SendPktDone\<close>, and
  the main loop \<open>sys_check_timeouts\<close>.

  \<^bold>\<open>Theories and sources.\<close>

  \<^item> \<open>Net_Prelude\<close>: word types, single-bit masks, byte memory and \<open>memcpy\<close>.
  \<^item> \<open>Emac_Regs\<close>: registers, fields and macros of \<open>emac_reg.h\<close> and \<open>emac.h\<close>, descriptors, driver state.
    Registers are a function from offsets; \<open>INTSTS\<close> is write-one-to-clear, some registers are read-only.
  \<^item> \<open>Emac_Phy\<close>: \<open>EMAC_MdioRead\<close>, \<open>EMAC_MdioWrite\<close>, \<open>EMAC_PhyInit\<close>, \<open>EMAC_CheckLinkStatus\<close>, \<open>EMAC_Close\<close>.
    What the PHY answers and how long a busy bit stays set are arguments.
  \<^item> \<open>Emac_Time\<close>: the time-stamp unit of \<open>emac.c\<close>. \<open>Emac_Cam\<close>: the address filter.
  \<^item> \<open>Emac_Ring\<close>: \<open>EMAC_Open\<close> and all send and receive operations. \<open>Emac_Inv\<close>: the DMA engine as a relation,
    the reachable states, ring safety, sending. \<open>Emac_Queue\<close>: receiving as operations of a queue.
  \<^item> \<open>Lwip_Mem\<close>: \<open>mem.c\<close>. \<open>Lwip_Heap\<close>, \<open>Lwip_Heap_Spec\<close>: the heap as a list of blocks, and what follows.
  \<^item> \<open>Lwip_Alloc\<close>: the interface of an allocator as a locale, with histories of calls.
    \<open>Lwip_Memp\<close>: \<open>memp.c\<close>. Heap and pools both interpret the locale.
  \<^item> \<open>Lwip_Base\<close>, \<open>Lwip_Pbuf\<close>: byte memory of lwIP, \<open>struct pbuf\<close> and every operation of \<open>pbuf.c\<close>.
    \<open>Lwip_Packet\<close> and \<open>Lwip_Packet_Copy\<close>, \<open>_Life\<close>, \<open>_Alloc\<close>, \<open>_Size\<close>: packets as lists of pbufs with their
    bytes, and the lemmas on each group of operations. \<open>Lwip_Pbuf_Spec\<close>: the contracts.
  \<^item> \<open>Lwip_Def\<close>, \<open>Lwip_Chksum\<close>, \<open>Lwip_Chksum_Spec\<close>: byte order and checksums, and their algebra.
  \<^item> \<open>Lwip_Ethernetif\<close>: \<open>ethernetif.c\<close> and \<open>struct netif\<close>, over the EMAC and the packet buffers.
  \<^item> \<open>Lwip_Timeouts\<close>: \<open>timeouts.c\<close> and the clock of \<open>sys_arch.c\<close>.
  \<^item> \<open>Lwip_Ip4_Addr\<close>: \<open>ip4_addr.c\<close>, addresses as 32-bit words in network byte order.
  \<^item> \<open>Lwip_Etharp\<close>: \<open>ethernet.c\<close> and \<open>etharp.c\<close>, over the interface driver and the packet buffers; the record
    \<open>arp\<close> adds the ARP table to the board. \<open>ip4_input\<close> and \<open>dhcp_arp_reply\<close> are arguments.
    \<open>Lwip_Packet_Own\<close>: who holds references to which packets, as a multiset. \<open>Lwip_Etharp_Msg\<close>: ARP messages
    as bytes and the frames that carry them. \<open>Lwip_Etharp_Table\<close>: the invariant of the table and its
    preservation. \<open>Lwip_Etharp_Spec\<close>: the contracts.

  \<^bold>\<open>State and effects.\<close> Every operation takes the state it works on and returns it updated. Register and
  clock arithmetic is on 32-bit words. lwIP's lengths and offsets are natural numbers, with the
  truncation of each cast to \<open>u16_t\<close> or \<open>mem_size_t\<close> written out. Structures reached by pointers are kept
  in stores indexed by address, apart from the byte memory. Function pointers are values of a datatype
  or, where other modules supply them, arguments. \<open>LWIP_ASSERT\<close> only prints in this build and is left out.

  \<^bold>\<open>Loops.\<close> A loop that follows links or waits for hardware is a \<open>partial_function\<close> into \<open>option\<close>, where
  \<open>None\<close> means that it does not return; that it does return is part of the theorems. Polling loops with a
  budget are total functions over the remaining budget. No fuel is used.

  \<^bold>\<open>What is shown.\<close> For the rings: every interleaving of driver and DMA keeps them linked; sending and
  completion do what they say; receiving is a queue. For heap and pools: first fit with splitting and
  merging, blocks that never overlap, nothing lost. For packets: allocation, release, truncation,
  concatenation, headers, copying and searching, stated on the bytes of the packet. For checksums:
  three algorithms, one sum, at any alignment and any division into pbufs. For the interface driver: a frame becomes a
  packet with the same bytes, and a packet a frame. For the timeouts: sorted insertion modulo \<open>2^32\<close>,
  exactly the due ones run, and the loop ends. For addresses: text and back, and the valid netmasks. For
  Ethernet and ARP: every operation returns and keeps the table and all reference counts in order; which
  entry is found or recycled and how long it lives; the reply to a request; where a packet is sent. The theorems on error behaviour state where the code
  departs from its contract.

  \<^bold>\<open>Not modelled.\<close> \<open>EMAC_EnableTS\<close> computes its increment in floating point. The protocols above the
  Ethernet layer (IP, ICMP, UDP, TCP, DHCP), the sequential and socket APIs, and the applications are
  reached only through arguments of the model. The start-up code, the other peripheral drivers, PPP,
  IPv6 and the lwIP applications that this build does not compile are left out. The interrupt handlers are
  not interleaved with the main loop inside lwIP: each of its operations runs to its end.
\<close>

end
